(* ===== verification/Prelude.thy ===== *)
theory Prelude
  imports Main "HOL-Library.Word"
begin

text \<open>
  Shared vocabulary of the development.

  \<^item> Go errors (\<open>gerror\<close>): sentinels made by \<open>errors.New\<close> at package level, dynamic errors with
    a message, errors wrapped by \<open>fmt.Errorf\<close> with \<open>%w\<close>, and joined errors. A Go value of
    type \<open>error\<close> is a \<open>gerror option\<close>, \<open>None\<close> being \<open>nil\<close>. \<open>errors_join\<close> and \<open>errors_is\<close>
    are \<open>errors.Join\<close> and \<open>errors.Is\<close>.
  \<^item> \<open>'a go\<close>: the outcome of a Go call that may panic.
  \<^item> Byte strings: a Go \<open>string\<close> is a \<open>string\<close> (its bytes), a \<open>[]byte\<close> is a list of 8-bit words.
  \<^item> Small library functions of the Go standard library (\<open>strings.Join\<close>, \<open>strings.Split\<close> on one
    byte, \<open>strings.ToLower\<close> on ASCII, \<open>hex.EncodeToString\<close>).
  \<^item> The collections \<open>inv_intros\<close> (preservation facts) and \<open>step_simps\<close> (unfolding of operations).
\<close>

named_theorems inv_intros
named_theorems step_simps

type_synonym byte = "8 word"
type_synonym bytes = "byte list"

section \<open>Errors\<close>

datatype gerror =
    Sentinel string
  | Dynamic string
  | Wrapped string gerror
  | Joined "gerror list"

text \<open>\<open>errors.Join\<close> drops \<open>nil\<close> arguments and is \<open>nil\<close> when nothing is left.\<close>

definition errors_join :: "gerror option list \<Rightarrow> gerror option" where
  "errors_join es = (case List.map_filter (\<lambda>e. e) es of [] \<Rightarrow> None | xs \<Rightarrow> Some (Joined xs))"

text \<open>\<open>errors.Is\<close> compares and then walks the wrapped errors.\<close>

fun errors_is :: "gerror \<Rightarrow> gerror \<Rightarrow> bool" where
  "errors_is (Sentinel s) t = (t = Sentinel s)"
| "errors_is (Dynamic s) t = (t = Dynamic s)"
| "errors_is (Wrapped s e) t = (t = Wrapped s e \<or> errors_is e t)"
| "errors_is (Joined es) t = (t = Joined es \<or> (\<exists>e \<in> set es. errors_is e t))"

definition opt_is :: "gerror option \<Rightarrow> gerror \<Rightarrow> bool" where
  "opt_is e t = (case e of None \<Rightarrow> False | Some e' \<Rightarrow> errors_is e' t)"

lemma errors_is_refl [simp]: "errors_is e e"
  by (cases e) auto

lemma opt_is_simps [simp]:
  "opt_is None t = False"
  "opt_is (Some e) t = errors_is e t"
  by (simp_all add: opt_is_def)

lemma errors_join_simps [simp]:
  "errors_join [] = None"
  "errors_join [None, None] = None"
  "errors_join [Some a, None] = Some (Joined [a])"
  "errors_join [None, Some b] = Some (Joined [b])"
  "errors_join [Some a, Some b] = Some (Joined [a, b])"
  by (simp_all add: errors_join_def List.map_filter_def)

lemma errors_join_None_iff: "errors_join es = None \<longleftrightarrow> (\<forall>e \<in> set es. e = None)"
proof -
  have "List.map_filter (\<lambda>e. e) es = [] \<longleftrightarrow> (\<forall>e \<in> set es. e = None)"
    by (induction es) (auto simp: List.map_filter_def split: option.splits)
  then show ?thesis by (auto simp: errors_join_def split: list.splits)
qed

lemma opt_is_join2 [simp]:
  assumes "\<And>xs. t \<noteq> Joined xs"
  shows "opt_is (errors_join [a, b]) t \<longleftrightarrow> opt_is a t \<or> opt_is b t"
  using assms by (cases a; cases b) auto

section \<open>Panics\<close>

datatype 'a go = Ret 'a | Panic string

fun go_bind :: "'a go \<Rightarrow> ('a \<Rightarrow> 'b go) \<Rightarrow> 'b go" where
  "go_bind (Ret x) f = f x"
| "go_bind (Panic m) f = Panic m"

lemma go_bind_Ret_iff: "go_bind m f = Ret y \<longleftrightarrow> (\<exists>x. m = Ret x \<and> f x = Ret y)"
  by (cases m) auto

section \<open>Strings\<close>

text \<open>\<open>strings.Join\<close>.\<close>

fun str_join :: "string \<Rightarrow> string list \<Rightarrow> string" where
  "str_join sep [] = []"
| "str_join sep [x] = x"
| "str_join sep (x # y # xs) = x @ sep @ str_join sep (y # xs)"

text \<open>\<open>strings.Split\<close> for a separator of one byte: always at least one field.\<close>

fun str_split :: "char \<Rightarrow> string \<Rightarrow> string list" where
  "str_split c [] = [[]]"
| "str_split c (x # xs) =
     (if x = c then [] # str_split c xs
      else (case str_split c xs of [] \<Rightarrow> [[x]] | f # fs \<Rightarrow> (x # f) # fs))"

lemma str_split_nonempty [simp]: "str_split c xs \<noteq> []"
  by (induction xs) (auto split: list.splits)

lemma str_join_split: "str_join [c] (str_split c xs) = xs"
proof (induction xs)
  case Nil
  then show ?case by simp
next
  case (Cons x xs)
  obtain f fs where s: "str_split c xs = f # fs"
    by (cases "str_split c xs") auto
  with Cons show ?case by (cases fs) auto
qed

lemma str_split_no_sep: "f \<in> set (str_split c xs) \<Longrightarrow> c \<notin> set f"
proof (induction xs arbitrary: f)
  case Nil
  then show ?case by simp
next
  case (Cons x xs)
  obtain g gs where s: "str_split c xs = g # gs"
    by (cases "str_split c xs") auto
  from Cons show ?case by (auto simp: s split: if_splits)
qed

text \<open>\<open>Error()\<close>: a wrapped error is written after its message and a colon, joined ones line by line.\<close>

fun error_text :: "gerror \<Rightarrow> string" where
  "error_text (Sentinel m) = m"
| "error_text (Dynamic m) = m"
| "error_text (Wrapped m e) = m @ '': '' @ error_text e"
| "error_text (Joined es) = str_join [CHR 0x0A] (map error_text es)"

text \<open>\<open>strings.ToLower\<close> on ASCII bytes; other bytes are left alone.\<close>

definition char_lower :: "char \<Rightarrow> char" where
  "char_lower c =
     (if 65 \<le> (of_char c :: nat) \<and> (of_char c :: nat) \<le> 90 then char_of ((of_char c :: nat) + 32) else c)"

definition str_lower :: "string \<Rightarrow> string" where
  "str_lower s = map char_lower s"

text \<open>\<open>hex.EncodeToString\<close>.\<close>

definition hex_digit :: "nat \<Rightarrow> char" where
  "hex_digit n = (if n < 10 then char_of (48 + n) else char_of (87 + n))"

definition hex_encode :: "bytes \<Rightarrow> string" where
  "hex_encode bs = concat (map (\<lambda>b. [hex_digit (unat b div 16), hex_digit (unat b mod 16)]) bs)"

lemma length_hex_encode [simp]: "length (hex_encode bs) = 2 * length bs"
  by (induction bs) (auto simp: hex_encode_def)

lemma hex_digit_inj:
  assumes "m < 16" "n < 16" "hex_digit m = hex_digit n"
  shows "m = n"
proof -
  have "of_char (hex_digit m) = (of_char (hex_digit n) :: nat)"
    using assms(3) by simp
  then show ?thesis
    using assms(1,2) by (auto simp: hex_digit_def of_char_of split: if_splits)
qed

lemma hex_encode_inj: "hex_encode xs = hex_encode ys \<Longrightarrow> xs = ys"
proof (induction xs arbitrary: ys)
  case Nil
  then show ?case by (cases ys) (auto simp: hex_encode_def)
next
  case (Cons x xs)
  from Cons.prems obtain y ys' where ys: "ys = y # ys'"
    by (cases ys) (auto simp: hex_encode_def)
  have bound: "unat (z :: byte) div 16 < 16" for z
    using unsigned_less [of z, where 'a = nat] by (simp add: div_less_iff_less_mult)
  from Cons.prems have hi: "hex_digit (unat x div 16) = hex_digit (unat y div 16)"
    and lo: "hex_digit (unat x mod 16) = hex_digit (unat y mod 16)"
    and rest: "hex_encode xs = hex_encode ys'"
    by (auto simp: hex_encode_def ys)
  have "unat x div 16 = unat y div 16" "unat x mod 16 = unat y mod 16"
    using hex_digit_inj [OF bound bound hi] hex_digit_inj [OF _ _ lo] by simp_all
  then have "unat x = unat y" by (metis div_mult_mod_eq)
  then show ?case using Cons.IH [OF rest] by (simp add: ys word_unat_eq_iff)
qed

text \<open>\<open>%d\<close> of \<open>fmt\<close>.\<close>

fun nat_digits :: "nat \<Rightarrow> string" where
  "nat_digits n = (if n < 10 then [hex_digit n] else nat_digits (n div 10) @ [hex_digit (n mod 10)])"

declare nat_digits.simps [simp del]

definition nat_str :: "nat \<Rightarrow> string" where
  "nat_str n = nat_digits n"

definition int_str :: "int \<Rightarrow> string" where
  "int_str n = (if n < 0 then CHR ''-'' # nat_str (nat (- n)) else nat_str (nat n))"

text \<open>Reading decimal digits back.\<close>

definition nat_of_digits :: "string \<Rightarrow> nat" where
  "nat_of_digits s = foldl (\<lambda>n c. n * 10 + (of_char c - 48)) 0 s"

lemma digit_char_value: "n < 10 \<Longrightarrow> (of_char (hex_digit n) :: nat) - 48 = n"
  by (simp add: hex_digit_def of_char_of)

lemma nat_of_digits_str [simp]: "nat_of_digits (nat_str n) = n"
  unfolding nat_str_def
proof (induction n rule: nat_digits.induct)
  case (1 n)
  then show ?case
    by (subst nat_digits.simps)
       (auto simp: nat_of_digits_def digit_char_value)
qed

lemma nat_str_inj: "nat_str m = nat_str n \<Longrightarrow> m = n"
  by (metis nat_of_digits_str)

lemma nat_digits_chars: "c \<in> set (nat_str n) \<Longrightarrow> c \<in> set ''0123456789''"
  unfolding nat_str_def
proof (induction n rule: nat_digits.induct)
  case (1 n)
  have "list_all (\<lambda>k. hex_digit k \<in> set ''0123456789'') [0..<10]" by code_simp
  then have "hex_digit k \<in> set ''0123456789''" if "k < 10" for k
    using that by (simp only: list_all_iff set_upt atLeastLessThan_iff) simp
  note digit = this
  show ?case
  proof (cases "n < 10")
    case True
    with 1(2) digit [of n] show ?thesis by (subst (asm) nat_digits.simps) (simp only: if_True list.set insert_iff empty_iff simp_thms)
  next
    case False
    with 1(2) have "c \<in> set (nat_digits (n div 10)) \<or> c = hex_digit (n mod 10)"
      by (subst (asm) nat_digits.simps) auto
    moreover have "n mod 10 < 10" by simp
    ultimately show ?thesis using False 1(1) digit [of "n mod 10"] by blast
  qed
qed

section \<open>White space\<close>

text \<open>The ASCII white space of \<open>strings.Fields\<close> and \<open>strings.TrimSpace\<close>.\<close>

definition is_space :: "char \<Rightarrow> bool" where
  "is_space c \<longleftrightarrow> c \<in> {CHR 0x09, CHR 0x0A, CHR 0x0B, CHR 0x0C, CHR 0x0D, CHR 0x20}"

text \<open>\<open>strings.Fields\<close>; the first argument is the field being read.\<close>

fun fields_from :: "string \<Rightarrow> string \<Rightarrow> string list" where
  "fields_from cur [] = (if cur = [] then [] else [cur])"
| "fields_from cur (c # cs) =
     (if is_space c then (if cur = [] then fields_from [] cs else cur # fields_from [] cs)
      else fields_from (cur @ [c]) cs)"

abbreviation str_fields :: "string \<Rightarrow> string list" where
  "str_fields \<equiv> fields_from []"

text \<open>A word: what a field looks like.\<close>

definition is_word :: "string \<Rightarrow> bool" where
  "is_word w \<longleftrightarrow> w \<noteq> [] \<and> (\<forall>c \<in> set w. \<not> is_space c)"

lemma fields_from_words:
  "\<forall>c \<in> set cur. \<not> is_space c \<Longrightarrow> w \<in> set (fields_from cur s) \<Longrightarrow> is_word w"
proof (induction s arbitrary: cur)
  case Nil
  then show ?case by (auto simp: is_word_def split: if_splits)
next
  case (Cons c cs)
  show ?case
  proof (cases "is_space c")
    case True
    with Cons.prems have "w = cur \<and> cur \<noteq> [] \<or> w \<in> set (fields_from [] cs)"
      by (auto split: if_splits)
    with Cons.prems(1) Cons.IH [of "[]"] show ?thesis by (auto simp: is_word_def)
  next
    case False
    with Cons.prems Cons.IH [of "cur @ [c]"] show ?thesis by auto
  qed
qed

lemma str_fields_words: "w \<in> set (str_fields s) \<Longrightarrow> is_word w"
  by (rule fields_from_words) auto

lemma fields_from_nospace:
  "\<forall>c \<in> set s. \<not> is_space c \<Longrightarrow> fields_from cur s = (if cur @ s = [] then [] else [cur @ s])"
  by (induction s arbitrary: cur) auto

lemma str_fields_word: "is_word w \<Longrightarrow> str_fields w = [w]"
  by (auto simp: fields_from_nospace is_word_def)

lemma fields_from_space:
  "is_space c \<Longrightarrow> fields_from cur (s @ c # t) = fields_from cur s @ str_fields t"
  by (induction s arbitrary: cur) auto

lemma is_space_blank [simp]: "is_space CHR 0x20"
  by (simp add: is_space_def)

definition trim_left :: "string \<Rightarrow> string" where
  "trim_left s = dropWhile is_space s"

text \<open>\<open>strings.TrimSpace\<close>.\<close>

definition trim_space :: "string \<Rightarrow> string" where
  "trim_space s = rev (trim_left (rev (trim_left s)))"

end
