(* ===== verification/Split_Args.thy ===== *)
theory Split_Args
  imports Prelude
begin

text \<open>
  The command line splitter of \<open>internal/k8s/shell.go\<close>: \<open>splitArgs\<close> and \<open>buildCommand\<close>.
  The byte loop is a left fold of \<open>split_step\<close> over the input, with the loop's three variables
  (\<open>args\<close>, \<open>current\<close>, \<open>inQuotes\<close>) as its state. The lemmas show what the splitter keeps
  (every byte that is neither a quote nor a space), what it never produces (an empty argument),
  and that it inverts single quoting up to the special treatment of \<open>sh -c\<close>.
\<close>

abbreviation quote_char :: char where
  "quote_char \<equiv> CHR 0x27"

abbreviation space_char :: char where
  "space_char \<equiv> CHR 0x20"

section \<open>The byte loop\<close>

fun split_step :: "string list \<times> string \<times> bool \<Rightarrow> char \<Rightarrow> string list \<times> string \<times> bool" where
  "split_step (args, current, inQuotes) ch =
     (if ch = quote_char then (args, current, \<not> inQuotes)
      else if ch = space_char then
        (if inQuotes then (args, current @ [ch], inQuotes)
         else if length current > 0 then (args @ [current], [], inQuotes)
         else (args, current, inQuotes))
      else (args, current @ [ch], inQuotes))"

definition split_raw :: "string \<Rightarrow> string list" where
  "split_raw input =
     (let (args, current, inQuotes) = foldl split_step ([], [], False) input
      in if length current > 0 then args @ [current] else args)"

text \<open>
  The loop over \<open>i < len(args)-1\<close> that looks for \<open>sh\<close>, \<open>-c\<close> followed by something, joins the
  rest and stops. Positions with nothing after \<open>-c\<close> never match.
\<close>

fun combine_sh :: "string list \<Rightarrow> string list" where
  "combine_sh (a # b # c # rest) =
     (if a = ''sh'' \<and> b = ''-c'' then [a, b, str_join '' '' (c # rest)]
      else a # combine_sh (b # c # rest))"
| "combine_sh xs = xs"

definition splitArgs :: "string \<Rightarrow> string list" where
  "splitArgs input = combine_sh (split_raw input)"

text \<open>\<open>buildCommand\<close> copies its argument.\<close>

definition buildCommand :: "string list \<Rightarrow> string list" where
  "buildCommand command = foldl (\<lambda>result c. result @ [c]) [] command"

lemma buildCommand_id: "buildCommand command = command"
proof -
  have "foldl (\<lambda>result c. result @ [c]) acc xs = acc @ xs" for acc xs :: "string list"
    by (induction xs arbitrary: acc) auto
  then show ?thesis by (simp add: buildCommand_def)
qed

section \<open>What the loop keeps\<close>

definition plain_char :: "char \<Rightarrow> bool" where
  "plain_char c \<longleftrightarrow> c \<noteq> quote_char \<and> c \<noteq> space_char"

lemma split_step_plain:
  "split_step (args, cur, q) ch = (args', cur', q') \<Longrightarrow>
     filter plain_char (concat args' @ cur') = filter plain_char (concat args @ cur @ [ch])"
  by (auto simp: plain_char_def split: if_splits)

lemma foldl_split_plain:
  "foldl split_step (args, cur, q) s = (args', cur', q') \<Longrightarrow>
     filter plain_char (concat args' @ cur') = filter plain_char (concat args @ cur @ s)"
proof (induction s arbitrary: args cur q)
  case Nil
  then show ?case by simp
next
  case (Cons ch s)
  obtain a c p where st: "split_step (args, cur, q) ch = (a, c, p)"
    by (cases "split_step (args, cur, q) ch") auto
  with Cons.prems have "foldl split_step (a, c, p) s = (args', cur', q')" by simp
  from Cons.IH [OF this] split_step_plain [OF st] show ?case by simp
qed

lemma split_raw_plain: "filter plain_char (concat (split_raw s)) = filter plain_char s"
proof -
  obtain a c p where st: "foldl split_step ([], [], False) s = (a, c, p)"
    by (cases "foldl split_step ([], [], False) s") auto
  from foldl_split_plain [OF st] show ?thesis by (auto simp: split_raw_def st)
qed

lemma split_step_nonempty:
  "split_step (args, cur, q) ch = (args', cur', q') \<Longrightarrow> [] \<notin> set args \<Longrightarrow> [] \<notin> set args'"
  by (auto split: if_splits)

lemma foldl_split_nonempty:
  "foldl split_step (args, cur, q) s = (args', cur', q') \<Longrightarrow> [] \<notin> set args \<Longrightarrow> [] \<notin> set args'"
proof (induction s arbitrary: args cur q)
  case Nil
  then show ?case by simp
next
  case (Cons ch s)
  obtain a c p where st: "split_step (args, cur, q) ch = (a, c, p)"
    by (cases "split_step (args, cur, q) ch") auto
  with Cons.prems(1) have rest: "foldl split_step (a, c, p) s = (args', cur', q')" by simp
  show ?case by (rule Cons.IH [OF rest split_step_nonempty [OF st Cons.prems(2)]])
qed

lemma split_raw_nonempty: "[] \<notin> set (split_raw s)"
proof -
  obtain a c p where st: "foldl split_step ([], [], False) s = (a, c, p)"
    by (cases "foldl split_step ([], [], False) s") auto
  from foldl_split_nonempty [OF st] show ?thesis by (auto simp: split_raw_def st)
qed

section \<open>The special case for sh -c\<close>

lemma str_join_eq_Nil: "str_join sep (x # xs) = [] \<Longrightarrow> x = []"
  by (cases xs) auto

lemma filter_join_space: "filter plain_char (str_join '' '' xs) = filter plain_char (concat xs)"
  by (induction "'' ''" xs rule: str_join.induct) (auto simp: plain_char_def)

lemma combine_sh_plain: "filter plain_char (concat (combine_sh xs)) = filter plain_char (concat xs)"
proof (induction xs rule: combine_sh.induct)
  case (1 a b c rest)
  show ?case
  proof (cases "a = ''sh'' \<and> b = ''-c''")
    case True
    then show ?thesis using filter_join_space [of "c # rest"] by simp
  next
    case False
    with 1 show ?thesis by auto
  qed
qed auto

lemma combine_sh_nonempty: "[] \<notin> set xs \<Longrightarrow> [] \<notin> set (combine_sh xs)"
  by (induction xs rule: combine_sh.induct) (auto dest: sym dest!: str_join_eq_Nil)

lemma combine_sh_head: "\<exists>ds. combine_sh (x # xs) = x # ds"
  by (cases xs; cases "tl xs") auto

lemma combine_sh_two: "\<exists>d ds. combine_sh (x # y # zs) = x # d # ds"
  using combine_sh_head [of y zs] by (cases zs) auto

lemma combine_sh_idem: "combine_sh (combine_sh xs) = combine_sh xs"
proof (induction xs rule: combine_sh.induct)
  case (1 a b c rest)
  show ?case
  proof (cases "a = ''sh'' \<and> b = ''-c''")
    case True
    then show ?thesis by simp
  next
    case False
    obtain d ds where d: "combine_sh (b # c # rest) = b # d # ds"
      using combine_sh_two [of b c rest] by blast
    show ?thesis using 1 False by (auto simp: d)
  qed
qed auto

lemma combine_sh_id: "''-c'' \<notin> set xs \<Longrightarrow> combine_sh xs = xs"
  by (induction xs rule: combine_sh.induct) auto

lemma combine_sh_first:
  "''sh'' \<notin> set pre \<Longrightarrow>
     combine_sh (pre @ ''sh'' # ''-c'' # c # rest) = pre @ [''sh'', ''-c'', str_join '' '' (c # rest)]"
proof (induction pre)
  case Nil
  then show ?case by simp
next
  case (Cons p pre)
  then show ?case by (cases pre; cases "tl pre") auto
qed

section \<open>Quoting\<close>

text \<open>What a client does to pass a word through the splitter: single quotes around it.\<close>

definition sh_quote :: "string \<Rightarrow> string" where
  "sh_quote w = [quote_char] @ w @ [quote_char]"

definition quotable :: "string \<Rightarrow> bool" where
  "quotable w \<longleftrightarrow> w \<noteq> [] \<and> quote_char \<notin> set w"

lemma foldl_in_quotes:
  "quote_char \<notin> set w \<Longrightarrow> foldl split_step (args, cur, True) w = (args, cur @ w, True)"
  by (induction w arbitrary: cur) auto

lemma foldl_sh_quote:
  "quotable w \<Longrightarrow> foldl split_step (args, [], False) (sh_quote w) = (args, w, False)"
  by (simp add: sh_quote_def quotable_def foldl_in_quotes)

lemma foldl_quoted_words:
  "list_all quotable ws \<Longrightarrow> ws \<noteq> [] \<Longrightarrow>
     foldl split_step (args, [], False) (str_join '' '' (map sh_quote ws)) =
       (args @ butlast ws, last ws, False)"
proof (induction ws arbitrary: args)
  case Nil
  then show ?case by simp
next
  case (Cons w ws)
  show ?case
  proof (cases ws)
    case Nil
    with Cons.prems show ?thesis by (simp add: foldl_sh_quote)
  next
    case (Cons v vs)
    with Cons.prems Cons.IH [of "args @ [w]"] show ?thesis
      by (simp add: foldl_sh_quote) (simp add: quotable_def)
  qed
qed

lemma split_raw_quoted:
  assumes "list_all quotable ws"
  shows "split_raw (str_join '' '' (map sh_quote ws)) = ws"
proof (cases "ws = []")
  case True
  then show ?thesis by (simp add: split_raw_def)
next
  case False
  with assms have "quotable (last ws)" by (simp add: list_all_iff)
  with foldl_quoted_words [OF assms False, of "[]"] False show ?thesis
    by (simp add: split_raw_def quotable_def)
qed

section \<open>Properties\<close>

text \<open>C31. Quoting is inverted: when every word is non-empty and free of single quotes, splitting
  the space-separated list of the single-quoted words gives back the words, up to the \<open>sh -c\<close>
  special case, and exactly the words when none of them is \<open>-c\<close>.\<close>

theorem splitArgs_quoted:
  assumes "list_all quotable ws"
  shows "splitArgs (str_join '' '' (map sh_quote ws)) = combine_sh ws
    \<and> (''-c'' \<notin> set ws \<longrightarrow> splitArgs (str_join '' '' (map sh_quote ws)) = ws)"
  using split_raw_quoted [OF assms] combine_sh_id by (simp add: splitArgs_def)

theorem splitArgs_quoted_witness:
  "splitArgs (str_join '' '' (map sh_quote [''ls'', ''-l'', ''my file''])) = [''ls'', ''-l'', ''my file'']"
  using splitArgs_quoted [of "[''ls'', ''-l'', ''my file'']"] by (simp add: quotable_def)

text \<open>Nothing is lost or invented: no argument is empty, and the bytes that are neither a single
  quote nor a space come out in the order in which they went in, whatever the input.\<close>

theorem splitArgs_keeps_bytes:
  "[] \<notin> set (splitArgs s) \<and> filter plain_char (concat (splitArgs s)) = filter plain_char s"
  by (simp add: splitArgs_def combine_sh_nonempty split_raw_nonempty combine_sh_plain split_raw_plain)

text \<open>A script passed as \<open>sh -c\<close> reaches the shell as one argument: with no earlier \<open>sh\<close>, the
  words after \<open>-c\<close> are joined by single spaces into the last argument, and applying the rule
  again changes nothing.\<close>

theorem splitArgs_sh_script:
  assumes "list_all quotable (pre @ c # rest)" and "''sh'' \<notin> set pre"
  shows "splitArgs (str_join '' '' (map sh_quote (pre @ ''sh'' # ''-c'' # c # rest)))
           = pre @ [''sh'', ''-c'', str_join '' '' (c # rest)]
    \<and> combine_sh (pre @ [''sh'', ''-c'', str_join '' '' (c # rest)])
           = pre @ [''sh'', ''-c'', str_join '' '' (c # rest)]"
proof -
  have "list_all quotable (pre @ ''sh'' # ''-c'' # c # rest)"
    using assms(1) by (simp add: quotable_def)
  from split_raw_quoted [OF this] have
    "splitArgs (str_join '' '' (map sh_quote (pre @ ''sh'' # ''-c'' # c # rest)))
       = combine_sh (pre @ ''sh'' # ''-c'' # c # rest)"
    by (simp add: splitArgs_def)
  then show ?thesis
    using combine_sh_first [OF assms(2), of c rest] combine_sh_idem by metis
qed

theorem splitArgs_sh_script_witness:
  "splitArgs (str_join '' '' (map sh_quote [''env'', ''sh'', ''-c'', ''echo'', ''hi there'']))
     = [''env'', ''sh'', ''-c'', ''echo hi there'']"
  using splitArgs_sh_script [of "[''env'']" "''echo''" "[''hi there'']"]
  by (simp add: quotable_def)

end
