(* ===== verification/Notice.thy ===== *)
theory Notice
  imports Prelude
begin

text \<open>
  The terminal notices of \<open>pkg/notice\<close>: \<open>wrap\<close> (wrap.go), \<open>termWidth\<close> (width_unix.go, as a
  function of the column count the \<open>ioctl\<close> leaves in the \<open>winsize\<close>), \<open>colorFor\<close> and \<open>Show\<close>
  (notice.go, color.go), \<open>Show\<close> returning the lines it prints. White space is ASCII white space.
\<close>

section \<open>wrap\<close>

fun wrap_step :: "int \<Rightarrow> string list \<times> string \<Rightarrow> string \<Rightarrow> string list \<times> string" where
  "wrap_step width (lines, line) w =
     (if int (length line) + int (length w) + 1 > width then (lines @ [line], w)
      else if line = [] then (lines, w)
      else (lines, line @ '' '' @ w))"

definition wrap :: "string \<Rightarrow> int \<Rightarrow> string list" where
  "wrap txt width =
     (let (lines, line) = foldl (wrap_step width) ([], []) (str_fields txt)
      in if line \<noteq> [] then lines @ [line] else lines)"

lemma wrap_step_fields:
  "wrap_step width (lines, line) w = (lines', line') \<Longrightarrow> is_word w \<Longrightarrow>
     concat (map str_fields lines') @ str_fields line'
       = (concat (map str_fields lines) @ str_fields line) @ [w]"
  by (auto simp: str_fields_word fields_from_space split: if_splits)

lemma foldl_wrap_fields:
  "foldl (wrap_step width) (lines, line) ws = (lines', line') \<Longrightarrow> list_all is_word ws \<Longrightarrow>
     concat (map str_fields lines') @ str_fields line'
       = (concat (map str_fields lines) @ str_fields line) @ ws"
proof (induction ws arbitrary: lines line)
  case Nil
  then show ?case by simp
next
  case (Cons w ws)
  obtain ls l where st: "wrap_step width (lines, line) w = (ls, l)"
    by (cases "wrap_step width (lines, line) w") auto
  with Cons.prems have "foldl (wrap_step width) (ls, l) ws = (lines', line')" by simp
  from Cons.IH [OF this] Cons.prems(2) wrap_step_fields [OF st] show ?case by simp
qed

lemma wrap_fields: "concat (map str_fields (wrap txt width)) = str_fields txt"
proof -
  obtain ls l where st: "foldl (wrap_step width) ([], []) (str_fields txt) = (ls, l)"
    by (cases "foldl (wrap_step width) ([], []) (str_fields txt)") auto
  have "list_all is_word (str_fields txt)" by (auto simp: list_all_iff str_fields_words)
  from foldl_wrap_fields [OF st this] show ?thesis
    by (auto simp: wrap_def st)
qed

text \<open>A line is short enough, or is a single word, or is the empty line pushed before a long first word.\<close>

definition line_ok :: "int \<Rightarrow> string set \<Rightarrow> string \<Rightarrow> bool" where
  "line_ok width W l \<longleftrightarrow> int (length l) \<le> width \<or> l \<in> W \<or> l = []"

lemma foldl_wrap_ok:
  "foldl (wrap_step width) (lines, line) ws = (lines', line') \<Longrightarrow>
     list_all (line_ok width W) (line # lines) \<Longrightarrow> set ws \<subseteq> W \<Longrightarrow>
     list_all (line_ok width W) (line' # lines')"
proof (induction ws arbitrary: lines line)
  case Nil
  then show ?case by simp
next
  case (Cons w ws)
  obtain ls l where st: "wrap_step width (lines, line) w = (ls, l)"
    by (cases "wrap_step width (lines, line) w") auto
  with Cons.prems have rest: "foldl (wrap_step width) (ls, l) ws = (lines', line')" by simp
  have "list_all (line_ok width W) (l # ls)"
    using st Cons.prems(2,3) by (auto simp: line_ok_def list_all_iff split: if_splits)
  from Cons.IH [OF rest this] Cons.prems(3) show ?case by simp
qed

lemma foldl_wrap_hd:
  "foldl (wrap_step width) (lines, line) ws = (lines', line') \<Longrightarrow> lines \<noteq> [] \<Longrightarrow>
     lines' \<noteq> [] \<and> hd lines' = hd lines"
proof (induction ws arbitrary: lines line)
  case Nil
  then show ?case by simp
next
  case (Cons w ws)
  obtain ls l where st: "wrap_step width (lines, line) w = (ls, l)"
    by (cases "wrap_step width (lines, line) w") auto
  with Cons.prems(1) have rest: "foldl (wrap_step width) (ls, l) ws = (lines', line')" by simp
  have "ls \<noteq> [] \<and> hd ls = hd lines"
    using st Cons.prems(2) by (auto split: if_splits)
  with Cons.IH [OF rest] show ?case by simp
qed

text \<open>Once the line being built is not empty it stays so, and so do the lines pushed after it.\<close>

lemma foldl_wrap_nonempty:
  "foldl (wrap_step width) (lines, line) ws = (lines', line') \<Longrightarrow> list_all is_word ws \<Longrightarrow>
     line \<noteq> [] \<Longrightarrow> [] \<notin> set lines \<Longrightarrow> line' \<noteq> [] \<and> [] \<notin> set lines'"
proof (induction ws arbitrary: lines line)
  case Nil
  then show ?case by simp
next
  case (Cons w ws)
  obtain ls l where st: "wrap_step width (lines, line) w = (ls, l)"
    by (cases "wrap_step width (lines, line) w") auto
  with Cons.prems(1) have rest: "foldl (wrap_step width) (ls, l) ws = (lines', line')" by simp
  have "l \<noteq> [] \<and> [] \<notin> set ls"
    using st Cons.prems(2-4) by (auto simp: is_word_def split: if_splits)
  with Cons.IH [OF rest] Cons.prems(2) show ?case by simp
qed

lemma wrap_blank:
  assumes "str_fields txt = w # ws"
  shows "(wrap txt width \<noteq> [] \<and> hd (wrap txt width) = []) \<longleftrightarrow> int (length w) + 1 > width"
proof -
  obtain ls l where st: "foldl (wrap_step width) ([], []) (w # ws) = (ls, l)"
    by (cases "foldl (wrap_step width) ([], []) (w # ws)") auto
  have words: "list_all is_word (w # ws)"
    using str_fields_words [where s = "txt"] by (simp add: assms list_all_iff)
  show ?thesis
  proof (cases "int (length w) + 1 > width")
    case True
    with st have "foldl (wrap_step width) ([[]], w) ws = (ls, l)" by simp
    from foldl_wrap_hd [OF this] True show ?thesis by (auto simp: wrap_def assms st simp del: foldl_Cons)
  next
    case False
    with st have "foldl (wrap_step width) ([], w) ws = (ls, l)" by simp
    from foldl_wrap_nonempty [OF this] words have "l \<noteq> []" "[] \<notin> set ls"
      by (auto simp: is_word_def)
    with False show ?thesis by (cases ls) (auto simp: wrap_def assms st simp del: foldl_Cons)
  qed
qed

section \<open>Terminal width, colours and the box\<close>

text \<open>\<open>termWidth\<close>: the \<open>Col\<close> field after the \<open>ioctl\<close> (0 when it failed), with 80 as default.\<close>

definition termWidth :: "16 word \<Rightarrow> int" where
  "termWidth col = (if col = 0 then 80 else uint col)"

definition esc :: "string \<Rightarrow> string" where
  "esc code = CHR 0x1B # ''['' @ code @ ''m''"

definition color_reset :: string where "color_reset = esc ''0''"
definition color_bold :: string where "color_bold = esc ''1''"
definition color_blue :: string where "color_blue = esc ''34''"
definition color_yellow :: string where "color_yellow = esc ''33''"
definition color_red :: string where "color_red = esc ''31''"
definition color_green :: string where "color_green = esc ''32''"
definition color_cyan :: string where "color_cyan = esc ''36''"

text \<open>\<open>type Level int\<close> with its four constants; other values get blue.\<close>

definition level_info :: int where "level_info = 0"
definition level_warning :: int where "level_warning = 1"
definition level_error :: int where "level_error = 2"
definition level_success :: int where "level_success = 3"

definition colorFor :: "int \<Rightarrow> string" where
  "colorFor l =
     (if l = level_info then color_cyan
      else if l = level_warning then color_yellow
      else if l = level_error then color_red
      else if l = level_success then color_green
      else color_blue)"

text \<open>The three box characters, in UTF-8.\<close>

definition box_top :: string where "box_top = map char_of [0xE2, 0x95, 0xB7 :: nat]"
definition box_bar :: string where "box_bar = map char_of [0xE2, 0x94, 0x82 :: nat]"
definition box_bottom :: string where "box_bottom = map char_of [0xE2, 0x95, 0xB5 :: nat]"

text \<open>\<open>Show\<close>: the printed lines, in order, without their newlines.\<close>

definition show_paragraph :: "string \<Rightarrow> int \<Rightarrow> string \<Rightarrow> string list" where
  "show_paragraph color textWidth paragraph =
     map (\<lambda>l. color @ box_bar @ '' '' @ l) (wrap paragraph textWidth) @ [color @ box_bar @ color_reset]"

definition Show :: "16 word \<Rightarrow> int \<Rightarrow> string \<Rightarrow> string \<Rightarrow> string list" where
  "Show col level title message =
     (let width = termWidth col; textWidth = width - 6; color = colorFor level
      in [color @ box_top @ color_reset,
          color @ box_bar @ '' '' @ color_bold @ title @ color_reset,
          color @ box_bar @ color_reset]
         @ concat (map (show_paragraph color textWidth) (str_split CHR 0x0A message))
         @ [color @ box_bottom @ color_reset])"

definition InfoBox :: "16 word \<Rightarrow> string \<Rightarrow> string \<Rightarrow> string list" where
  "InfoBox col title msg = Show col level_info title msg"

definition Warn :: "16 word \<Rightarrow> string \<Rightarrow> string \<Rightarrow> string list" where
  "Warn col title msg = Show col level_warning title msg"

definition Fail :: "16 word \<Rightarrow> string \<Rightarrow> string \<Rightarrow> string list" where
  "Fail col title msg = Show col level_error title msg"

definition SuccessBox :: "16 word \<Rightarrow> string \<Rightarrow> string \<Rightarrow> string list" where
  "SuccessBox col title msg = Show col level_success title msg"

lemma termWidth_pos: "0 < termWidth col"
  by (simp add: termWidth_def word_neq_0_conv word_less_def)

section \<open>Properties\<close>

text \<open>Wrapping keeps the text: the words of the produced lines, read line by line, are exactly the
  words of the paragraph, and every line fits the width, or is one word of the paragraph that is
  too long for it, or is empty.\<close>

theorem wrap_words_width:
  "concat (map str_fields (wrap txt width)) = str_fields txt
   \<and> list_all (line_ok width (set (str_fields txt))) (wrap txt width)"
proof
  show "concat (map str_fields (wrap txt width)) = str_fields txt"
    by (rule wrap_fields)
  obtain ls l where st: "foldl (wrap_step width) ([], []) (str_fields txt) = (ls, l)"
    by (cases "foldl (wrap_step width) ([], []) (str_fields txt)") auto
  have "list_all (line_ok width (set (str_fields txt))) (l # ls)"
    by (rule foldl_wrap_ok [OF st]) (simp_all add: line_ok_def)
  then show "list_all (line_ok width (set (str_fields txt))) (wrap txt width)"
    by (simp add: wrap_def st)
qed

text \<open>When wrapping starts with a blank line: exactly when the first word is at least as long as
  the width, so a first word that fits the width exactly is still preceded by an empty line.\<close>

theorem wrap_leading_blank:
  assumes "str_fields txt = w # ws"
  shows "(wrap txt width \<noteq> [] \<and> hd (wrap txt width) = []) \<longleftrightarrow> width \<le> int (length w)"
  using wrap_blank [OF assms, of width] by linarith

theorem wrap_leading_blank_witness:
  "hd (wrap ''production!'' 11) = [] \<and> length (wrap ''production!'' 11) = 2"
proof -
  have f: "str_fields ''production!'' = [''production!'']"
    by (rule str_fields_word) (simp add: is_word_def is_space_def)
  have "hd (wrap ''production!'' 11) = []"
    using wrap_leading_blank [OF f, of 11] by simp
  moreover have "length (wrap ''production!'' 11) = 2"
    by (simp add: wrap_def f del: fields_from.simps)
  ultimately show ?thesis by simp
qed

end
