(* ===== verification/Float64.thy ===== *)
theory Float64
  imports Complex_Main "HOL-Library.Log_Nat" "HOL-Library.Signed_Division" Prelude
begin

text \<open>
  Go's \<open>float64\<close> arithmetic, as used by the rate limiters: every operation is the exact rational
  operation followed by \<open>f64\<close>, rounding to the nearest 53-bit binary fraction, ties to even, with
  the subnormal range (exponents below -1074 do not exist). Overflow to infinity and NaN are not
  modelled: the values of the limiters stay far below \<open>2^1023\<close>.

  The limiters are written over a rounding function \<open>rnd\<close>: \<open>f64\<close> is the code's arithmetic, \<open>exact\<close>
  the ideal one in which no operation rounds. The locale \<open>rounding\<close> states what the proofs need of
  either; both are interpretations of it.
\<close>

section \<open>Rounding to an integer\<close>

definition round_even :: "rat \<Rightarrow> int" where
  "round_even x =
     (let f = \<lfloor>x\<rfloor>; d = x - of_int f
      in if d < 1/2 then f else if d > 1/2 then f + 1 else if even f then f else f + 1)"

lemma round_even_of_int [simp]: "round_even (of_int n) = n"
  by (simp add: round_even_def)

lemma round_even_bounds: "of_int (round_even x) \<le> x + 1/2" "x - 1/2 \<le> of_int (round_even x)"
  by (auto simp: round_even_def Let_def) linarith+

lemma round_even_mono:
  assumes "x \<le> y"
  shows "round_even x \<le> round_even y"
proof (cases "\<lfloor>x\<rfloor> = \<lfloor>y\<rfloor>")
  case True
  with assms show ?thesis by (auto simp: round_even_def Let_def)
next
  case False
  with assms have "\<lfloor>x\<rfloor> + 1 \<le> \<lfloor>y\<rfloor>"
    by (meson floor_mono order_le_imp_less_or_eq zless_imp_add1_zle)
  moreover have "round_even x \<le> \<lfloor>x\<rfloor> + 1" "\<lfloor>y\<rfloor> \<le> round_even y"
    by (simp_all add: round_even_def Let_def)
  ultimately show ?thesis by linarith
qed

lemma round_even_minus: "round_even (- x) = - round_even x"
proof (cases "x = of_int \<lfloor>x\<rfloor>")
  case True
  then obtain n where "x = of_int n" by blast
  then show ?thesis using round_even_of_int [of "- n"] by simp
next
  case False
  then have "of_int \<lfloor>x\<rfloor> < x" by linarith
  then have fl: "\<lfloor>- x\<rfloor> = - \<lfloor>x\<rfloor> - 1" by linarith
  show ?thesis
    by (simp add: round_even_def Let_def fl)
qed

section \<open>The binary exponent\<close>

definition ilog2 :: "rat \<Rightarrow> int" where
  "ilog2 x =
     (let (p, q) = quotient_of x; e = bitlen p - bitlen q
      in if 2 powi e \<le> x then e else e - 1)"

lemma bitlen_powi:
  assumes "0 < p"
  shows "(2::rat) powi (bitlen p - 1) \<le> of_int p" "(of_int p :: rat) < 2 powi bitlen p"
proof -
  have b1: "1 \<le> bitlen p"
    using assms bitlen_eq_zero_iff [of p] bitlen_nonneg [of p] by linarith
  from bitlen_bounds [OF assms] have "2 ^ nat (bitlen p - 1) \<le> p" "p < 2 ^ nat (bitlen p)" by auto
  then have "(of_int (2 ^ nat (bitlen p - 1)) :: rat) \<le> of_int p"
    and "(of_int p :: rat) < of_int (2 ^ nat (bitlen p))"
    by (simp_all only: of_int_le_iff of_int_less_iff)
  then show "(2::rat) powi (bitlen p - 1) \<le> of_int p" "(of_int p :: rat) < 2 powi bitlen p"
    using b1 by (simp_all add: power_int_nonneg_exp)
qed

lemma ilog2_bounds:
  assumes "0 < x"
  shows "2 powi ilog2 x \<le> x" "x < 2 powi (ilog2 x + 1)"
proof -
  obtain p q where pq: "quotient_of x = (p, q)" by (cases "quotient_of x") auto
  then have q: "0 < q" and x: "x = of_int p / of_int q"
    by (auto simp: quotient_of_denom_pos quotient_of_div)
  with assms have p: "0 < p" by (simp add: zero_less_divide_iff)
  define e where "e = bitlen p - bitlen q"
  have two: "(2::rat) powi (a + b) = 2 powi a * 2 powi b" for a b
    by (simp add: power_int_add)
  have "x < 2 powi bitlen p / 2 powi (bitlen q - 1)"
    unfolding x using bitlen_powi [OF p] bitlen_powi [OF q] p q
    by (intro frac_less) auto
  also have "\<dots> = 2 powi (e + 1)" by (simp add: e_def power_int_diff power_int_add)
  finally have up: "x < 2 powi (e + 1)" .
  have "2 powi (bitlen p - 1) / 2 powi bitlen q \<le> x"
    unfolding x using bitlen_powi [OF p] bitlen_powi [OF q] p q
    by (intro frac_le) auto
  moreover have "2 powi (bitlen p - 1) / 2 powi bitlen q = (2::rat) powi (e - 1)"
    by (simp add: e_def power_int_diff power_int_add)
  ultimately have lo: "2 powi (e - 1) \<le> x" by simp
  show "2 powi ilog2 x \<le> x" "x < 2 powi (ilog2 x + 1)"
    using up lo by (auto simp: ilog2_def pq Let_def simp flip: e_def)
qed

lemma powi2_mono: "(2::rat) powi a \<le> 2 powi b \<longleftrightarrow> a \<le> b"
  by (metis linorder_le_cases one_less_numeral_iff power_int_increasing power_int_strict_increasing
      nle_le order_less_imp_le order_less_le semiring_norm(76) one_le_numeral)

lemma ilog2_mono: "0 < x \<Longrightarrow> x \<le> y \<Longrightarrow> ilog2 x \<le> ilog2 y"
proof -
  assume "0 < x" "x \<le> y"
  then have "2 powi ilog2 x < (2::rat) powi (ilog2 y + 1)"
    using ilog2_bounds [of x] ilog2_bounds [of y] by linarith
  then have "\<not> ilog2 y + 1 \<le> ilog2 x" using powi2_mono by (meson linorder_not_le)
  then show ?thesis by linarith
qed

section \<open>Rounding to float64\<close>

definition f64_exp :: "rat \<Rightarrow> int" where
  "f64_exp x = max (ilog2 \<bar>x\<bar> - 52) (- 1074)"

definition f64 :: "rat \<Rightarrow> rat" where
  "f64 x = (if x = 0 then 0
            else of_int (round_even (x / 2 powi f64_exp x)) * 2 powi f64_exp x)"

definition exact :: "rat \<Rightarrow> rat" where
  "exact x = x"

lemma f64_zero [simp]: "f64 0 = 0"
  by (simp add: f64_def)

lemma f64_minus: "f64 (- x) = - f64 x"
  by (simp add: f64_def f64_exp_def round_even_minus)

lemma f64_eq: "f64 x = of_int (round_even (x / 2 powi f64_exp x)) * 2 powi f64_exp x"
proof (cases "x = 0")
  case True
  have "round_even 0 = 0" using round_even_of_int [of 0] by simp
  with True show ?thesis by simp
qed (simp add: f64_def)

lemma f64_nonneg:
  assumes "0 \<le> x"
  shows "0 \<le> f64 x"
proof -
  have "round_even 0 \<le> round_even (x / 2 powi f64_exp x)"
    using assms by (intro round_even_mono) simp
  then have "0 \<le> round_even (x / 2 powi f64_exp x)"
    using round_even_of_int [of 0] by simp
  then show ?thesis by (simp add: f64_eq)
qed

lemma f64_mono_pos:
  assumes "0 < x" "x \<le> y"
  shows "f64 x \<le> f64 y"
proof -
  define m n where "m = f64_exp x" and "n = f64_exp y"
  have le: "m \<le> n"
    using ilog2_mono [OF assms] assms by (simp add: m_def n_def f64_exp_def)
  have pm: "(0::rat) < 2 powi m" and pn: "(0::rat) < 2 powi n" by simp_all
  show ?thesis
  proof (cases "m = n")
    case True
    have "x / 2 powi m \<le> y / 2 powi m" using assms pm by (simp add: divide_right_mono)
    then have "round_even (x / 2 powi m) \<le> round_even (y / 2 powi m)" by (rule round_even_mono)
    with True show ?thesis by (simp add: f64_eq flip: m_def n_def)
  next
    case False
    with le have mn: "m + 1 \<le> n" by linarith
    have n: "n = ilog2 y - 52"
      using False assms mn by (auto simp: n_def m_def f64_exp_def)
    have "ilog2 x + 1 \<le> 53 + m" using assms by (simp add: m_def f64_exp_def)
    then have "x < 2 powi (53 + m)"
      using ilog2_bounds(2) [OF assms(1)] powi2_mono [of "ilog2 x + 1" "53 + m"] by linarith
    then have "x / 2 powi m \<le> of_int (2 ^ 53)"
      using pm by (simp add: divide_le_eq power_int_add)
    then have "round_even (x / 2 powi m) \<le> round_even (of_int (2 ^ 53))" by (rule round_even_mono)
    then have "round_even (x / 2 powi m) \<le> 2 ^ 53" by (simp only: round_even_of_int)
    then have "(of_int (round_even (x / 2 powi m)) :: rat) \<le> of_int (2 ^ 53)"
      by (simp only: of_int_le_iff)
    then have "f64 x \<le> 2 ^ 53 * 2 powi m"
      using pm by (simp add: f64_eq mult_right_mono flip: m_def)
    also have "(2::rat) ^ 53 * 2 powi m = 2 ^ 52 * 2 powi (m + 1)"
      by (simp add: power_int_add)
    also have "\<dots> \<le> 2 ^ 52 * 2 powi n"
      using powi2_mono [of "m + 1" n] mn by simp
    also have "\<dots> \<le> f64 y"
    proof -
      have "2 powi (52 + n) \<le> y" using ilog2_bounds(1) [of y] assms by (simp add: n)
      then have "of_int (2 ^ 52) \<le> y / 2 powi n"
        using pn by (simp add: le_divide_eq power_int_add)
      then have "round_even (of_int (2 ^ 52)) \<le> round_even (y / 2 powi n)" by (rule round_even_mono)
      then have "2 ^ 52 \<le> round_even (y / 2 powi n)" by (simp only: round_even_of_int)
      then have "(of_int (2 ^ 52) :: rat) \<le> of_int (round_even (y / 2 powi n))"
        by (simp only: of_int_le_iff)
      then show ?thesis using pn by (simp add: f64_eq mult_right_mono flip: n_def)
    qed
    finally show ?thesis .
  qed
qed

lemma f64_mono:
  assumes "x \<le> y"
  shows "f64 x \<le> f64 y"
proof -
  consider "0 < x" | "x \<le> 0" "0 \<le> y" | "y < 0" by linarith
  then show ?thesis
  proof cases
    case 1
    then show ?thesis using assms by (rule f64_mono_pos)
  next
    case 2
    then have "0 \<le> f64 (- x)" "0 \<le> f64 y" by (simp_all add: f64_nonneg)
    then show ?thesis by (simp add: f64_minus)
  next
    case 3
    then have "f64 (- y) \<le> f64 (- x)" using assms by (intro f64_mono_pos) simp_all
    then show ?thesis by (simp add: f64_minus)
  qed
qed

text \<open>Integers below \<open>2^53\<close> in absolute value are represented exactly.\<close>

lemma f64_of_int:
  assumes "\<bar>n\<bar> < 2 ^ 53"
  shows "f64 (of_int n) = of_int n"
proof (cases "n = 0")
  case False
  define m where "m = f64_exp (of_int n)"
  have pos: "0 < \<bar>of_int n :: rat\<bar>" using False by simp
  have "\<bar>of_int n :: rat\<bar> < of_int (2 ^ 53)"
    using assms by (simp only: of_int_less_iff flip: of_int_abs)
  then have "2 powi ilog2 \<bar>of_int n :: rat\<bar> < (2::rat) powi 53"
    using ilog2_bounds(1) [OF pos] by (simp only: of_int_power of_int_numeral power_int_numeral)
  then have "ilog2 \<bar>of_int n :: rat\<bar> < 53" using powi2_mono by (meson linorder_not_le)
  then have "m \<le> 0" by (simp add: m_def f64_exp_def)
  then obtain j where m: "m = - int j" by (metis nonpos_int_cases)
  have k: "(of_int n :: rat) / 2 powi m = of_int (n * 2 ^ j)"
    by (simp add: m power_int_minus divide_inverse)
  have "f64 (of_int n) = of_int (n * 2 ^ j) * 2 powi m"
    by (simp only: f64_eq k round_even_of_int flip: m_def)
  also have "\<dots> = of_int n" by (simp add: m power_int_minus)
  finally show ?thesis .
qed simp

text \<open>The error of rounding a number below \<open>2^62\<close> is at most 256: half the distance of its neighbours.\<close>

lemma f64_error:
  assumes "\<bar>x\<bar> < 2 ^ 62"
  shows "\<bar>f64 x - x\<bar> \<le> 256"
proof (cases "x = 0")
  case False
  define m where "m = f64_exp x"
  have pm: "(0::rat) < 2 powi m" by simp
  have "2 powi ilog2 \<bar>x\<bar> < (2::rat) powi 62"
    using ilog2_bounds(1) [of "\<bar>x\<bar>"] False assms by simp
  then have "ilog2 \<bar>x\<bar> < 62" using powi2_mono by (meson linorder_not_le)
  then have "m \<le> 9" by (simp add: m_def f64_exp_def)
  then have "(2::rat) powi m \<le> 2 powi 9" by (simp only: powi2_mono)
  then have m: "(2::rat) powi m \<le> 512" by simp
  have "\<bar>of_int (round_even (x / 2 powi m)) - x / 2 powi m\<bar> \<le> 1 / 2"
    unfolding abs_le_iff using round_even_bounds [of "x / 2 powi m"] by linarith
  then have "\<bar>of_int (round_even (x / 2 powi m)) - x / 2 powi m\<bar> * 2 powi m \<le> 1 / 2 * 512"
    using m pm by (intro mult_mono) simp_all
  moreover have "f64 x - x = (of_int (round_even (x / 2 powi m)) - x / 2 powi m) * 2 powi m"
    using pm by (simp add: f64_eq left_diff_distrib flip: m_def)
  ultimately show ?thesis using pm by (simp add: abs_mult)
qed simp

section \<open>What the proofs use\<close>

locale rounding =
  fixes rnd :: "rat \<Rightarrow> rat"
  assumes rnd_mono: "x \<le> y \<Longrightarrow> rnd x \<le> rnd y"
    and rnd_int: "\<bar>n\<bar> < 2 ^ 53 \<Longrightarrow> rnd (of_int n) = of_int n"
begin

lemma rnd_0: "rnd 0 = 0"
  using rnd_int [of 0] by simp

lemma rnd_nonneg: "0 \<le> x \<Longrightarrow> 0 \<le> rnd x"
  using rnd_mono [of 0 x] by (simp add: rnd_0)

lemma rnd_neg_arg: "rnd x < 0 \<Longrightarrow> x < 0"
  using rnd_nonneg [of x] by linarith

lemma rnd_le_int: "\<bar>n\<bar> < 2 ^ 53 \<Longrightarrow> x \<le> of_int n \<Longrightarrow> rnd x \<le> of_int n"
  using rnd_mono [of x "of_int n"] by (simp add: rnd_int)

lemma rnd_ge_int: "\<bar>n\<bar> < 2 ^ 53 \<Longrightarrow> of_int n \<le> x \<Longrightarrow> of_int n \<le> rnd x"
  using rnd_mono [of "of_int n" x] by (simp add: rnd_int)

end

text \<open>Rounding that moves a number below \<open>bound\<close> by at most \<open>eps\<close>.\<close>

locale rounding_upto = rounding +
  fixes eps bound :: rat
  assumes eps_nonneg: "0 \<le> eps"
    and rnd_error: "\<bar>x\<bar> < bound \<Longrightarrow> \<bar>rnd x - x\<bar> \<le> eps"
begin

lemma rnd_near: "\<bar>x\<bar> < bound \<Longrightarrow> rnd x \<le> x + eps \<and> x - eps \<le> rnd x"
  using rnd_error [of x] by (simp add: abs_le_iff)

end

interpretation float64: rounding f64
  by unfold_locales (auto intro: f64_mono f64_of_int)

interpretation ideal: rounding exact
  by unfold_locales (auto simp: exact_def)

interpretation float64: rounding_upto f64 256 "2 ^ 62"
  by unfold_locales (simp_all add: f64_error)

interpretation ideal: rounding_upto exact 0 bound for bound
  by unfold_locales (simp_all add: exact_def)

section \<open>Durations\<close>

text \<open>A \<open>time.Duration\<close> is an integer number of nanoseconds.\<close>

definition nanos_per_second :: int where
  "nanos_per_second = 1000000000"

text \<open>
  Conversion of a float to an integer: truncation towards zero. When an \<open>int64\<close> cannot represent it, the
  value of \<open>int64(x)\<close> depends on the implementation of Go: the parameter \<open>conv\<close>.
\<close>

definition trunc_int :: "rat \<Rightarrow> int" where
  "trunc_int x = (if 0 \<le> x then \<lfloor>x\<rfloor> else \<lceil>x\<rceil>)"

definition to_int64 :: "(rat \<Rightarrow> int) \<Rightarrow> rat \<Rightarrow> int" where
  "to_int64 conv x =
     (if - (2 ^ 63) \<le> trunc_int x \<and> trunc_int x < 2 ^ 63 then trunc_int x else conv x)"

text \<open>On amd64 that is the least \<open>int64\<close>.\<close>

definition conv_amd64 :: "rat \<Rightarrow> int" where
  "conv_amd64 x = - (2 ^ 63)"

text \<open>\<open>Time.Sub\<close>: the difference of two times in nanoseconds, at most and at least what a \<open>Duration\<close> can be.\<close>

definition time_Sub :: "int \<Rightarrow> int \<Rightarrow> int" where
  "time_Sub t u = max (- (2 ^ 63)) (min (2 ^ 63 - 1) (t - u))"

text \<open>\<open>Duration.Seconds\<close>: the whole seconds plus the remaining nanoseconds over 1e9.\<close>

definition dur_seconds :: "(rat \<Rightarrow> rat) \<Rightarrow> int \<Rightarrow> rat" where
  "dur_seconds rnd d =
     rnd (rnd (of_int (d sdiv nanos_per_second))
          + rnd (rnd (of_int (d smod nanos_per_second)) / of_int nanos_per_second))"

text \<open>The conversion \<open>time.Duration(x * float64(time.Second))\<close> for a number of seconds \<open>x\<close>.\<close>

definition dur_of_seconds :: "(rat \<Rightarrow> int) \<Rightarrow> (rat \<Rightarrow> rat) \<Rightarrow> rat \<Rightarrow> int" where
  "dur_of_seconds conv rnd x = to_int64 conv (rnd (x * of_int nanos_per_second))"

lemma trunc_int_of_int [simp]: "trunc_int (of_int n) = n"
  by (simp add: trunc_int_def)

lemma trunc_int_nonneg: "0 \<le> x \<Longrightarrow> 0 \<le> trunc_int x"
  by (simp add: trunc_int_def)

lemma to_int64_of_int: "- (2 ^ 63) \<le> n \<Longrightarrow> n < 2 ^ 63 \<Longrightarrow> to_int64 conv (of_int n) = n"
  by (simp add: to_int64_def)

lemma to_int64_trunc: "0 \<le> x \<Longrightarrow> x < 2 ^ 63 \<Longrightarrow> to_int64 conv x = trunc_int x"
  by (auto simp: to_int64_def trunc_int_def floor_less_iff intro: order_trans [OF _ zero_le_floor [THEN iffD2]])

lemma time_Sub_le: "\<bar>t - u\<bar> < 2 ^ 63 \<Longrightarrow> time_Sub t u = t - u"
  by (auto simp: time_Sub_def)

lemma time_Sub_exceeds: "u \<le> t \<Longrightarrow> d < 2 ^ 63 - 1 \<Longrightarrow> d < time_Sub t u \<longleftrightarrow> d < t - u"
  by (auto simp: time_Sub_def)

lemma time_Sub_self [simp]: "time_Sub t t = 0"
  by (simp add: time_Sub_def)

lemma dur_seconds_exact: "dur_seconds exact d = of_int d / of_int nanos_per_second"
proof -
  have "d sdiv nanos_per_second * nanos_per_second + d smod nanos_per_second = d"
    by (rule sdiv_mult_smod_eq)
  then have "(of_int d :: rat) = of_int (d sdiv nanos_per_second) * of_int nanos_per_second
      + of_int (d smod nanos_per_second)"
    by (simp flip: of_int_mult of_int_add)
  then show ?thesis
    by (simp add: dur_seconds_def exact_def nanos_per_second_def field_simps)
qed

end
