(* ===== verification/Limiter.thy ===== *)
theory Limiter
  imports Float64
begin

text \<open>
  The limiter interface of \<open>internal/ratelimit/limiter.go\<close>: decisions, reasons, results and
  \<open>Allowed\<close>. An implementation is a function of the time of the call (nanoseconds), the key and
  its state. Two contracts are stated as locales: \<open>limiter\<close>, what the accept loop relies on, and
  \<open>metered\<close>, the potential argument by which a limiter bounds the number of calls it allows in a
  window of time. \<open>Mono_Limiter\<close> and \<open>Redis_Limiter\<close> interpret both.
\<close>

datatype decision = DecisionAllow | DecisionDeny

definition ReasonExceeded :: string where "ReasonExceeded = ''rate_exceeded''"
definition ReasonBanned :: string where "ReasonBanned = ''banned''"
definition ReasonError :: string where "ReasonError = ''error''"

record rl_result =
  Decision :: decision
  RetryAfter :: int
  Reason :: string

type_synonym 's allow_fun = "int \<Rightarrow> string \<Rightarrow> 's \<Rightarrow> rl_result \<times> 's"

definition Allowed :: "'s allow_fun \<Rightarrow> int \<Rightarrow> string \<Rightarrow> 's \<Rightarrow> bool" where
  "Allowed allow now key s \<longleftrightarrow> Decision (fst (allow now key s)) = DecisionAllow"

text \<open>The results a limiter gives.\<close>

definition allow_result :: rl_result where
  "allow_result = \<lparr>Decision = DecisionAllow, RetryAfter = 0, Reason = []\<rparr>"

definition deny_result :: "int \<Rightarrow> rl_result" where
  "deny_result retry = \<lparr>Decision = DecisionDeny, RetryAfter = retry, Reason = ReasonExceeded\<rparr>"

lemma result_sel [simp]:
  "Decision allow_result = DecisionAllow"
  "RetryAfter allow_result = 0"
  "Decision (deny_result r) = DecisionDeny"
  "RetryAfter (deny_result r) = r"
  "Reason (deny_result r) = ReasonExceeded"
  by (simp_all add: allow_result_def deny_result_def)

text \<open>What a caller may assume of a result.\<close>

definition result_ok :: "rl_result \<Rightarrow> bool" where
  "result_ok r \<longleftrightarrow> r = allow_result \<or> (\<exists>d \<ge> 0. r = deny_result d)"

section \<open>Sequences of calls\<close>

fun run_calls :: "'s allow_fun \<Rightarrow> 's \<Rightarrow> (int \<times> string) list \<Rightarrow> rl_result list \<times> 's" where
  "run_calls allow s [] = ([], s)"
| "run_calls allow s ((t, k) # cs) =
     (let (r, s') = allow t k s; (rs, s'') = run_calls allow s' cs in (r # rs, s''))"

text \<open>How many of the calls for the key \<open>k\<close> are allowed.\<close>

fun count_allowed :: "'s allow_fun \<Rightarrow> 's \<Rightarrow> string \<Rightarrow> (int \<times> string) list \<Rightarrow> nat" where
  "count_allowed allow s k [] = 0"
| "count_allowed allow s k ((t, k') # cs) =
     (let (r, s') = allow t k' s
      in (if k' = k \<and> Decision r = DecisionAllow then 1 else 0) + count_allowed allow s' k cs)"

lemma count_allowed_Cons:
  "allow t k' s = (r, s') \<Longrightarrow>
     count_allowed allow s k ((t, k') # cs)
       = of_bool (k' = k \<and> Decision r = DecisionAllow) + count_allowed allow s' k cs"
  by simp

declare count_allowed.simps(2) [simp del]

text \<open>The times of the calls do not decrease and lie between \<open>t0\<close> and \<open>t1\<close>.\<close>

fun calls_within :: "int \<Rightarrow> int \<Rightarrow> (int \<times> string) list \<Rightarrow> bool" where
  "calls_within t0 t1 [] = (t0 \<le> t1)"
| "calls_within t0 t1 ((t, k) # cs) = (t0 \<le> t \<and> calls_within t t1 cs)"

lemma calls_within_le: "calls_within t0 t1 cs \<Longrightarrow> t0 \<le> t1"
proof (induction cs arbitrary: t0)
  case (Cons c cs)
  then show ?case by (cases c) force
qed simp

section \<open>The contract of a limiter\<close>

locale limiter =
  fixes allow :: "'s allow_fun"
    and linv :: "'s \<Rightarrow> bool"
  assumes inv_allow: "linv s \<Longrightarrow> allow t k s = (r, s') \<Longrightarrow> linv s'"
    and allow_ok: "linv s \<Longrightarrow> allow t k s = (r, s') \<Longrightarrow> result_ok r"
begin

lemma run_ok:
  "linv s \<Longrightarrow> run_calls allow s cs = (rs, s') \<Longrightarrow>
     linv s' \<and> length rs = length cs \<and> list_all result_ok rs"
proof (induction cs arbitrary: s rs)
  case Nil
  then show ?case by simp
next
  case (Cons c cs)
  obtain t k where c: "c = (t, k)" by (cases c)
  obtain r s1 where a: "allow t k s = (r, s1)" by (cases "allow t k s")
  obtain rs1 s2 where b: "run_calls allow s1 cs = (rs1, s2)" by (cases "run_calls allow s1 cs")
  from Cons.prems(2) have eq: "rs = r # rs1" "s' = s2" by (simp_all add: c a b)
  from Cons.IH [OF inv_allow [OF Cons.prems(1) a]] b allow_ok [OF Cons.prems(1) a]
  show ?case by (simp add: eq)
qed

end

section \<open>The contract of a limiter that bounds the rate\<close>

text \<open>
  \<open>pot s k t\<close> is what the limiter could still allow for \<open>k\<close> at time \<open>t\<close>: it never becomes
  negative, an allowed call takes one unit of it, a denied call or a call for another key takes
  nothing, it grows by at most \<open>slope\<close> per nanosecond, and right after a call it is at most \<open>cap\<close>.
  \<open>in_time\<close> are the times up to which this is known.
\<close>

locale metered =
  fixes allow :: "'s allow_fun"
    and tinv :: "'s \<Rightarrow> int \<Rightarrow> bool"
    and pot :: "'s \<Rightarrow> string \<Rightarrow> int \<Rightarrow> rat"
    and slope :: rat
    and cap :: rat
    and in_time :: "int \<Rightarrow> bool"
  assumes in_time_earlier: "in_time t' \<Longrightarrow> t \<le> t' \<Longrightarrow> in_time t"
    and tinv_allow: "tinv s t \<Longrightarrow> allow t k s = (r, s') \<Longrightarrow> tinv s' t"
    and tinv_later: "tinv s t \<Longrightarrow> t \<le> t' \<Longrightarrow> in_time t' \<Longrightarrow> tinv s t'"
    and pot_nonneg: "tinv s t \<Longrightarrow> 0 \<le> pot s k t"
    and pot_allow: "tinv s t \<Longrightarrow> allow t k s = (r, s') \<Longrightarrow> Decision r = DecisionAllow \<Longrightarrow>
                      pot s' k t + 1 \<le> pot s k t"
    and pot_deny: "tinv s t \<Longrightarrow> allow t k s = (r, s') \<Longrightarrow> Decision r = DecisionDeny \<Longrightarrow>
                      pot s' k t \<le> pot s k t"
    and pot_other: "tinv s t \<Longrightarrow> allow t k' s = (r, s') \<Longrightarrow> k' \<noteq> k \<Longrightarrow> pot s' k t = pot s k t"
    and pot_later: "tinv s t \<Longrightarrow> t \<le> t' \<Longrightarrow> pot s k t' \<le> pot s k t + slope * of_int (t' - t)"
    and pot_cap: "tinv s t \<Longrightarrow> allow t k s = (r, s') \<Longrightarrow>
                      pot s' k t + (if Decision r = DecisionAllow then 1 else 0) \<le> cap"
    and slope_nonneg: "0 \<le> slope"
    and cap_nonneg: "0 \<le> cap"
begin

lemma pot_call:
  assumes "tinv s t" "allow t k' s = (r, s')"
  shows "pot s' k t + of_bool (k' = k \<and> Decision r = DecisionAllow) \<le> pot s k t"
proof (cases "k' = k")
  case True
  then show ?thesis
    using assms pot_allow [of s t k r s'] pot_deny [of s t k r s']
    by (cases "Decision r") auto
next
  case False
  then show ?thesis using assms pot_other by simp
qed

text \<open>The number of allowed calls is bounded by the potential at the start plus what time adds.\<close>

lemma count_le_pot:
  "tinv s t0 \<Longrightarrow> calls_within t0 t1 cs \<Longrightarrow> in_time t1 \<Longrightarrow>
     of_nat (count_allowed allow s k cs) \<le> pot s k t0 + slope * of_int (t1 - t0)"
proof (induction cs arbitrary: s t0)
  case Nil
  then show ?case using pot_nonneg slope_nonneg by simp
next
  case (Cons c cs)
  obtain t k' where c: "c = (t, k')" by (cases c)
  obtain r s' where a: "allow t k' s = (r, s')" by (cases "allow t k' s")
  from Cons.prems have le: "t0 \<le> t" and rest: "calls_within t t1 cs" by (simp_all add: c)
  from tinv_later [OF Cons.prems(1) le in_time_earlier [OF Cons.prems(3) calls_within_le [OF rest]]]
  have i: "tinv s t" .
  have "of_nat (count_allowed allow s' k cs) \<le> pot s' k t + slope * of_int (t1 - t)"
    by (rule Cons.IH [OF tinv_allow [OF i a] rest Cons.prems(3)])
  moreover have "pot s' k t + of_bool (k' = k \<and> Decision r = DecisionAllow) \<le> pot s k t"
    by (rule pot_call [OF i a])
  moreover have "pot s k t \<le> pot s k t0 + slope * of_int (t - t0)"
    by (rule pot_later [OF Cons.prems(1) le])
  ultimately show ?case by (simp add: c count_allowed_Cons [where allow = allow, OF a] algebra_simps)
qed

lemma run_tinv:
  "tinv s t0 \<Longrightarrow> calls_within t0 t1 cs \<Longrightarrow> in_time t1 \<Longrightarrow>
     tinv (snd (run_calls allow s cs)) t1"
proof (induction cs arbitrary: s t0)
  case Nil
  then show ?case using tinv_later by simp
next
  case (Cons c cs)
  obtain t k where c: "c = (t, k)" by (cases c)
  obtain r s' where a: "allow t k s = (r, s')" by (cases "allow t k s")
  obtain rs s'' where b: "run_calls allow s' cs = (rs, s'')" by (cases "run_calls allow s' cs")
  from Cons.prems have le: "t0 \<le> t" and rest: "calls_within t t1 cs" by (simp_all add: c)
  have "in_time t" using Cons.prems(3) calls_within_le [OF rest] by (rule in_time_earlier)
  from Cons.IH [OF tinv_allow [OF tinv_later [OF Cons.prems(1) le this] a] rest Cons.prems(3)] show ?case
    by (simp add: c a b)
qed

text \<open>In any window, whatever happened before it: at most \<open>cap\<close> plus the rate times its length.\<close>

lemma count_le_cap:
  "tinv s t0 \<Longrightarrow> calls_within t0 t1 cs \<Longrightarrow> in_time t1 \<Longrightarrow>
     of_nat (count_allowed allow s k cs) \<le> cap + slope * of_int (t1 - t0)"
proof (induction cs arbitrary: s t0)
  case Nil
  then show ?case using cap_nonneg slope_nonneg by simp
next
  case (Cons c cs)
  obtain t k' where c: "c = (t, k')" by (cases c)
  obtain r s' where a: "allow t k' s = (r, s')" by (cases "allow t k' s")
  from Cons.prems have le: "t0 \<le> t" and rest: "calls_within t t1 cs" by (simp_all add: c)
  from tinv_later [OF Cons.prems(1) le in_time_earlier [OF Cons.prems(3) calls_within_le [OF rest]]]
  have i: "tinv s t" .
  have mono: "slope * of_int (t1 - t) \<le> slope * of_int (t1 - t0)"
    using le slope_nonneg by (intro mult_left_mono) simp_all
  show ?case
  proof (cases "k' = k")
    case True
    have "of_nat (count_allowed allow s' k cs) \<le> pot s' k t + slope * of_int (t1 - t)"
      by (rule count_le_pot [OF tinv_allow [OF i a] rest Cons.prems(3)])
    moreover have "pot s' k t + (if Decision r = DecisionAllow then 1 else 0) \<le> cap"
      using pot_cap [OF i] a True by simp
    moreover have "count_allowed allow s k (c # cs)
        = of_bool (Decision r = DecisionAllow) + count_allowed allow s' k cs"
      by (simp add: c True count_allowed_Cons [where allow = allow, OF a [unfolded True]])
    ultimately show ?thesis using mono by (auto split: if_splits)
  next
    case False
    have "of_nat (count_allowed allow s' k cs) \<le> cap + slope * of_int (t1 - t)"
      by (rule Cons.IH [OF tinv_allow [OF i a] rest Cons.prems(3)])
    with mono False show ?thesis by (simp add: c count_allowed_Cons [where allow = allow, OF a])
  qed
qed

end

end
