(* ===== verification/Mono_Limiter.thy ===== *)
theory Mono_Limiter
  imports Limiter
begin

text \<open>
  The in-memory limiter of \<open>internal/ratelimit/mono_limiter.go\<close>: \<open>New\<close> and \<open>Allow\<close>, a token
  bucket per key. \<open>Allow\<close> is written over the rounding function of its float operations: with
  \<open>f64\<close> it is the code's, with \<open>exact\<close> the same algorithm on exact numbers. The mutex makes each
  call atomic, so a call is a function of the state. Times and durations are nanoseconds.

  Differences of times are those of \<open>Time.Sub\<close>, and what Go's conversion to a \<open>Duration\<close> gives for a float
  it cannot represent is the parameter \<open>conv\<close>.

  Shown: every bucket stays between empty and full for the code's float arithmetic; a denial
  leaves the tokens alone and, for all but absurdly slow rates, tells a non-negative delay; and, on exact
  numbers, the bound on the calls allowed in any window of time when the idle timeout is long enough
  for a full refill.
  \<open>Mono_Float\<close> has the bound in float64.
\<close>

record bucket =
  b_tokens :: rat
  b_last :: int

record mono_limiter =
  buckets :: "string \<rightharpoonup> bucket"
  l_rate :: rat
  l_burst :: rat
  l_ttl :: int

definition mono_new :: "(rat \<Rightarrow> rat) \<Rightarrow> rat \<Rightarrow> int \<Rightarrow> int \<Rightarrow> mono_limiter" where
  "mono_new rnd rate burst ttl =
     \<lparr>buckets = Map.empty, l_rate = rate, l_burst = rnd (of_int burst), l_ttl = ttl\<rparr>"

section \<open>Allow, step by step\<close>

text \<open>The bucket of the key, a full one made at the time of the first call.\<close>

definition bucket_fetch :: "mono_limiter \<Rightarrow> int \<Rightarrow> string \<Rightarrow> bucket" where
  "bucket_fetch l now key =
     (case buckets l key of Some b \<Rightarrow> b | None \<Rightarrow> \<lparr>b_tokens = l_burst l, b_last = now\<rparr>)"

text \<open>TTL eviction.\<close>

definition bucket_evict :: "mono_limiter \<Rightarrow> int \<Rightarrow> bucket \<Rightarrow> bucket" where
  "bucket_evict l now b =
     (if time_Sub now (b_last b) > l_ttl l then b\<lparr>b_tokens := l_burst l, b_last := now\<rparr> else b)"

text \<open>Refill, only when at least one token came together.\<close>

definition bucket_refill :: "(rat \<Rightarrow> int) \<Rightarrow> (rat \<Rightarrow> rat) \<Rightarrow> mono_limiter \<Rightarrow> int \<Rightarrow> bucket \<Rightarrow> bucket" where
  "bucket_refill conv rnd l now b =
     (let elapsed = time_Sub now (b_last b);
          tokensToAdd = rnd (dur_seconds rnd elapsed * l_rate l)
      in if tokensToAdd \<ge> 1 then
           (let t = rnd (b_tokens b + tokensToAdd);
                consumed = dur_of_seconds conv rnd (rnd (tokensToAdd / l_rate l))
            in b\<lparr>b_tokens := (if t > l_burst l then l_burst l else t), b_last := b_last b + consumed\<rparr>)
         else b)"

definition bucket_ready :: "(rat \<Rightarrow> int) \<Rightarrow> (rat \<Rightarrow> rat) \<Rightarrow> mono_limiter \<Rightarrow> int \<Rightarrow> string \<Rightarrow> bucket" where
  "bucket_ready conv rnd l now key = bucket_refill conv rnd l now (bucket_evict l now (bucket_fetch l now key))"

definition mono_Allow :: "(rat \<Rightarrow> int) \<Rightarrow> (rat \<Rightarrow> rat) \<Rightarrow> int \<Rightarrow> string \<Rightarrow> mono_limiter \<Rightarrow> rl_result \<times> mono_limiter" where
  "mono_Allow conv rnd now key l =
     (let b = bucket_ready conv rnd l now key;
          newTokens = rnd (b_tokens b - 1)
      in if newTokens < 0 then
           (deny_result (dur_of_seconds conv rnd (rnd (- newTokens / l_rate l))),
            l\<lparr>buckets := (buckets l)(key \<mapsto> b)\<rparr>)
         else
           (allow_result, l\<lparr>buckets := (buckets l)(key \<mapsto> b\<lparr>b_tokens := newTokens\<rparr>)\<rparr>))"

section \<open>The invariant\<close>

definition bucket_ok :: "mono_limiter \<Rightarrow> bucket \<Rightarrow> bool" where
  "bucket_ok l b \<longleftrightarrow> 0 \<le> b_tokens b \<and> b_tokens b \<le> l_burst l"

definition mono_inv :: "(rat \<Rightarrow> rat) \<Rightarrow> mono_limiter \<Rightarrow> bool" where
  "mono_inv rnd l \<longleftrightarrow> 0 < l_rate l \<and> 0 \<le> l_burst l \<and> rnd (l_burst l) = l_burst l
     \<and> (\<forall>k b. buckets l k = Some b \<longrightarrow> bucket_ok l b)"

context rounding
begin

lemma bucket_refill_ok:
  assumes "0 \<le> l_burst l" "bucket_ok l b"
  shows "bucket_ok l (bucket_refill conv rnd l now b)"
proof -
  have "0 \<le> rnd (b_tokens b + x)" if "1 \<le> x" for x
    using that assms by (intro rnd_nonneg) (simp add: bucket_ok_def)
  then show ?thesis using assms by (auto simp: bucket_refill_def bucket_ok_def Let_def)
qed

lemma bucket_ready_ok:
  assumes "mono_inv rnd l"
  shows "bucket_ok l (bucket_ready conv rnd l now key)"
proof -
  have "bucket_ok l (bucket_fetch l now key)"
    using assms by (auto simp: bucket_fetch_def mono_inv_def bucket_ok_def split: option.splits)
  then have "bucket_ok l (bucket_evict l now (bucket_fetch l now key))"
    using assms by (auto simp: bucket_evict_def mono_inv_def bucket_ok_def)
  then show ?thesis
    using assms bucket_refill_ok by (simp add: bucket_ready_def mono_inv_def)
qed

lemma mono_Allow_inv:
  assumes "mono_inv rnd l" "mono_Allow conv rnd now key l = (r, l')"
  shows "mono_inv rnd l'"
proof -
  let ?b = "bucket_ready conv rnd l now key"
  have ok: "bucket_ok l ?b" using assms(1) by (rule bucket_ready_ok)
  have "rnd (b_tokens ?b - 1) \<le> rnd (l_burst l)"
    using ok by (intro rnd_mono) (simp add: bucket_ok_def)
  then have "rnd (b_tokens ?b - 1) \<le> l_burst l" using assms(1) by (simp add: mono_inv_def)
  then show ?thesis
    using assms ok by (auto simp: mono_Allow_def Let_def mono_inv_def bucket_ok_def split: if_splits)
qed

text \<open>
  A denied client lacks at most one token, which comes together in \<open>1 / rate\<close> seconds. Down to one token
  in a thousand million seconds the delay is far from what an \<open>int64\<close> cannot hold.
\<close>

lemma delay_nonneg:
  assumes "1 / 1000000000 \<le> r" "rnd 1000000000000000000 < 2 ^ 63" "- 1 \<le> x" "x < 0"
  shows "0 \<le> dur_of_seconds conv rnd (rnd (- x / r))"
proof -
  have r: "0 < r" using assms(1) by (rule less_le_trans [rotated]) simp
  have "- x / r \<le> 1 / (1 / 1000000000)" using assms r by (intro frac_le) simp_all
  then have "rnd (- x / r) \<le> rnd (of_int 1000000000)" by (intro rnd_mono) simp
  also have "rnd (of_int 1000000000) = of_int 1000000000" by (rule rnd_int) simp
  finally have "rnd (rnd (- x / r) * of_int nanos_per_second) \<le> rnd 1000000000000000000"
    by (intro rnd_mono) (simp add: nanos_per_second_def)
  moreover have "0 \<le> rnd (rnd (- x / r) * of_int nanos_per_second)"
    using assms(4) r by (intro rnd_nonneg mult_nonneg_nonneg) (simp_all add: nanos_per_second_def divide_nonpos_pos)
  ultimately show ?thesis
    using assms(2) by (simp add: dur_of_seconds_def to_int64_trunc trunc_int_nonneg)
qed

lemma mono_Allow_result:
  assumes "mono_inv rnd l" "1 / 1000000000 \<le> l_rate l" "rnd 1000000000000000000 < 2 ^ 63"
    and "mono_Allow conv rnd now key l = (r, l')"
  shows "result_ok r"
proof -
  let ?b = "bucket_ready conv rnd l now key"
  have "rnd (of_int (- 1)) \<le> rnd (b_tokens ?b - 1)"
    using bucket_ready_ok [OF assms(1), of conv now key] by (intro rnd_mono) (simp add: bucket_ok_def)
  moreover have "rnd (of_int (- 1)) = of_int (- 1)" by (rule rnd_int) simp
  ultimately have "- 1 \<le> rnd (b_tokens ?b - 1)" by simp
  from delay_nonneg [OF assms(2,3) this] assms(4) show ?thesis
    by (auto simp: mono_Allow_def Let_def result_ok_def split: if_splits)
qed

end

text \<open>The limiters of positive rate, and among them those whose delays an \<open>int64\<close> holds.\<close>

definition mono_slowest :: "(rat \<Rightarrow> rat) \<Rightarrow> mono_limiter \<Rightarrow> bool" where
  "mono_slowest rnd l \<longleftrightarrow> mono_inv rnd l \<and> 1 / 1000000000 \<le> l_rate l"

lemma mono_Allow_rate: "mono_Allow conv rnd now key l = (r, l') \<Longrightarrow> l_rate l' = l_rate l"
  by (auto simp: mono_Allow_def Let_def split: if_splits)

interpretation mono: limiter "mono_Allow conv f64" "mono_slowest f64" for conv
proof unfold_locales
  fix s t k r s'
  assume s: "mono_slowest f64 s" and a: "mono_Allow conv f64 t k s = (r, s')"
  show "mono_slowest f64 s'"
    using s float64.mono_Allow_inv [OF _ a] mono_Allow_rate [OF a] by (simp add: mono_slowest_def)
  have "f64 1000000000000000000 < 2 ^ 63" by code_simp
  with s a show "result_ok r" by (intro float64.mono_Allow_result) (simp_all add: mono_slowest_def)
qed

interpretation mono_ideal: limiter "mono_Allow conv exact" "mono_slowest exact" for conv
proof unfold_locales
  fix s t k r s'
  assume s: "mono_slowest exact s" and a: "mono_Allow conv exact t k s = (r, s')"
  show "mono_slowest exact s'"
    using s ideal.mono_Allow_inv [OF _ a] mono_Allow_rate [OF a] by (simp add: mono_slowest_def)
  from s a show "result_ok r"
    by (intro ideal.mono_Allow_result) (simp_all add: mono_slowest_def exact_def)
qed

lemma run_mono_inv:
  "mono_inv f64 l \<Longrightarrow> run_calls (mono_Allow conv f64) l cs = (rs, l') \<Longrightarrow>
     mono_inv f64 l' \<and> list_all (\<lambda>r. r = allow_result \<or> (\<exists>d. r = deny_result d)) rs"
proof (induction cs arbitrary: l rs)
  case (Cons c cs)
  obtain t k where c: "c = (t, k)" by (cases c)
  obtain r l1 where a: "mono_Allow conv f64 t k l = (r, l1)" by (metis surj_pair)
  obtain rs1 l2 where b: "run_calls (mono_Allow conv f64) l1 cs = (rs1, l2)" by (metis surj_pair)
  have "r = allow_result \<or> (\<exists>d. r = deny_result d)" using a by (auto simp: mono_Allow_def Let_def split: if_splits)
  with Cons.IH [OF float64.mono_Allow_inv [OF Cons.prems(1) a]] Cons.prems(2) b show ?case by (auto simp: c a)
qed simp

section \<open>The rate bound on exact numbers\<close>

text \<open>What a bucket holds at time \<open>t\<close>, the tokens not yet credited included.\<close>

definition mono_level :: "rat \<Rightarrow> mono_limiter \<Rightarrow> string \<Rightarrow> int \<Rightarrow> rat" where
  "mono_level rate l k t =
     (let b = bucket_fetch l t k
      in b_tokens b + rate / of_int nanos_per_second * of_int (t - b_last b))"

definition mono_tinv :: "rat \<Rightarrow> rat \<Rightarrow> int \<Rightarrow> mono_limiter \<Rightarrow> int \<Rightarrow> bool" where
  "mono_tinv rate burst ttl l t \<longleftrightarrow>
     l_rate l = rate \<and> l_burst l = burst \<and> l_ttl l = ttl \<and> mono_inv exact l
     \<and> (\<forall>k b. buckets l k = Some b \<longrightarrow> b_last b \<le> t)"

text \<open>The configurations the bound is for: the idle timeout leaves time for a full refill.\<close>

locale mono_config =
  fixes conv :: "rat \<Rightarrow> int" and rate burst :: rat and ttl :: int
  assumes rate_pos: "0 < rate"
    and burst_nonneg: "0 \<le> burst"
    and ttl_refills: "burst \<le> rate / of_int nanos_per_second * of_int ttl"
    and ttl_bound: "ttl < 2 ^ 63 - 1"
begin

lemma slope_pos: "0 < rate / of_int nanos_per_second"
  using rate_pos by (simp add: nanos_per_second_def)

lemma refill_exact:
  assumes "l_rate l = rate" "b_last b \<le> now" "now - b_last b < 2 ^ 63"
  shows "bucket_refill conv exact l now b =
    (if rate / of_int nanos_per_second * of_int (now - b_last b) \<ge> 1
     then b\<lparr>b_tokens := min (l_burst l) (b_tokens b + rate / of_int nanos_per_second * of_int (now - b_last b)),
            b_last := now\<rparr>
     else b)"
proof -
  have "dur_of_seconds conv exact (of_int (now - b_last b) / of_int nanos_per_second) = now - b_last b"
    using assms(2,3) to_int64_of_int [of "now - b_last b" conv]
    by (simp add: dur_of_seconds_def exact_def nanos_per_second_def del: of_int_diff)
  moreover have "time_Sub now (b_last b) = now - b_last b" using assms(2,3) by (intro time_Sub_le) simp
  ultimately show ?thesis
    using assms(1) rate_pos by (simp add: bucket_refill_def Let_def dur_seconds_exact exact_def mult.commute min_def)
qed

text \<open>Eviction and refill never raise the level, and leave less than one token uncredited.\<close>

lemma ready_level:
  fixes k :: string
  assumes "mono_tinv rate burst ttl l t"
  defines "b \<equiv> bucket_ready conv exact l t k"
  shows "b_last b \<le> t"
    and "b_tokens b + rate / of_int nanos_per_second * of_int (t - b_last b) \<le> mono_level rate l k t"
    and "b_tokens b + rate / of_int nanos_per_second * of_int (t - b_last b) \<le> burst + 1"
    and "0 \<le> b_tokens b"
proof -
  define c where "c = rate / of_int nanos_per_second"
  have c: "0 < c" using slope_pos by (simp add: c_def)
  define b0 where "b0 = bucket_fetch l t k"
  define b1 where "b1 = bucket_evict l t b0"
  have l: "l_rate l = rate" "l_burst l = burst" "l_ttl l = ttl" and inv: "mono_inv exact l"
    using assms(1) by (simp_all add: mono_tinv_def)
  have b0: "b_last b0 \<le> t" "bucket_ok l b0"
    using assms(1) by (auto simp: b0_def bucket_fetch_def mono_tinv_def mono_inv_def bucket_ok_def split: option.splits)
  have "burst \<le> b_tokens b0 + c * of_int (t - b_last b0)" if "t - b_last b0 > ttl"
  proof -
    have "c * of_int ttl \<le> c * of_int (t - b_last b0)"
      using that c by (intro mult_left_mono) simp_all
    then show ?thesis using ttl_refills b0(2) by (simp add: bucket_ok_def c_def)
  qed
  then have b1: "b_last b1 \<le> t" "bucket_ok l b1"
      "b_tokens b1 + c * of_int (t - b_last b1) \<le> b_tokens b0 + c * of_int (t - b_last b0)"
    using b0 inv ttl_bound by (auto simp: b1_def bucket_evict_def l bucket_ok_def mono_inv_def time_Sub_exceeds)
  have "burst \<le> c * of_int ttl" using ttl_refills by (simp add: c_def)
  then have "0 \<le> ttl" using burst_nonneg c by (metis of_int_0_le_iff order_trans zero_le_mult_iff not_less)
  then have elapsed: "t - b_last b1 < 2 ^ 63"
    using ttl_bound b0(1) by (auto simp: b1_def bucket_evict_def l time_Sub_exceeds)
  have b: "b = (if c * of_int (t - b_last b1) \<ge> 1
      then b1\<lparr>b_tokens := min burst (b_tokens b1 + c * of_int (t - b_last b1)), b_last := t\<rparr> else b1)"
    using refill_exact [OF l(1) b1(1) elapsed] by (simp add: b_def bucket_ready_def l c_def flip: b0_def b1_def)
  have lev: "mono_level rate l k t = b_tokens b0 + c * of_int (t - b_last b0)"
    by (simp add: mono_level_def b0_def c_def Let_def)
  show "b_last b \<le> t" using b1 by (simp add: b)
  show "b_tokens b + rate / of_int nanos_per_second * of_int (t - b_last b) \<le> mono_level rate l k t"
    using b1 by (auto simp: b lev simp flip: c_def)
  show "b_tokens b + rate / of_int nanos_per_second * of_int (t - b_last b) \<le> burst + 1"
    using b1 by (auto simp: b bucket_ok_def l simp flip: c_def)
  show "0 \<le> b_tokens b"
    using ideal.bucket_ready_ok [OF inv] by (simp add: b_def bucket_ok_def)
qed

lemma allow_level:
  assumes "mono_tinv rate burst ttl l t" "mono_Allow conv exact t k l = (r, l')"
  shows "mono_tinv rate burst ttl l' t"
    and "mono_level rate l' k t + of_bool (Decision r = DecisionAllow)
           \<le> min (burst + 1) (mono_level rate l k t)"
    and "k' \<noteq> k \<Longrightarrow> mono_level rate l' k' t = mono_level rate l k' t"
proof -
  note lev = ready_level [OF assms(1), of k]
  have inv: "mono_inv exact l'"
    using ideal.mono_Allow_inv [OF _ assms(2)] assms(1) by (simp add: mono_tinv_def)
  then show "mono_tinv rate burst ttl l' t"
    using assms lev(1) by (auto simp: mono_tinv_def mono_Allow_def Let_def split: if_splits)
  show "mono_level rate l' k t + of_bool (Decision r = DecisionAllow)
           \<le> min (burst + 1) (mono_level rate l k t)"
    using assms(2) lev
    by (auto simp: mono_Allow_def Let_def mono_level_def [of _ l'] bucket_fetch_def exact_def split: if_splits)
  show "mono_level rate l' k' t = mono_level rate l k' t" if "k' \<noteq> k"
    using assms(2) that
    by (auto simp: mono_Allow_def Let_def mono_level_def bucket_fetch_def split: if_splits option.splits)
qed

end

sublocale mono_config \<subseteq> metered "mono_Allow conv exact" "mono_tinv rate burst ttl" "mono_level rate"
    "rate / of_int nanos_per_second" "burst + 1" "\<lambda>_. True"
proof unfold_locales
  fix l t t' k k' r l'
  show "mono_tinv rate burst ttl l t \<Longrightarrow> mono_Allow conv exact t k l = (r, l') \<Longrightarrow> mono_tinv rate burst ttl l' t"
    by (rule allow_level(1))
  show "mono_tinv rate burst ttl l t \<Longrightarrow> t \<le> t' \<Longrightarrow> mono_tinv rate burst ttl l t'"
    by (fastforce simp: mono_tinv_def)
  show "0 \<le> mono_level rate l k t" if "mono_tinv rate burst ttl l t"
    using that
    by (auto simp: mono_level_def bucket_fetch_def mono_tinv_def mono_inv_def bucket_ok_def Let_def
        nanos_per_second_def split: option.splits)
  show "mono_level rate l' k t + 1 \<le> mono_level rate l k t"
    if "mono_tinv rate burst ttl l t" "mono_Allow conv exact t k l = (r, l')" "Decision r = DecisionAllow"
    using allow_level(2) [OF that(1,2)] that(3) by simp
  show "mono_level rate l' k t \<le> mono_level rate l k t"
    if "mono_tinv rate burst ttl l t" "mono_Allow conv exact t k l = (r, l')" "Decision r = DecisionDeny"
    using allow_level(2) [OF that(1,2)] that(3) by simp
  show "mono_level rate l' k t = mono_level rate l k t"
    if "mono_tinv rate burst ttl l t" "mono_Allow conv exact t k' l = (r, l')" "k' \<noteq> k"
    using allow_level(3) [OF that(1,2)] that(3) by auto
  show "mono_level rate l k t' \<le> mono_level rate l k t + rate / of_int nanos_per_second * of_int (t' - t)"
    if "mono_tinv rate burst ttl l t" "t \<le> t'"
  proof -
    have "0 \<le> rate / of_int nanos_per_second * of_int (t' - t)"
      using slope_pos that by (intro mult_nonneg_nonneg) simp_all
    then show ?thesis
      by (auto simp: mono_level_def bucket_fetch_def Let_def algebra_simps diff_divide_distrib
          split: option.splits)
  qed
  show "mono_level rate l' k t + (if Decision r = DecisionAllow then 1 else 0) \<le> burst + 1"
    if "mono_tinv rate burst ttl l t" "mono_Allow conv exact t k l = (r, l')"
    using allow_level(2) [OF that] by (cases "Decision r") auto
qed (use slope_pos burst_nonneg in simp_all)

context mono_config
begin

lemmas window_cap = count_le_cap
lemmas window_level = count_le_pot
lemmas past_tinv = run_tinv

end

text \<open>Two of these facts need nothing of the burst.\<close>

lemma mono_refill_exact:
  assumes "0 < rate" "l_rate l = rate" "b_last b \<le> now" "now - b_last b < 2 ^ 63"
  shows "bucket_refill conv exact l now b =
    (if rate / of_int nanos_per_second * of_int (now - b_last b) \<ge> 1
     then b\<lparr>b_tokens := min (l_burst l) (b_tokens b + rate / of_int nanos_per_second * of_int (now - b_last b)),
            b_last := now\<rparr>
     else b)"
  using assms mono_config.refill_exact [of rate 0 0 l b now conv] by (simp add: mono_config_def)

lemma mono_ready_last:
  assumes "mono_tinv rate burst ttl l t" "0 < rate" "0 \<le> ttl" "ttl < 2 ^ 63 - 1"
  shows "b_last (bucket_ready conv exact l t k) \<le> t"
proof -
  let ?b = "bucket_evict l t (bucket_fetch l t k)"
  have b: "b_last (bucket_fetch l t k) \<le> t" and l: "l_rate l = rate" "l_ttl l = ttl"
    using assms(1) by (auto simp: bucket_fetch_def mono_tinv_def split: option.splits)
  then have "b_last ?b \<le> t" "t - b_last ?b < 2 ^ 63"
    using assms(3,4) by (auto simp: bucket_evict_def time_Sub_exceeds)
  from mono_refill_exact [OF assms(2) l(1) this, of conv] show ?thesis
    using \<open>b_last ?b \<le> t\<close> by (simp add: bucket_ready_def)
qed

text \<open>The shipped configuration: 1.2 per second, bursts of 12, 30 seconds.\<close>

interpretation mono_default: mono_config conv "6/5" 12 30000000000 for conv
  by unfold_locales (simp_all add: nanos_per_second_def)

lemma mono_new_tinv:
  "0 < rate \<Longrightarrow> 0 \<le> burst \<Longrightarrow> mono_tinv rate (of_int burst) ttl (mono_new exact rate burst ttl) t"
  by (simp add: mono_tinv_def mono_inv_def mono_new_def exact_def)

lemma mono_new_level: "mono_level rate (mono_new exact rate burst ttl) k t = of_int burst"
  by (simp add: mono_level_def bucket_fetch_def mono_new_def exact_def Let_def)

section \<open>Properties\<close>

text \<open>C30. The buckets stay sane for the float arithmetic of the code, whatever an overflowing conversion
  gives: from a new limiter with a positive rate and a burst below \<open>2^53\<close>, after any calls at any times,
  every bucket holds between 0 and \<open>burst\<close> tokens, and every answer is an allow or a denial with the reason
  \<open>rate_exceeded\<close>. The delay told is not negative when the rate is at least one token in a thousand
  million seconds; for slower ones it may exceed a \<open>Duration\<close>.\<close>

theorem mono_buckets_sane:
  assumes "0 < rate" "0 \<le> burst" "burst < 2 ^ 53"
  shows "mono_inv f64 (snd (run_calls (mono_Allow conv f64) (mono_new f64 rate burst ttl) cs))
       \<and> list_all (\<lambda>r. r = allow_result \<or> (\<exists>d. r = deny_result d))
           (fst (run_calls (mono_Allow conv f64) (mono_new f64 rate burst ttl) cs))
       \<and> (1 / 1000000000 \<le> rate \<longrightarrow>
           list_all result_ok (fst (run_calls (mono_Allow conv f64) (mono_new f64 rate burst ttl) cs)))"
proof -
  have inv: "mono_inv f64 (mono_new f64 rate burst ttl)"
    using assms f64_of_int [of burst] by (simp add: mono_inv_def mono_new_def)
  obtain rs l where r: "run_calls (mono_Allow conv f64) (mono_new f64 rate burst ttl) cs = (rs, l)" by (metis surj_pair)
  have "1 / 1000000000 \<le> rate \<longrightarrow> list_all result_ok rs"
    using inv mono.run_ok [OF _ r] by (simp add: mono_slowest_def) (simp add: mono_new_def)
  with run_mono_inv [OF inv r] show ?thesis by (simp add: r)
qed

theorem mono_buckets_sane_witness:
  "list_all result_ok
     (fst (run_calls (mono_Allow conv_amd64 f64) (mono_new f64 (6/5) 12 30000000000)
        [(0, ''a''), (5, ''b''), (7, ''a'')]))"
  using mono_buckets_sane [of "6/5" 12 conv_amd64 30000000000 "[(0, ''a''), (5, ''b''), (7, ''a'')]"] by simp

text \<open>The rate bound: on exact numbers, when the idle timeout is at least the time of a full
  refill, then after any past calls, in any window from \<open>t0\<close> to \<open>t1\<close> a key is allowed at most
  \<open>burst + 1\<close> calls plus the rate times the length of the window, and at most \<open>burst\<close> plus that
  when the limiter is new.\<close>

theorem mono_rate_bound:
  assumes "0 < rate" "0 \<le> burst" "of_int burst \<le> rate / of_int nanos_per_second * of_int ttl" "ttl < 2 ^ 63 - 1"
    and "calls_within s0 t0 past" "calls_within t0 t1 cs"
  shows "of_nat (count_allowed (mono_Allow conv exact)
            (snd (run_calls (mono_Allow conv exact) (mono_new exact rate burst ttl) past)) k cs)
          \<le> of_int burst + 1 + rate / of_int nanos_per_second * of_int (t1 - t0)
     \<and> of_nat (count_allowed (mono_Allow conv exact) (mono_new exact rate burst ttl) k cs)
          \<le> of_int burst + rate / of_int nanos_per_second * of_int (t1 - t0)"
proof -
  have cfg: "mono_config rate (of_int burst) ttl" using assms(1-4) by unfold_locales simp_all
  note new = mono_new_tinv [OF assms(1,2), of ttl]
  show ?thesis
    using mono_config.window_cap [OF cfg mono_config.past_tinv [OF cfg new assms(5)] assms(6), where k = k and conv = conv]
      mono_config.window_level [OF cfg new assms(6), where k = k and conv = conv]
    by (simp add: mono_new_level)
qed

theorem mono_rate_bound_witness:
  "count_allowed (mono_Allow conv_amd64 exact) (mono_new exact (6/5) 12 30000000000) ''a''
     (replicate 40 (1000000000, ''a'')) \<le> 12"
proof -
  have "calls_within t t (replicate n (t, k))" for t n and k :: string by (induction n) auto
  then have "of_nat (count_allowed (mono_Allow conv_amd64 exact) (mono_new exact (6/5) 12 30000000000) ''a''
        (replicate 40 (1000000000, ''a''))) \<le> (12 :: rat)"
    using mono_rate_bound [where rate = "6/5" and burst = 12 and ttl = 30000000000 and ?s0.0 = 0 and ?t0.0 = 1000000000
        and past = "[]" and ?t1.0 = 1000000000 and cs = "replicate 40 (1000000000, ''a'')" and k = "''a''"
        and conv = conv_amd64]
    by (simp add: nanos_per_second_def)
  then show ?thesis by (metis of_nat_le_iff of_nat_numeral)
qed

text \<open>No starvation: after a denial, a call for the same key at least one token interval later
  (\<open>1/rate\<close> seconds, with no call for it in between) is allowed, provided the burst is at least 1.\<close>

theorem mono_recovers:
  assumes "0 < rate" "1 \<le> burst" "0 \<le> ttl" "ttl < 2 ^ 63 - 1"
    and inv: "mono_tinv rate burst ttl l t"
    and call: "mono_Allow conv exact t k l = (r, l')" "Decision r = DecisionDeny"
    and later: "1 \<le> rate / of_int nanos_per_second * of_int (t' - t)"
  shows "Decision (fst (mono_Allow conv exact t' k l')) = DecisionAllow"
proof -
  define b where "b = bucket_ready conv exact l t k"
  have l': "l' = l\<lparr>buckets := (buckets l)(k \<mapsto> b)\<rparr>"
    using call by (auto simp: mono_Allow_def Let_def b_def split: if_splits)
  have l: "l_rate l = rate" "l_burst l = burst" "l_ttl l = ttl" and minv: "mono_inv exact l"
    using inv by (simp_all add: mono_tinv_def)
  have tok: "0 \<le> b_tokens b"
    using ideal.bucket_ready_ok [OF minv] by (simp add: b_def bucket_ok_def)
  have last: "b_last b \<le> t"
    using mono_ready_last [OF inv assms(1,3,4)] by (simp add: b_def)
  have "1 \<le> b_tokens (bucket_ready conv exact l' t' k)"
  proof (cases "time_Sub t' (b_last b) > ttl")
    case True
    then have "bucket_evict l' t' (bucket_fetch l' t' k) = b\<lparr>b_tokens := burst, b_last := t'\<rparr>"
      by (simp add: bucket_evict_def bucket_fetch_def l' l)
    then show ?thesis
      using assms(2) by (simp add: bucket_ready_def bucket_refill_def Let_def dur_seconds_exact exact_def)
  next
    case False
    have "0 < rate / of_int nanos_per_second * of_int (t' - t)" using later by linarith
    then have "t \<le> t'" using assms(1) by (simp add: zero_less_mult_iff nanos_per_second_def)
    then have elapsed: "b_last b \<le> t'" "t' - b_last b < 2 ^ 63"
      using False last assms(4) by (simp_all add: time_Sub_exceeds)
    have "rate / of_int nanos_per_second * of_int (t' - t)
        \<le> rate / of_int nanos_per_second * of_int (t' - b_last b)"
      using last assms(1) by (intro mult_left_mono) (simp_all add: nanos_per_second_def)
    with later have "1 \<le> rate / of_int nanos_per_second * of_int (t' - b_last b)" by linarith
    then show ?thesis
      using False tok assms(2)
      by (simp add: bucket_ready_def bucket_evict_def bucket_fetch_def l' l mono_refill_exact [OF assms(1) _ elapsed])
  qed
  then show ?thesis by (simp add: mono_Allow_def Let_def exact_def)
qed

theorem mono_recovers_witness:
  "Decision (fst (mono_Allow conv_amd64 exact 1000000000 ''a''
      (snd (mono_Allow conv_amd64 exact 0 ''a'' (snd (mono_Allow conv_amd64 exact 0 ''a'' (mono_new exact 1 1 2000000000)))))))
   = DecisionAllow"
proof -
  let ?l0 = "mono_new exact 1 1 2000000000"
  let ?l1 = "snd (mono_Allow conv_amd64 exact 0 ''a'' ?l0)"
  have "mono_tinv 1 1 2000000000 ?l1 0"
    by (simp add: mono_Allow_def mono_new_def mono_tinv_def mono_inv_def bucket_ready_def bucket_refill_def
        bucket_evict_def bucket_fetch_def exact_def dur_seconds_exact Let_def bucket_ok_def)
  moreover have "Decision (fst (mono_Allow conv_amd64 exact 0 ''a'' ?l1)) = DecisionDeny"
    by (simp add: mono_Allow_def mono_new_def bucket_ready_def bucket_refill_def
        bucket_evict_def bucket_fetch_def exact_def dur_seconds_exact Let_def)
  ultimately show ?thesis
    using mono_recovers [of 1 1 2000000000 ?l1 0 conv_amd64 "''a''" "fst (mono_Allow conv_amd64 exact 0 ''a'' ?l1)"
        "snd (mono_Allow conv_amd64 exact 0 ''a'' ?l1)" 1000000000]
    by (simp add: nanos_per_second_def)
qed

text \<open>The delay told to a denied client can be too short: at one token per second with a burst of
  2, after calls at 0, 0 and 1.5 s a call at 1.5 s is denied with half a second to wait, and the
  call half a second later is denied again, because a refill of less than one token is not made.\<close>

theorem mono_retry_after_short:
  "fst (run_calls (mono_Allow conv_amd64 exact) (mono_new exact 1 2 30000000000)
     [(0, ''a''), (0, ''a''), (1500000000, ''a''), (1500000000, ''a''), (2000000000, ''a'')])
   = [allow_result, allow_result, allow_result, deny_result 500000000, deny_result 500000000]"
proof -
  define l where "l x y = \<lparr>buckets = [''a'' \<mapsto> \<lparr>b_tokens = x, b_last = y\<rparr>], l_rate = 1, l_burst = 2, l_ttl = 30000000000\<rparr>"
    for x y
  have d: "dur_of_seconds conv_amd64 exact (3 / 2) = 1500000000" "dur_of_seconds conv_amd64 exact (1 / 2) = 500000000"
    by (simp_all add: dur_of_seconds_def to_int64_def trunc_int_def exact_def nanos_per_second_def)
  have b: "bucket_ready conv_amd64 exact (mono_new exact 1 2 30000000000) 0 ''a'' = \<lparr>b_tokens = 2, b_last = 0\<rparr>"
    "bucket_ready conv_amd64 exact (l 1 0) 0 ''a'' = \<lparr>b_tokens = 1, b_last = 0\<rparr>"
    "bucket_ready conv_amd64 exact (l 0 0) 1500000000 ''a'' = \<lparr>b_tokens = 3 / 2, b_last = 1500000000\<rparr>"
    "bucket_ready conv_amd64 exact (l (1 / 2) 1500000000) 1500000000 ''a'' = \<lparr>b_tokens = 1 / 2, b_last = 1500000000\<rparr>"
    "bucket_ready conv_amd64 exact (l (1 / 2) 1500000000) 2000000000 ''a'' = \<lparr>b_tokens = 1 / 2, b_last = 1500000000\<rparr>"
    by (simp_all add: bucket_ready_def bucket_refill_def bucket_evict_def bucket_fetch_def l_def mono_new_def
        time_Sub_def dur_seconds_exact d nanos_per_second_def Let_def exact_def)
  have a: "mono_Allow conv_amd64 exact 0 ''a'' (mono_new exact 1 2 30000000000) = (allow_result, l 1 0)"
    "mono_Allow conv_amd64 exact 0 ''a'' (l 1 0) = (allow_result, l 0 0)"
    "mono_Allow conv_amd64 exact 1500000000 ''a'' (l 0 0) = (allow_result, l (1 / 2) 1500000000)"
    "mono_Allow conv_amd64 exact 1500000000 ''a'' (l (1 / 2) 1500000000) = (deny_result 500000000, l (1 / 2) 1500000000)"
    "mono_Allow conv_amd64 exact 2000000000 ''a'' (l (1 / 2) 1500000000) = (deny_result 500000000, l (1 / 2) 1500000000)"
    unfolding mono_Allow_def b Let_def
    by (simp_all add: l_def mono_new_def exact_def d)
  show ?thesis by (simp add: a)
qed

end
