(* ===== verification/Mono_Float.thy ===== *)
theory Mono_Float
  imports Mono_Limiter
begin

text \<open>
  The rate bound of the in-memory limiter in the code's float arithmetic. A refill is made only when at
  least one token has come together, so what rounding and the truncation of the consumed time to
  nanoseconds may add to it is a small part of it: the bucket fills at most at the rate times \<open>1 + eta\<close>.
\<close>

section \<open>The error of one operation\<close>

locale rounding_rel = rounding +
  fixes u :: rat
  assumes u_nonneg: "0 \<le> u" and u_small: "u \<le> 1 / 1000"
    and rnd_rel: "\<bar>rnd x - x\<bar> \<le> u * max \<bar>x\<bar> 1"
begin

lemma rnd_close: "\<bar>x\<bar> \<le> b \<Longrightarrow> 1 \<le> b \<Longrightarrow> rnd x \<le> x + u * b \<and> x - u * b \<le> rnd x"
  using rnd_rel [of x] mult_left_mono [of "max \<bar>x\<bar> 1" b u] u_nonneg by (simp add: abs_le_iff)

end

lemma f64_rel: "\<bar>f64 x - x\<bar> \<le> 1 / 2 ^ 53 * max \<bar>x\<bar> 1"
proof (cases "x = 0")
  case False
  define m where "m = f64_exp x"
  have pm: "(0::rat) < 2 powi m" by simp
  have x: "2 powi ilog2 \<bar>x\<bar> \<le> \<bar>x\<bar>" using ilog2_bounds(1) [of "\<bar>x\<bar>"] False by simp
  have m: "(2::rat) powi m \<le> 2 powi (- 52) * max \<bar>x\<bar> 1"
  proof (cases "m = ilog2 \<bar>x\<bar> - 52")
    case True
    then have "(2::rat) powi m = 2 powi (- 52) * 2 powi ilog2 \<bar>x\<bar>" by (simp add: power_int_diff power_int_minus)
    also have "\<dots> \<le> 2 powi (- 52) * max \<bar>x\<bar> 1" using x by (intro mult_left_mono) auto
    finally show ?thesis .
  next
    case False
    then have "m = - 1074" by (auto simp: m_def f64_exp_def)
    then have "(2::rat) powi m \<le> 2 powi (- 52)" by (simp only: powi2_mono)
    also have "\<dots> \<le> 2 powi (- 52) * max \<bar>x\<bar> 1"
      using mult_left_mono [of 1 "max \<bar>x\<bar> 1" "(2::rat) powi (- 52)"] by simp
    finally show ?thesis .
  qed
  have "\<bar>of_int (round_even (x / 2 powi m)) - x / 2 powi m\<bar> \<le> 1 / 2"
    unfolding abs_le_iff using round_even_bounds [of "x / 2 powi m"] by linarith
  then have "\<bar>of_int (round_even (x / 2 powi m)) - x / 2 powi m\<bar> * 2 powi m \<le> 1 / 2 * (2 powi (- 52) * max \<bar>x\<bar> 1)"
    using m pm by (intro mult_mono) simp_all
  moreover have "f64 x - x = (of_int (round_even (x / 2 powi m)) - x / 2 powi m) * 2 powi m"
    using pm by (simp add: f64_eq left_diff_distrib flip: m_def)
  moreover have "1 / 2 * (2 powi (- 52)) = (1 / 2 ^ 53 :: rat)" by (simp add: power_int_minus)
  ultimately show ?thesis using pm by (simp add: abs_mult)
qed simp

interpretation float64: rounding_rel f64 "1 / 2 ^ 53"
  by unfold_locales (use f64_rel in simp_all)

interpretation ideal: rounding_rel exact 0
  by unfold_locales (simp_all add: exact_def)

section \<open>What a refill adds\<close>

locale mono_float = rounding_rel rnd u for rnd u +
  fixes conv :: "rat \<Rightarrow> int" and rate burst :: rat and ttl :: int and eta tt :: rat
  assumes rate_pos: "0 < rate" and burst_nonneg: "0 \<le> burst" and burst_rnd: "rnd burst = burst"
    and ttl_le: "of_int ttl / 1000000000 \<le> tt" and tt_ge: "1 \<le> tt"
    and ttl_refills: "burst \<le> rate / 1000000000 * of_int ttl" and ttl_bound: "ttl < 2 ^ 60"
    and precise: "u * tt * 100000000000 < 1"
    and slack: "3 * u + u * (burst + 1) + rate / 1000000000 * (1 + eta) + (1 + eta) * (4 * u * tt * rate)
      \<le> eta * (1 - 2 * u)"
    and eta_pos: "0 < eta" and eta_le: "eta \<le> 1"
    and burst_small: "u * (burst + 1) \<le> 1 / 2"
begin

definition e :: rat where "e = u * tt"

lemma e_bounds: "0 \<le> e" "u \<le> e" "e < 1 / 100000000000"
  using u_nonneg tt_ge precise by (simp_all add: e_def mult_le_cancel_left1 mult_le_cancel_left2)

lemma seconds:
  assumes "0 \<le> d" "d \<le> ttl"
  shows "dur_seconds rnd d \<le> of_int d / 1000000000 + 4 * e" "of_int d / 1000000000 - 4 * e \<le> dur_seconds rnd d"
    "0 \<le> dur_seconds rnd d"
proof -
  define q n where "q = d sdiv nanos_per_second" and "n = d smod nanos_per_second"
  have qn: "q * 1000000000 + n = d" "0 \<le> q" "0 \<le> n" "n < 1000000000"
    using assms(1) sdiv_mult_smod_eq [of d nanos_per_second]
    by (simp_all add: q_def n_def nanos_per_second_def signed_divide_int_def signed_modulo_int_def sgn_if)
  have D: "of_int d / 1000000000 = of_int q + of_int n / (1000000000 :: rat)"
    by (simp add: field_simps flip: qn(1))
  have dtt: "of_int d / 1000000000 \<le> tt"
    using assms(2) ttl_le by (meson divide_right_mono of_int_le_iff order_trans zero_le_numeral)
  have q: "0 \<le> (of_int q :: rat)" and n: "0 \<le> (of_int n :: rat) / 1000000000" "of_int n / (1000000000 :: rat) \<le> 1"
    using qn by (simp_all add: le_divide_eq divide_le_eq)
  then have qt: "of_int q \<le> tt" using D dtt by linarith
  have "\<bar>n\<bar> < 2 ^ 53" using qn by simp
  then have a: "rnd (of_int n) = of_int n" by (rule rnd_int)
  have b: "rnd (of_int n / 1000000000) \<le> of_int n / 1000000000 + u \<and> of_int n / 1000000000 - u \<le> rnd (of_int n / 1000000000)"
    using rnd_close [of "of_int n / 1000000000" 1] n by simp
  have r: "rnd (of_int q) \<le> of_int q + e \<and> of_int q - e \<le> rnd (of_int q)"
    using rnd_close [of "of_int q" tt] q qt tt_ge by (simp add: e_def)
  define s0 where "s0 = rnd (of_int q) + rnd (of_int n / 1000000000)"
  have S: "dur_seconds rnd d = rnd s0"
    unfolding dur_seconds_def s0_def q_def [symmetric] n_def [symmetric] a by (simp add: nanos_per_second_def)
  have s0: "0 \<le> s0" "s0 \<le> of_int d / 1000000000 + 2 * e" "of_int d / 1000000000 - 2 * e \<le> s0"
    using b r e_bounds q n by (auto simp: s0_def D intro!: add_nonneg_nonneg rnd_nonneg)
  have "u * (tt + 2 * e) \<le> 2 * e"
  proof -
    have "u * (tt + 2 * e) = e + 2 * (u * e)" by (simp add: e_def algebra_simps)
    moreover have "u * e \<le> 1 / 1000 * e" using u_small e_bounds by (intro mult_right_mono) simp_all
    ultimately show ?thesis using e_bounds by simp
  qed
  moreover have "rnd s0 \<le> s0 + u * (tt + 2 * e) \<and> s0 - u * (tt + 2 * e) \<le> rnd s0"
    using s0 dtt tt_ge e_bounds by (intro rnd_close) simp_all
  ultimately show "dur_seconds rnd d \<le> of_int d / 1000000000 + 4 * e" "of_int d / 1000000000 - 4 * e \<le> dur_seconds rnd d"
    using s0 unfolding S by linarith+
  show "0 \<le> dur_seconds rnd d" unfolding S using s0(1) by (rule rnd_nonneg)
qed

lemma added:
  assumes "0 \<le> p"
  shows "1 \<le> rnd p \<Longrightarrow> rnd p \<le> p * (1 + 2 * u) \<and> p * (1 - 2 * u) \<le> rnd p"
    and "rnd p < 1 \<Longrightarrow> p \<le> 1 + 2 * u"
proof -
  have r: "rnd p \<le> p + u * max p 1" "p - u * max p 1 \<le> rnd p"
    using rnd_rel [of p] assms by (simp_all add: abs_le_iff)
  show "rnd p \<le> p * (1 + 2 * u) \<and> p * (1 - 2 * u) \<le> rnd p" if "1 \<le> rnd p"
  proof -
    have "1 \<le> 2 * p"
    proof (rule ccontr)
      assume "\<not> 1 \<le> 2 * p"
      then have "max p 1 = 1" "p < 1 / 2" by simp_all
      then show False using r(1) that u_small by simp
    qed
    then have "u * max p 1 \<le> u * (2 * p)" using assms u_nonneg by (intro mult_left_mono) simp_all
    with r show ?thesis by (simp add: algebra_simps)
  qed
  show "p \<le> 1 + 2 * u" if "rnd p < 1"
  proof (cases "p \<le> 1")
    case True
    then show ?thesis using u_nonneg by simp
  next
    case False
    then have "p * (1 - u) < 1" using r(2) that by (simp add: algebra_simps)
    moreover have "1 \<le> (1 + 2 * u) * (1 - u)"
    proof -
      have "u * u * 2 \<le> u" using u_nonneg u_small by (simp add: mult_le_cancel_left1 mult.assoc mult_left_le)
      then show ?thesis by (simp add: algebra_simps)
    qed
    ultimately have "p * (1 - u) < (1 + 2 * u) * (1 - u)" by linarith
    then show ?thesis using u_small by (simp add: mult_less_cancel_right)
  qed
qed

text \<open>The time consumed by a refill is the time that passed, up to a nanosecond less.\<close>

lemma consumed:
  assumes "0 \<le> d" "d \<le> ttl" "1 \<le> rnd (dur_seconds rnd d * rate)"
  shows "dur_of_seconds conv rnd (rnd (rnd (dur_seconds rnd d * rate) / rate)) \<in> {d - 1, d}"
proof -
  define S where "S = dur_seconds rnd d"
  define D :: rat where "D = of_int d / 1000000000"
  define x where "x = rnd (S * rate)"
  define y where "y = rnd (x / rate)"
  note S = seconds [OF assms(1,2), folded S_def D_def]
  have "D \<le> of_int ttl / 1000000000" using assms(2) by (simp add: D_def divide_right_mono)
  then have D: "0 \<le> D" "D \<le> tt" using assms(1) ttl_le by (simp_all add: D_def)
  have ue: "u * e \<le> 1 / 1000 * e" using u_small e_bounds by (intro mult_right_mono) simp_all
  have "u * S \<le> u * (tt + 4 * e)" using S D u_nonneg by (intro mult_left_mono) simp_all
  also have "\<dots> = e + 4 * (u * e)" by (simp add: e_def algebra_simps)
  finally have uS: "2 * (u * S) \<le> 3 * e" using ue e_bounds by linarith
  have "x \<le> S * rate * (1 + 2 * u)" "S * rate * (1 - 2 * u) \<le> x"
    using added(1) [of "S * rate"] assms(3) S(3) rate_pos by (simp_all add: x_def S_def)
  then have "x / rate \<le> S * (1 + 2 * u)" "S * (1 - 2 * u) \<le> x / rate"
    using rate_pos by (simp_all add: divide_le_eq le_divide_eq mult_ac)
  then have xr: "x / rate \<le> S + 3 * e" "S - 3 * e \<le> x / rate"
    using uS by (simp_all add: algebra_simps)
  have x0: "0 \<le> x / rate" using assms(3) rate_pos by (simp add: x_def S_def)
  have "x / rate \<le> 2 * tt" using xr S D e_bounds tt_ge by linarith
  then have "y \<le> x / rate + u * (2 * tt) \<and> x / rate - u * (2 * tt) \<le> y"
    unfolding y_def using x0 tt_ge by (intro rnd_close) simp_all
  moreover have "u * (2 * tt) = 2 * e" by (simp add: e_def)
  ultimately have y: "y \<le> D + 9 * e" "D - 9 * e \<le> y" using xr S by linarith+
  have y0: "0 \<le> y" unfolding y_def using x0 by (rule rnd_nonneg)
  define w where "w = y * 1000000000"
  have d: "(of_int d :: rat) = D * 1000000000" by (simp add: D_def)
  have w: "w \<le> of_int d + 9000000000 * e" "of_int d - 9000000000 * e \<le> w" "0 \<le> w"
    using y y0 by (simp_all add: w_def d)
  have "u * (1000000000 * (tt + 9 * e)) = 1000000000 * (e + 9 * (u * e))" by (simp add: e_def algebra_simps)
  also have "\<dots> \<le> 2000000000 * e" using ue e_bounds by (simp add: distrib_left)
  finally have err: "u * (1000000000 * (tt + 9 * e)) \<le> 2000000000 * e" .
  have "\<bar>w\<bar> \<le> 1000000000 * (tt + 9 * e)" using w D by (simp add: d)
  moreover have "1 \<le> 1000000000 * (tt + 9 * e)" using tt_ge e_bounds by simp
  ultimately have "rnd w \<le> w + u * (1000000000 * (tt + 9 * e)) \<and> w - u * (1000000000 * (tt + 9 * e)) \<le> rnd w"
    by (rule rnd_close)
  then have z: "rnd w < of_int d + 1" "of_int d - 1 < rnd w" using err w e_bounds by linarith+
  have "0 \<le> rnd w" using w(3) by (rule rnd_nonneg)
  have "(of_int d :: rat) < of_int (2 ^ 60)" using assms(2) ttl_bound by (simp only: of_int_less_iff)
  then have "rnd w < 2 ^ 63" using z by simp
  with \<open>0 \<le> rnd w\<close> have "to_int64 conv (rnd w) = \<lfloor>rnd w\<rfloor>" by (simp add: to_int64_trunc) (simp add: trunc_int_def)
  moreover have "d - 1 \<le> \<lfloor>rnd w\<rfloor>" "\<lfloor>rnd w\<rfloor> < d + 1"
    using z by linarith+
  ultimately have "to_int64 conv (rnd w) \<in> {d - 1, d}" by auto
  then show ?thesis
    by (simp add: dur_of_seconds_def nanos_per_second_def w_def y_def x_def S_def)
qed

abbreviation fill :: rat where
  "fill \<equiv> rate * (1 + eta) / 1000000000"

text \<open>A refill never raises what a bucket and the time since its last refill are worth.\<close>

lemma fill_bounds: "0 < fill" "fill \<le> eta" "rate / 1000000000 \<le> fill" "3 * u \<le> eta"
  "3 * u + (1 + eta) * (4 * e * rate) \<le> eta"
proof -
  have "0 \<le> u * (burst + 1)" "0 \<le> (1 + eta) * (4 * e * rate)" "0 \<le> eta * (2 * u)" "0 < fill"
    using u_nonneg burst_nonneg eta_pos e_bounds rate_pos by simp_all
  moreover have "3 * u + u * (burst + 1) + fill + (1 + eta) * (4 * e * rate) \<le> eta - eta * (2 * u)"
    using slack by (simp add: e_def algebra_simps)
  ultimately show "0 < fill" "fill \<le> eta" "3 * u \<le> eta" "3 * u + (1 + eta) * (4 * e * rate) \<le> eta"
    using u_nonneg by linarith+
  show "rate / 1000000000 \<le> fill" using rate_pos eta_pos by (simp add: divide_right_mono)
qed

lemma refill_level:
  assumes l: "l_rate l = rate" "l_burst l = burst" and ok: "0 \<le> b_tokens b" "b_tokens b \<le> burst"
    and d: "b_last b \<le> t" "t - b_last b \<le> ttl"
  defines "b' \<equiv> bucket_refill conv rnd l t b"
  shows "b_last b' \<le> t"
    and "b_tokens b' + fill * of_int (t - b_last b') \<le> b_tokens b + fill * of_int (t - b_last b)"
    and "b_tokens b' + fill * of_int (t - b_last b') \<le> burst + 1 + 3 * eta"
proof -
  define n where "n = t - b_last b"
  have n: "0 \<le> n" "n \<le> ttl" using d by (simp_all add: n_def)
  define S where "S = dur_seconds rnd n"
  define D :: rat where "D = of_int n / 1000000000"
  define x where "x = rnd (S * rate)"
  note S = seconds [OF n, folded S_def D_def]
  have p: "0 \<le> S * rate" using S(3) rate_pos by simp
  have fD: "fill * of_int n = (1 + eta) * (D * rate)" by (simp add: D_def)
  have Dr: "S * rate \<le> D * rate + 4 * e * rate" "D * rate \<le> S * rate + 4 * e * rate"
    using S mult_right_mono [of S "D + 4 * e" rate] mult_right_mono [of D "S + 4 * e" rate] rate_pos
    by (simp_all add: algebra_simps)
  note slack' = slack [folded mult.assoc]
  have sub: "time_Sub t (b_last b) = n" using n ttl_bound by (simp add: n_def time_Sub_le)
  have "b_last b' \<le> t
    \<and> b_tokens b' + fill * of_int (t - b_last b') \<le> b_tokens b + fill * of_int (t - b_last b)
    \<and> b_tokens b' + fill * of_int (t - b_last b') \<le> burst + 1 + 3 * eta"
  proof (cases "1 \<le> x")
    case False
    then have b': "b' = b" by (simp add: b'_def bucket_refill_def Let_def l x_def S_def sub)
    have "S * rate \<le> 1 + 2 * u" using added(2) [OF p] False by (simp add: x_def)
    then have "D * rate \<le> 1 + 2 * u + 4 * e * rate" using Dr by linarith
    then have "fill * of_int n \<le> (1 + eta) * (1 + 2 * u + 4 * e * rate)"
      unfolding fD using eta_pos by (intro mult_left_mono) simp_all
    also have "\<dots> = 1 + eta + 2 * u + 2 * (eta * u) + (1 + eta) * (4 * e * rate)" by (simp add: algebra_simps)
    also have "\<dots> \<le> 1 + 3 * eta"
    proof -
      have "eta * u \<le> u" using eta_le eta_pos u_nonneg by (simp add: mult_left_le_one_le)
      then show ?thesis using fill_bounds(4,5) u_nonneg by linarith
    qed
    finally show ?thesis using ok d by (simp add: b' n_def)
  next
    case True
    define T where "T = rnd (b_tokens b + x)"
    define m where "m = dur_of_seconds conv rnd (rnd (x / rate))"
    have b': "b_tokens b' = (if T > burst then burst else T)" "b_last b' = b_last b + m"
      using True by (simp_all add: b'_def bucket_refill_def Let_def l x_def S_def sub T_def m_def)
    have m: "m \<in> {n - 1, n}" unfolding m_def x_def S_def
      by (rule consumed [OF n]) (use True in \<open>simp add: x_def S_def\<close>)
    then have last: "t - b_last b' \<in> {0, 1}" by (auto simp: b' n_def)
    then have rest: "fill * of_int (t - b_last b') \<le> fill"
      using fill_bounds(1) by (elim insertE emptyE) (simp_all only: of_int_0 of_int_1 mult_zero_right mult_1_right less_imp_le order_refl)
    have "T \<le> b_tokens b + x + u * (burst + x)"
      using rnd_close [of "b_tokens b + x" "burst + x"] ok True by (simp add: T_def)
    moreover have "x + u * (burst + x) + fill \<le> fill * of_int n"
    proof -
      have "x \<le> S * rate * (1 + 2 * u)" using added(1) [OF p] True by (simp add: x_def)
      then have "x * (1 - 2 * u) \<le> S * rate * (1 + 2 * u) * (1 - 2 * u)"
        using u_small by (intro mult_right_mono) simp_all
      also have "\<dots> = S * rate - S * rate * (4 * (u * u))" by (simp add: algebra_simps)
      also have "\<dots> \<le> S * rate" using p u_nonneg by simp
      finally have "x * (1 - 2 * u) - 4 * e * rate \<le> D * rate" using Dr by linarith
      then have "(1 + eta) * (x * (1 - 2 * u) - 4 * e * rate) \<le> fill * of_int n"
        unfolding fD using eta_pos by (intro mult_left_mono) simp_all
      then have low: "x - 2 * (u * x) + eta * (1 - 2 * u) * x - (1 + eta) * (4 * e * rate) \<le> fill * of_int n"
        by (simp add: algebra_simps)
      define K where "K = eta * (1 - 2 * u) - 3 * u"
      have K: "u * burst + fill + (1 + eta) * (4 * e * rate) \<le> K"
        using slack u_nonneg by (simp add: K_def e_def algebra_simps)
      moreover have "0 \<le> u * burst + fill + (1 + eta) * (4 * e * rate)"
        using u_nonneg burst_nonneg fill_bounds(1) eta_pos e_bounds rate_pos by simp
      ultimately have "K \<le> K * x" using True mult_left_mono [of 1 x K] by simp
      moreover have "K * x = eta * (1 - 2 * u) * x - 3 * (u * x)" by (simp add: K_def algebra_simps)
      ultimately have "u * burst + fill + (1 + eta) * (4 * e * rate) \<le> eta * (1 - 2 * u) * x - 3 * (u * x)"
        using K by linarith
      with low show ?thesis unfolding distrib_left [of u] by linarith
    qed
    ultimately have "b_tokens b' + fill * of_int (t - b_last b') \<le> b_tokens b + fill * of_int n"
      using rest unfolding b'(1) by (auto split: if_splits)
    moreover have "b_tokens b' \<le> burst" by (simp add: b')
    ultimately show ?thesis using last rest fill_bounds(2) eta_pos by (auto simp: n_def)
  qed
  then show "b_last b' \<le> t"
    and "b_tokens b' + fill * of_int (t - b_last b') \<le> b_tokens b + fill * of_int (t - b_last b)"
    and "b_tokens b' + fill * of_int (t - b_last b') \<le> burst + 1 + 3 * eta" by simp_all
qed

end

section \<open>One call\<close>

definition mono_times :: "(rat \<Rightarrow> rat) \<Rightarrow> rat \<Rightarrow> rat \<Rightarrow> int \<Rightarrow> mono_limiter \<Rightarrow> int \<Rightarrow> bool" where
  "mono_times rnd rate burst ttl l t \<longleftrightarrow>
     l_rate l = rate \<and> l_burst l = burst \<and> l_ttl l = ttl \<and> mono_inv rnd l
     \<and> (\<forall>k b. buckets l k = Some b \<longrightarrow> b_last b \<le> t)"

context mono_float
begin

abbreviation times :: "mono_limiter \<Rightarrow> int \<Rightarrow> bool" where
  "times \<equiv> mono_times rnd rate burst ttl"

abbreviation level :: "mono_limiter \<Rightarrow> string \<Rightarrow> int \<Rightarrow> rat" where
  "level \<equiv> mono_level (rate * (1 + eta))"

abbreviation unit :: rat where
  "unit \<equiv> 1 - u * (burst + 1)"

lemma unit_pos: "0 < unit"
  using burst_small by simp

lemma level_bucket: "level l k t = b_tokens (bucket_fetch l t k) + fill * of_int (t - b_last (bucket_fetch l t k))"
  by (simp add: mono_level_def nanos_per_second_def Let_def)

lemma ready_level:
  fixes k :: string
  assumes "times l t"
  defines "b \<equiv> bucket_ready conv rnd l t k"
  shows "b_last b \<le> t"
    and "b_tokens b + fill * of_int (t - b_last b) \<le> level l k t"
    and "b_tokens b + fill * of_int (t - b_last b) \<le> burst + 1 + 3 * eta"
    and "0 \<le> b_tokens b" "b_tokens b \<le> burst"
proof -
  define b0 where "b0 = bucket_fetch l t k"
  define b1 where "b1 = bucket_evict l t b0"
  have l: "l_rate l = rate" "l_burst l = burst" "l_ttl l = ttl" and inv: "mono_inv rnd l"
    using assms(1) by (simp_all add: mono_times_def)
  have b0: "b_last b0 \<le> t" "0 \<le> b_tokens b0" "b_tokens b0 \<le> burst"
    using assms(1) by (auto simp: b0_def bucket_fetch_def mono_times_def mono_inv_def bucket_ok_def split: option.splits)
  have "burst \<le> b_tokens b0 + fill * of_int (t - b_last b0)" if "t - b_last b0 > ttl"
  proof -
    have "rate / 1000000000 * of_int ttl \<le> rate / 1000000000 * of_int (t - b_last b0)"
      using that rate_pos by (intro mult_left_mono) simp_all
    also have "\<dots> \<le> fill * of_int (t - b_last b0)"
      using fill_bounds(3) b0(1) by (intro mult_right_mono) simp_all
    finally show ?thesis using ttl_refills b0(2) by linarith
  qed
  then have b1: "b_last b1 \<le> t" "0 \<le> b_tokens b1" "b_tokens b1 \<le> burst" "t - b_last b1 \<le> max ttl 0"
      "b_tokens b1 + fill * of_int (t - b_last b1) \<le> b_tokens b0 + fill * of_int (t - b_last b0)"
    using b0 burst_nonneg ttl_bound by (auto simp: b1_def bucket_evict_def l time_Sub_exceeds)
  have "0 \<le> rate / 1000000000 * of_int ttl" using ttl_refills burst_nonneg by linarith
  then have "0 \<le> ttl" using rate_pos by (simp add: zero_le_mult_iff)
  then have d: "t - b_last b1 \<le> ttl" using b1(4) by simp
  have b: "b = bucket_refill conv rnd l t b1" by (simp add: b_def bucket_ready_def b1_def b0_def)
  note ref = refill_level [OF l(1,2) b1(2,3,1) d, folded b]
  show "b_last b \<le> t" "b_tokens b + fill * of_int (t - b_last b) \<le> burst + 1 + 3 * eta" by (rule ref)+
  show "b_tokens b + fill * of_int (t - b_last b) \<le> level l k t"
    using ref(2) b1(5) unfolding level_bucket b0_def [symmetric] by linarith
  show "0 \<le> b_tokens b" "b_tokens b \<le> burst"
    using bucket_ready_ok [OF inv, of conv t k] l by (simp_all add: b_def bucket_ok_def)
qed

lemma allow_level:
  assumes "times l t" "mono_Allow conv rnd t k l = (r, l')"
  shows "times l' t"
    and "level l' k t + unit * of_bool (Decision r = DecisionAllow) \<le> min (burst + 1 + 3 * eta) (level l k t)"
    and "k' \<noteq> k \<Longrightarrow> level l' k' t = level l k' t"
proof -
  define b where "b = bucket_ready conv rnd l t k"
  note lev = ready_level [OF assms(1), of k, folded b_def]
  have inv: "mono_inv rnd l'"
    using mono_Allow_inv [OF _ assms(2)] assms(1) by (simp add: mono_times_def)
  then show "times l' t"
    using assms lev(1) by (auto simp: mono_times_def mono_Allow_def Let_def b_def split: if_splits)
  have "rnd (b_tokens b - 1) \<le> b_tokens b - 1 + u * (burst + 1)"
    using rnd_close [of "b_tokens b - 1" "burst + 1"] lev(4,5) burst_nonneg by (simp add: abs_le_iff)
  then show "level l' k t + unit * of_bool (Decision r = DecisionAllow) \<le> min (burst + 1 + 3 * eta) (level l k t)"
    using assms(2) lev(2,3)
    by (auto simp: mono_Allow_def Let_def level_bucket [of l'] bucket_fetch_def b_def [symmetric] split: if_splits)
  show "level l' k' t = level l k' t" if "k' \<noteq> k"
    using assms(2) that
    by (auto simp: mono_Allow_def Let_def mono_level_def bucket_fetch_def split: if_splits option.splits)
qed

end

sublocale mono_float \<subseteq> metered "mono_Allow conv rnd" "mono_times rnd rate burst ttl"
    "\<lambda>l k t. mono_level (rate * (1 + eta)) l k t / unit" "fill / unit" "(burst + 1 + 3 * eta) / unit" "\<lambda>_. True"
proof unfold_locales
  fix l t t' k k' r l'
  note pos = unit_pos
  show "times l t \<Longrightarrow> mono_Allow conv rnd t k l = (r, l') \<Longrightarrow> times l' t"
    by (rule allow_level(1))
  show "times l t \<Longrightarrow> t \<le> t' \<Longrightarrow> times l t'"
    by (fastforce simp: mono_times_def)
  show "0 \<le> level l k t / unit" if "times l t"
  proof -
    have "0 \<le> b_tokens (bucket_fetch l t k)" "b_last (bucket_fetch l t k) \<le> t"
      using that by (auto simp: bucket_fetch_def mono_times_def mono_inv_def bucket_ok_def split: option.splits)
    then have "0 \<le> level l k t" unfolding level_bucket using fill_bounds(1) by (intro add_nonneg_nonneg mult_nonneg_nonneg) simp_all
    then show ?thesis using pos by simp
  qed
  show "level l' k t / unit + 1 \<le> level l k t / unit"
    if "times l t" "mono_Allow conv rnd t k l = (r, l')" "Decision r = DecisionAllow"
  proof -
    have "(level l' k t + unit) / unit \<le> level l k t / unit"
      using allow_level(2) [OF that(1,2)] that(3) pos by (intro divide_right_mono) simp_all
    then show ?thesis using pos by (simp add: add_divide_distrib)
  qed
  show "level l' k t / unit \<le> level l k t / unit"
    if "times l t" "mono_Allow conv rnd t k l = (r, l')" "Decision r = DecisionDeny"
    using allow_level(2) [OF that(1,2)] that(3) pos by (simp add: divide_right_mono)
  show "level l' k t / unit = level l k t / unit"
    if "times l t" "mono_Allow conv rnd t k' l = (r, l')" "k' \<noteq> k"
    using allow_level(3) [OF that(1,2)] that(3) by auto
  show "level l k t' / unit \<le> level l k t / unit + fill / unit * of_int (t' - t)"
    if "times l t" "t \<le> t'"
  proof -
    have "level l k t' \<le> level l k t + fill * of_int (t' - t)"
    proof -
      define f where "f = fill"
      have "0 \<le> f * of_int (t' - t)" using fill_bounds(1) that(2) by (simp add: f_def)
      then show ?thesis
        unfolding level_bucket f_def [symmetric]
        by (cases "buckets l k") (simp_all add: bucket_fetch_def algebra_simps)
    qed
    then have "level l k t' / unit \<le> (level l k t + fill * of_int (t' - t)) / unit"
      using pos by (intro divide_right_mono) simp_all
    then show ?thesis by (simp add: add_divide_distrib)
  qed
  show "level l' k t / unit + (if Decision r = DecisionAllow then 1 else 0) \<le> (burst + 1 + 3 * eta) / unit"
    if "times l t" "mono_Allow conv rnd t k l = (r, l')"
  proof -
    have "(level l' k t + unit * of_bool (Decision r = DecisionAllow)) / unit \<le> (burst + 1 + 3 * eta) / unit"
      using allow_level(2) [OF that] pos by (intro divide_right_mono) simp_all
    then show ?thesis using pos by (cases "Decision r") (simp_all add: add_divide_distrib)
  qed
qed (use unit_pos fill_bounds(1) burst_nonneg eta_pos in simp_all)

context mono_float
begin

lemmas window_cap = count_le_cap
lemmas past_times = run_tinv

end

text \<open>The code's arithmetic, for any rate up to a thousand calls a second, bursts up to a million and a
  timeout up to an hour: \<open>eta\<close> is a hundred-thousandth.\<close>

lemma float_config:
  assumes "0 < rate" "rate \<le> 1000" "0 \<le> burst" "burst \<le> 1000000" "ttl \<le> 3600000000000"
    and "of_int burst \<le> rate / of_int nanos_per_second * of_int ttl"
  shows "mono_float f64 (1 / 2 ^ 53) rate (of_int burst) ttl (1 / 100000) 3600"
proof unfold_locales
  have b: "0 \<le> (of_int burst :: rat)" "of_int burst \<le> (1000000 :: rat)" using assms(3,4) by simp_all
  show "f64 (of_int burst) = of_int burst" using assms(3,4) by (intro f64_of_int) simp
  have "(of_int ttl :: rat) \<le> of_int 3600000000000" using assms(5) by (simp only: of_int_le_iff)
  then show "of_int ttl / 1000000000 \<le> (3600 :: rat)" by simp
  show "3 * (1 / 2 ^ 53) + 1 / 2 ^ 53 * (of_int burst + 1) + rate / 1000000000 * (1 + 1 / 100000)
      + (1 + 1 / 100000) * (4 * (1 / 2 ^ 53) * 3600 * rate) \<le> 1 / 100000 * (1 - 2 * (1 / 2 ^ 53))"
    using assms(2) b(2) by (simp add: field_simps del: of_int_le_numeral_iff)
  show "1 / 2 ^ 53 * (of_int burst + 1) \<le> (1 / 2 :: rat)" using b by simp
qed (use assms in \<open>simp_all add: nanos_per_second_def\<close>)

text \<open>The shipped configuration.\<close>

interpretation mono_shipped: mono_float f64 "1 / 2 ^ 53" conv "f64 (6/5)" 12 30000000000 "1 / 100000" 3600 for conv
proof -
  have "of_int 12 \<le> f64 (6/5) / of_int nanos_per_second * of_int 30000000000" "0 < f64 (6/5)" "f64 (6/5) \<le> 1000"
    by code_simp+
  from float_config [OF this(2,3) _ _ _ this(1)] show
    "mono_float f64 (1 / 2 ^ 53) (f64 (6/5)) 12 30000000000 (1 / 100000) 3600" by simp
qed

section \<open>Properties\<close>

text \<open>C12. The rate bound of the in-memory limiter in the arithmetic of the code: for a rate up to a thousand
  calls a second, a burst up to a million and an idle timeout up to an hour that leaves time for a full
  refill, after any past calls a key is allowed in any window at most \<open>burst + 1\<close> calls plus the rate
  times the length of the window, up to a thousandth of a call and a ten-thousandth of the rate that
  rounding may add.\<close>

theorem mono_rate_float:
  assumes "0 < rate" "rate \<le> 1000" "0 \<le> burst" "burst \<le> 1000000" "ttl \<le> 3600000000000"
    and "of_int burst \<le> rate / of_int nanos_per_second * of_int ttl"
    and "calls_within s0 t0 past" "calls_within t0 t1 cs"
  shows "of_nat (count_allowed (mono_Allow conv f64)
            (snd (run_calls (mono_Allow conv f64) (mono_new f64 rate burst ttl) past)) k cs)
          \<le> of_int burst + 1 + 1 / 1000 + (1 + 1 / 10000) * (rate / of_int nanos_per_second * of_int (t1 - t0))"
proof -
  have cfg: "mono_float f64 (1 / 2 ^ 53) rate (of_int burst) ttl (1 / 100000) 3600"
    using assms(1-6) by (rule float_config)
  define b :: rat where "b = of_int burst"
  define w where "w = rate / 1000000000 * of_int (t1 - t0)"
  have b: "0 \<le> b" "b \<le> 1000000" using assms(3,4) by (simp_all add: b_def)
  have w: "0 \<le> w" using assms(1) calls_within_le [OF assms(8)] by (simp add: w_def)
  have "mono_times f64 rate b ttl (mono_new f64 rate burst ttl) s0"
    using assms(1-4) f64_of_int [of burst] by (simp add: mono_times_def mono_inv_def mono_new_def b_def)
  from mono_float.window_cap [OF cfg mono_float.past_times [OF cfg this [unfolded b_def] assms(7) TrueI] assms(8) TrueI, where k = k and conv = conv]
  have "of_nat (count_allowed (mono_Allow conv f64)
            (snd (run_calls (mono_Allow conv f64) (mono_new f64 rate burst ttl) past)) k cs)
      \<le> (b + 1 + 3 * (1 / 100000)) / (1 - 1 / 2 ^ 53 * (b + 1))
        + rate * (1 + 1 / 100000) / 1000000000 / (1 - 1 / 2 ^ 53 * (b + 1)) * of_int (t1 - t0)"
    by (simp only: b_def)
  also have "\<dots> = (b + 1 + 3 * (1 / 100000) + (1 + 1 / 100000) * w) / (1 - 1 / 2 ^ 53 * (b + 1))"
    by (simp add: w_def add_divide_distrib algebra_simps)
  also have "\<dots> \<le> (b + 1 + 3 * (1 / 100000) + (1 + 1 / 100000) * w) / (1 - 1 / 2000000000)"
    using b w by (intro divide_left_mono mult_pos_pos add_nonneg_nonneg) simp_all
  also have "\<dots> \<le> b + 1 + 1 / 1000 + (1 + 1 / 10000) * w"
    using b w by (simp add: field_simps)
  finally show ?thesis by (simp add: b_def w_def nanos_per_second_def)
qed

theorem mono_rate_float_witness:
  "count_allowed (mono_Allow conv_amd64 f64) (mono_new f64 (6/5) 12 30000000000) ''a'' (replicate 40 (1000000000, ''a'')) \<le> 13"
proof -
  have "calls_within t t (replicate n (t, k))" for t n and k :: string by (induction n) auto
  then have "of_nat (count_allowed (mono_Allow conv_amd64 f64) (mono_new f64 (6/5) 12 30000000000) ''a''
        (replicate 40 (1000000000, ''a''))) \<le> 13 + 1 / (1000 :: rat)"
    using mono_rate_float [where rate = "6/5" and burst = 12 and ttl = 30000000000 and ?s0.0 = 0 and ?t0.0 = 1000000000
        and past = "[]" and ?t1.0 = 1000000000 and cs = "replicate 40 (1000000000, ''a'')" and k = "''a''"
        and conv = conv_amd64]
    by (simp add: nanos_per_second_def)
  then have "of_nat (count_allowed (mono_Allow conv_amd64 f64) (mono_new f64 (6/5) 12 30000000000) ''a''
        (replicate 40 (1000000000, ''a''))) < (of_nat 14 :: rat)" by simp
  then show ?thesis by (simp only: of_nat_less_iff)
qed

end
