(* ===== verification/Redis_Store.thy ===== *)
theory Redis_Store
  imports Prelude
begin

text \<open>
  Redis is not part of the repository: the components that use it take its two operations as
  parameters, a read of a key at a time and a write of a key at a time with a time to live in
  milliseconds (0 for no expiry). The locale \<open>kv_store\<close> states the documented behaviour they rely
  on: a written value is read back until it expires, is gone from then on, other keys are not
  touched, and time alone only removes entries. \<open>ref_get\<close> and \<open>ref_set\<close> are an expiring map with
  this behaviour, on which the theorems are instantiated. Times are nanoseconds.
\<close>

definition nanos_per_milli :: int where
  "nanos_per_milli = 1000000"

locale kv_store =
  fixes kv_get :: "'s \<Rightarrow> int \<Rightarrow> string \<Rightarrow> 'v option"
    and kv_set :: "'s \<Rightarrow> int \<Rightarrow> string \<Rightarrow> 'v \<Rightarrow> int \<Rightarrow> 's"
  assumes get_set_live: "t \<le> t' \<Longrightarrow> ttl = 0 \<or> t' < t + ttl * nanos_per_milli \<Longrightarrow>
                           kv_get (kv_set s t k v ttl) t' k = Some v"
    and get_set_expired: "0 < ttl \<Longrightarrow> t + ttl * nanos_per_milli \<le> t' \<Longrightarrow>
                           kv_get (kv_set s t k v ttl) t' k = None"
    and get_set_other: "k' \<noteq> k \<Longrightarrow> kv_get (kv_set s t k v ttl) t' k' = kv_get s t' k'"
    and get_later_none: "t \<le> t' \<Longrightarrow> kv_get s t k = None \<Longrightarrow> kv_get s t' k = None"
    and get_later_some: "t \<le> t' \<Longrightarrow> kv_get s t k = Some v \<Longrightarrow>
                           kv_get s t' k = Some v \<or> kv_get s t' k = None"
begin

lemma get_earlier: "t \<le> t' \<Longrightarrow> kv_get s t' k = Some v \<Longrightarrow> kv_get s t k = Some v"
  using get_later_none [of t t' s k] get_later_some [of t t' s k]
  by (cases "kv_get s t k") auto

lemma get_set_now: "0 \<le> ttl \<Longrightarrow> kv_get (kv_set s t k v ttl) t k = Some v"
  by (cases "ttl = 0") (auto intro: get_set_live simp: nanos_per_milli_def)

lemma get_set_from:
  "0 \<le> ttl \<Longrightarrow> t \<le> t' \<Longrightarrow> kv_get (kv_set s t k v ttl) t' k = Some w \<Longrightarrow> w = v"
  using get_set_now [of ttl s t k v] get_earlier [of t t' "kv_set s t k v ttl" k w] by simp

end

section \<open>A reference store\<close>

text \<open>A value with the time at which it expires, if it does.\<close>

type_synonym 'v ref_store = "string \<rightharpoonup> 'v \<times> int option"

definition ref_get :: "'v ref_store \<Rightarrow> int \<Rightarrow> string \<Rightarrow> 'v option" where
  "ref_get s t k =
     (case s k of None \<Rightarrow> None
      | Some (v, None) \<Rightarrow> Some v
      | Some (v, Some e) \<Rightarrow> if t < e then Some v else None)"

definition ref_set :: "'v ref_store \<Rightarrow> int \<Rightarrow> string \<Rightarrow> 'v \<Rightarrow> int \<Rightarrow> 'v ref_store" where
  "ref_set s t k v ttl = s(k \<mapsto> (v, if ttl = 0 then None else Some (t + ttl * nanos_per_milli)))"

interpretation ref: kv_store ref_get ref_set
  by unfold_locales
     (auto simp: ref_get_def ref_set_def split: option.splits if_splits)

end
