(* ===== verification/Redis_Limiter.thy ===== *)
theory Redis_Limiter
  imports Limiter Redis_Store
begin

text \<open>
  The distributed limiter of \<open>internal/ratelimit/redis_limiter.go\<close> and its script
  \<open>internal/ratelimit/gcra.lua\<close> (the generic cell rate algorithm). The script keeps one number per
  key, the theoretical arrival time. Lua numbers are doubles, so the script is written over the
  rounding function, as the in-memory limiter is; Redis runs it atomically and truncates the
  numbers it returns. The store is a parameter (\<open>Redis_Store\<close>).

  Shown: with Redis down every call is allowed; a denial carries a delay that is not negative; and
  the bound on the calls allowed in any window, for the script's doubles and, with the same proof, on
  exact numbers, when an entry lives at least as long as a full burst takes to drain.
\<close>

record gcra_config =
  g_rate :: rat
  g_burst :: rat
  g_ttl :: int

definition redis_new :: "(rat \<Rightarrow> rat) \<Rightarrow> rat \<Rightarrow> int \<Rightarrow> int \<Rightarrow> gcra_config" where
  "redis_new rnd rate burst ttl = \<lparr>g_rate = rate, g_burst = rnd (of_int burst), g_ttl = ttl\<rparr>"

text \<open>\<open>Duration.Milliseconds\<close>.\<close>

definition dur_millis :: "int \<Rightarrow> int" where
  "dur_millis d = d sdiv nanos_per_milli"

section \<open>The script\<close>

definition gcra_interval :: "(rat \<Rightarrow> rat) \<Rightarrow> rat \<Rightarrow> rat" where
  "gcra_interval rnd rate = rnd (1000000000 / rate)"

definition gcra_offset :: "(rat \<Rightarrow> rat) \<Rightarrow> rat \<Rightarrow> rat \<Rightarrow> rat" where
  "gcra_offset rnd rate burst = rnd (gcra_interval rnd rate * burst)"

text \<open>The script's result: the allowed flag and the second number, truncated.\<close>

definition gcra_script ::
    "('s \<Rightarrow> int \<Rightarrow> string \<Rightarrow> rat option) \<Rightarrow> ('s \<Rightarrow> int \<Rightarrow> string \<Rightarrow> rat \<Rightarrow> int \<Rightarrow> 's) \<Rightarrow> (rat \<Rightarrow> rat) \<Rightarrow>
     string \<Rightarrow> rat \<Rightarrow> rat \<Rightarrow> int \<Rightarrow> int \<Rightarrow> 's \<Rightarrow> (int \<times> int) \<times> 's" where
  "gcra_script kv_get kv_set rnd key rate burst clock ttl s =
     (let now = rnd (of_int clock);
          burst_offset = gcra_offset rnd rate burst;
          tat = (case kv_get s clock key of None \<Rightarrow> now | Some x \<Rightarrow> x);
          new_tat = rnd (max tat now + gcra_interval rnd rate);
          allow_at = rnd (new_tat - burst_offset)
      in if now < allow_at then ((0, trunc_int (rnd (allow_at - now))), s)
         else ((1, trunc_int new_tat), kv_set s clock key new_tat ttl))"

section \<open>Allow\<close>

definition ratelimit_key :: "string \<Rightarrow> string" where
  "ratelimit_key key = ''ratelimit:'' @ key"

text \<open>\<open>up\<close> tells whether the script ran: an error of the client allows the call.\<close>

definition redis_Allow ::
    "('s \<Rightarrow> int \<Rightarrow> string \<Rightarrow> rat option) \<Rightarrow> ('s \<Rightarrow> int \<Rightarrow> string \<Rightarrow> rat \<Rightarrow> int \<Rightarrow> 's) \<Rightarrow> (rat \<Rightarrow> rat) \<Rightarrow>
     gcra_config \<Rightarrow> bool \<Rightarrow> int \<Rightarrow> string \<Rightarrow> 's \<Rightarrow> rl_result \<times> 's" where
  "redis_Allow kv_get kv_set rnd cfg up now key s =
     (if \<not> up then (allow_result, s)
      else (let ((allowed, value1), s') =
                  gcra_script kv_get kv_set rnd (ratelimit_key key) (g_rate cfg) (g_burst cfg) now
                    (dur_millis (g_ttl cfg)) s
            in if allowed = 0 then (deny_result value1, s') else (allow_result, s')))"

lemma ratelimit_key_inj [simp]: "ratelimit_key k = ratelimit_key k' \<longleftrightarrow> k = k'"
  by (simp add: ratelimit_key_def)

context rounding
begin

lemma gcra_script_retry:
  "gcra_script kv_get kv_set rnd key rate burst clock ttl s = ((flag, value1), s') \<Longrightarrow>
     flag = 1 \<or> flag = 0 \<and> 0 \<le> value1 \<and> s' = s"
  by (auto simp: gcra_script_def Let_def intro!: trunc_int_nonneg rnd_nonneg split: if_splits)

lemma redis_Allow_ok:
  assumes "redis_Allow kv_get kv_set rnd cfg up now key s = (r, s')"
  shows "result_ok r"
proof -
  obtain flag v s1 where
    g: "gcra_script kv_get kv_set rnd (ratelimit_key key) (g_rate cfg) (g_burst cfg) now
          (dur_millis (g_ttl cfg)) s = ((flag, v), s1)"
    by (metis surj_pair)
  from gcra_script_retry [OF g] assms show ?thesis
    by (auto simp: redis_Allow_def g result_ok_def split: if_splits)
qed

end

interpretation gcra: limiter "redis_Allow kv_get kv_set f64 cfg up" "\<lambda>_. True"
  for kv_get :: "'s \<Rightarrow> int \<Rightarrow> string \<Rightarrow> rat option" and kv_set cfg up
  by unfold_locales (auto intro: float64.redis_Allow_ok)

section \<open>The rate bound\<close>

text \<open>
  How many intervals of \<open>J\<close> fit between the arrival time kept for a key and the time \<open>D\<close> ahead. With
  \<open>D\<close> the burst's drain time and \<open>J\<close> the emission interval these are the tokens of the key; the error
  of the arithmetic adds to the one and takes from the other.
\<close>

definition gcra_level :: "('s \<Rightarrow> int \<Rightarrow> string \<Rightarrow> rat option) \<Rightarrow> rat \<Rightarrow> rat \<Rightarrow> 's \<Rightarrow> string \<Rightarrow> int \<Rightarrow> rat" where
  "gcra_level kv_get D J s key t =
     (D - (case kv_get s t (ratelimit_key key) of None \<Rightarrow> 0 | Some tat \<Rightarrow> max tat (of_int t) - of_int t)) / J"

lemma level_arith:
  "0 < g \<Longrightarrow> (d - (a + g - t)) / g = (d - (a - t)) / g - 1"
  "(x + w) / g = x / g + 1 / g * w" for g :: rat
  by (simp_all add: field_simps add_divide_distrib)

text \<open>An arrival time is at most \<open>D\<close> ahead, and an entry does not expire before it is reached.\<close>

definition gcra_inv :: "('s \<Rightarrow> int \<Rightarrow> string \<Rightarrow> rat option) \<Rightarrow> int \<Rightarrow> rat \<Rightarrow> 's \<Rightarrow> int \<Rightarrow> bool" where
  "gcra_inv kv_get horizon D s t \<longleftrightarrow>
     \<bar>t\<bar> \<le> horizon
     \<and> (\<forall>k tat. kv_get s t (ratelimit_key k) = Some tat \<longrightarrow>
        tat \<le> of_int t + D
        \<and> (\<forall>t' \<ge> t. kv_get s t' (ratelimit_key k) = None \<longrightarrow> tat \<le> of_int t'))"

text \<open>
  A configuration on arithmetic that moves a result by at most \<open>eps\<close>: times stay within the horizon,
  and an interval is longer than what two operations may lose of it.
\<close>

locale gcra_config_ok = kv_store kv_get kv_set + rounding_upto rnd eps bound
  for kv_get :: "'s \<Rightarrow> int \<Rightarrow> string \<Rightarrow> rat option" and kv_set and rnd :: "rat \<Rightarrow> rat" and eps bound +
  fixes rate burst :: rat and ttl horizon :: int
  assumes interval_pos: "2 * eps < gcra_interval rnd rate"
    and offset_nonneg: "0 \<le> gcra_offset rnd rate burst"
    and ttl_pos: "0 < dur_millis ttl"
    and ttl_drains: "gcra_offset rnd rate burst + 2 * eps \<le> of_int (dur_millis ttl * nanos_per_milli)"
    and in_range: "of_int horizon + gcra_offset rnd rate burst + gcra_interval rnd rate + 4 * eps < bound"
begin

abbreviation gcra_allow :: "'s allow_fun" where
  "gcra_allow \<equiv> redis_Allow kv_get kv_set rnd \<lparr>g_rate = rate, g_burst = burst, g_ttl = ttl\<rparr> True"

abbreviation drain :: rat where
  "drain \<equiv> gcra_offset rnd rate burst + 2 * eps"

abbreviation gap :: rat where
  "gap \<equiv> gcra_interval rnd rate - 2 * eps"

abbreviation inv :: "'s \<Rightarrow> int \<Rightarrow> bool" where
  "inv \<equiv> gcra_inv kv_get horizon drain"

abbreviation level :: "'s \<Rightarrow> string \<Rightarrow> int \<Rightarrow> rat" where
  "level \<equiv> gcra_level kv_get drain gap"

abbreviation arrival :: "'s \<Rightarrow> string \<Rightarrow> int \<Rightarrow> rat" where
  "arrival s k t \<equiv> max (case kv_get s t (ratelimit_key k) of None \<Rightarrow> of_int t | Some x \<Rightarrow> x) (of_int t)"

lemma gap_pos: "0 < gap"
  using interval_pos by simp

lemma drain_nonneg: "0 \<le> drain"
  using offset_nonneg eps_nonneg by simp

lemma inv_later: "inv s t \<Longrightarrow> t \<le> t' \<Longrightarrow> t' \<le> horizon \<Longrightarrow> inv s t'"
  unfolding gcra_inv_def
  by (smt (verit) add_mono_thms_linordered_semiring(3) get_earlier of_int_le_iff order_trans)

lemma arrival_le:
  assumes "inv s t"
  shows "arrival s k t \<le> of_int t + drain"
  using assms drain_nonneg by (auto simp: gcra_inv_def split: option.split)

text \<open>One call: a denial leaves the store; else the arrival time moves by at least a gap.\<close>

lemma allow_cases:
  assumes "inv s t" "gcra_allow t k s = (r, s')"
  obtains "Decision r = DecisionDeny" "s' = s"
    | new where "Decision r = DecisionAllow" "s' = kv_set s t (ratelimit_key k) new (dur_millis ttl)"
        "arrival s k t + gap \<le> new" "new \<le> of_int t + drain"
proof -
  define now where "now = rnd (of_int t)"
  define a where "a = max (case kv_get s t (ratelimit_key k) of None \<Rightarrow> now | Some x \<Rightarrow> x) now"
  define off where "off = gcra_offset rnd rate burst"
  define I where "I = gcra_interval rnd rate"
  note bounds = in_range interval_pos offset_nonneg eps_nonneg
  have "\<bar>t\<bar> \<le> horizon" using assms(1) by (simp add: gcra_inv_def)
  then have t: "\<bar>of_int t :: rat\<bar> \<le> of_int horizon" by (simp flip: of_int_abs)
  with bounds have now: "now \<le> of_int t + eps" "of_int t - eps \<le> now"
    using rnd_near [of "of_int t"] by (simp_all add: now_def)
  have a: "arrival s k t - eps \<le> a" "a \<le> of_int t + drain"
    using now arrival_le [OF assms(1), of k] eps_nonneg offset_nonneg
    by (auto simp: a_def split: option.splits)
  then have a_lo: "of_int t - eps \<le> a" by simp
  have "\<bar>a + I\<bar> < bound" using a(2) a_lo bounds t by (simp add: I_def abs_less_iff abs_le_iff)
  from rnd_near [OF this] have new: "rnd (a + I) \<le> a + I + eps" "a + I - eps \<le> rnd (a + I)" by simp_all
  have "\<bar>rnd (a + I) - off\<bar> < bound"
    using new a(2) a_lo bounds t by (simp add: I_def off_def abs_less_iff abs_le_iff)
  from rnd_near [OF this] have at: "rnd (a + I) - off - eps \<le> rnd (rnd (a + I) - off)" by simp
  have resp: "(r, s') = (if now < rnd (rnd (a + I) - off) then (deny_result (trunc_int (rnd (rnd (rnd (a + I) - off) - now))), s)
      else (allow_result, kv_set s t (ratelimit_key k) (rnd (a + I)) (dur_millis ttl)))"
    using assms(2) unfolding a_def now_def off_def I_def
    by (auto simp: redis_Allow_def gcra_script_def Let_def split: if_splits)
  show ?thesis
  proof (cases "now < rnd (rnd (a + I) - off)")
    case True
    with resp that(1) show ?thesis by simp
  next
    case False
    with at now have "rnd (a + I) \<le> of_int t + drain" by (simp add: off_def)
    moreover have "arrival s k t + gap \<le> rnd (a + I)" using a(1) new(2) by (simp add: I_def)
    ultimately show ?thesis using resp False by (intro that(2)) simp_all
  qed
qed

lemma level_eq: "level s k t = (drain - (arrival s k t - of_int t)) / gap"
  by (simp add: gcra_level_def split: option.splits)

lemma level_le: "level s k t \<le> drain / gap"
  using gap_pos by (simp add: level_eq divide_right_mono)

lemma level_nonneg: "inv s t \<Longrightarrow> 0 \<le> level s k t"
  using arrival_le [of s t k] gap_pos unfolding level_eq by (intro divide_nonneg_pos) linarith+

lemma inv_allow:
  assumes i: "inv s t" and call: "gcra_allow t k s = (r, s')"
  shows "inv s' t"
  using i call
proof (rule allow_cases)
  assume "s' = s"
  with i show ?thesis by simp
next
  fix new
  assume s': "s' = kv_set s t (ratelimit_key k) new (dur_millis ttl)" and le: "new \<le> of_int t + drain"
  have gone: "new \<le> of_int t'" if "t \<le> t'" "kv_get s' t' (ratelimit_key k) = None" for t'
  proof -
    have "t + dur_millis ttl * nanos_per_milli \<le> t'"
      using get_set_live [OF that(1), of "dur_millis ttl" s "ratelimit_key k" new] that(2)
      by (fastforce simp: s' not_less)
    then have "of_int t + of_int (dur_millis ttl * nanos_per_milli) \<le> (of_int t' :: rat)"
      by (simp only: of_int_le_iff flip: of_int_add)
    with le ttl_drains show ?thesis by linarith
  qed
  have "tat \<le> of_int t + drain \<and> (\<forall>t' \<ge> t. kv_get s' t' (ratelimit_key k') = None \<longrightarrow> tat \<le> of_int t')"
    if g: "kv_get s' t (ratelimit_key k') = Some tat" for k' tat
  proof (cases "k' = k")
    case True
    with g have "tat = new" using get_set_now [of "dur_millis ttl" s t] ttl_pos by (simp add: s')
    with le gone True show ?thesis by simp
  next
    case False
    then have "kv_get s' t' (ratelimit_key k') = kv_get s t' (ratelimit_key k')" for t'
      by (simp add: s' get_set_other)
    with i g show ?thesis by (simp add: gcra_inv_def)
  qed
  with i show ?thesis by (simp add: gcra_inv_def)
qed

lemma allow_level:
  assumes i: "inv s t" and call: "gcra_allow t k s = (r, s')"
  shows "level s' k t + of_bool (Decision r = DecisionAllow) \<le> level s k t"
    and "k' \<noteq> k \<Longrightarrow> level s' k' t = level s k' t"
proof -
  show "level s' k t + of_bool (Decision r = DecisionAllow) \<le> level s k t"
    using i call
  proof (rule allow_cases)
    fix new
    assume r: "Decision r = DecisionAllow" and s': "s' = kv_set s t (ratelimit_key k) new (dur_millis ttl)"
      and new: "arrival s k t + gap \<le> new"
    have "arrival s' k t = new"
      using get_set_now [of "dur_millis ttl" s t "ratelimit_key k" new] ttl_pos new gap_pos by (simp add: s')
    then have "level s' k t \<le> (drain - (arrival s k t + gap - of_int t)) / gap"
      using new gap_pos unfolding level_eq by (intro divide_right_mono) simp_all
    also have "\<dots> = level s k t - 1" unfolding level_eq by (rule level_arith(1) [OF gap_pos])
    finally show ?thesis using r by simp
  qed simp
  show "level s' k' t = level s k' t" if "k' \<noteq> k"
    using i call by (rule allow_cases) (use that in \<open>simp_all add: level_eq get_set_other\<close>)
qed

lemma level_later:
  assumes i: "inv s t" and le: "t \<le> t'"
  shows "level s k t' \<le> level s k t + 1 / gap * of_int (t' - t)"
proof -
  have le': "(of_int t :: rat) \<le> of_int t'" using le by simp
  have "arrival s k t - of_int t \<le> arrival s k t' - of_int t' + of_int (t' - t)"
  proof (cases "kv_get s t' (ratelimit_key k)")
    case (Some x)
    with get_earlier [OF le Some] le' show ?thesis by auto
  next
    case None
    then show ?thesis
      using i le le' by (auto simp: gcra_inv_def split: option.splits)
  qed
  then have "(drain - (arrival s k t' - of_int t')) / gap \<le> (drain - (arrival s k t - of_int t) + of_int (t' - t)) / gap"
    using gap_pos by (intro divide_right_mono) simp_all
  then show ?thesis unfolding level_eq level_arith(2) .
qed

end

sublocale gcra_config_ok \<subseteq> metered gcra_allow inv level "1 / gap" "drain / gap" "\<lambda>t. t \<le> horizon"
proof unfold_locales
  fix s s' :: 's and t t' k k' r
  show "inv s t \<Longrightarrow> gcra_allow t k s = (r, s') \<Longrightarrow> inv s' t"
    by (rule inv_allow)
  show "inv s t \<Longrightarrow> t \<le> t' \<Longrightarrow> t' \<le> horizon \<Longrightarrow> inv s t'"
    by (rule inv_later)
  show "inv s t \<Longrightarrow> 0 \<le> level s k t"
    by (rule level_nonneg)
  show "level s' k t + 1 \<le> level s k t"
    if "inv s t" "gcra_allow t k s = (r, s')" "Decision r = DecisionAllow"
    using allow_level(1) [OF that(1,2)] that(3) by simp
  show "level s' k t \<le> level s k t"
    if "inv s t" "gcra_allow t k s = (r, s')" "Decision r = DecisionDeny"
    using allow_level(1) [OF that(1,2)] that(3) by simp
  show "level s' k t = level s k t"
    if "inv s t" "gcra_allow t k' s = (r, s')" "k' \<noteq> k"
    using allow_level(2) [OF that(1,2)] that(3) by auto
  show "inv s t \<Longrightarrow> t \<le> t' \<Longrightarrow> level s k t' \<le> level s k t + 1 / gap * of_int (t' - t)"
    by (rule level_later)
  show "level s' k t + (if Decision r = DecisionAllow then 1 else 0) \<le> drain / gap"
    if "inv s t" "gcra_allow t k s = (r, s')"
    using allow_level(1) [OF that] level_le [of s k t] by (cases "Decision r") auto
qed (use gap_pos drain_nonneg in simp_all)

context gcra_config_ok
begin

text \<open>From a store without entries, after any past calls, in any window.\<close>

lemma window:
  assumes "\<And>k. kv_get s s0 k = None" "- horizon \<le> s0" "t1 \<le> horizon"
    and "calls_within s0 t0 past" "calls_within t0 t1 cs"
  shows "of_nat (count_allowed gcra_allow (snd (run_calls gcra_allow s past)) k cs)
    \<le> (drain + of_int (t1 - t0)) / gap"
proof -
  have le: "s0 \<le> t0" "t0 \<le> t1" using calls_within_le assms(4,5) by blast+
  have "inv s s0" using assms(1,2,3) le by (simp add: gcra_inv_def abs_le_iff)
  then have "inv (snd (run_calls gcra_allow s past)) t0"
    using assms(3,4) le by (intro run_tinv) simp_all
  from count_le_pot [OF this assms(5,3), of k] level_le [of "snd (run_calls gcra_allow s past)" k t0]
  have "of_nat (count_allowed gcra_allow (snd (run_calls gcra_allow s past)) k cs) \<le> drain / gap + 1 / gap * of_int (t1 - t0)"
    by linarith
  then show ?thesis unfolding level_arith(2) .
qed

end

text \<open>The shipped configuration on the reference store, with the script's arithmetic and on exact
  numbers. The horizon is the year 2116.\<close>

lemma shipped_gcra:
  "833333333 \<le> gcra_interval f64 (f64 (6/5))" "gcra_interval f64 (f64 (6/5)) \<le> 833333334" "gcra_offset f64 (f64 (6/5)) 12 = 10000000000"
  by code_simp+

interpretation gcra_default: gcra_config_ok ref_get ref_set f64 256 "2 ^ 62" "f64 (6/5)" 12 30000000000 4600000000000000000
  using shipped_gcra by unfold_locales (simp_all add: dur_millis_def nanos_per_milli_def)

interpretation gcra_exact: gcra_config_ok ref_get ref_set exact 0 "of_int horizon + 11000000000" "6/5" 12 30000000000 horizon
  for horizon
  by unfold_locales (simp_all add: dur_millis_def nanos_per_milli_def gcra_offset_def gcra_interval_def exact_def)

section \<open>Properties\<close>

text \<open>Failing open: when the script cannot be run, every call is allowed and the store is not
  touched; when it runs, the answer is an allow, or a denial with a delay that is not negative and
  an unchanged store.\<close>

theorem redis_fails_open:
  "redis_Allow kv_get kv_set f64 cfg False now key s = (allow_result, s)
   \<and> result_ok (fst (redis_Allow kv_get kv_set f64 cfg up now key s))"
  using float64.redis_Allow_ok [of kv_get kv_set cfg up now key s]
  by (cases "redis_Allow kv_get kv_set f64 cfg up now key s") (simp add: redis_Allow_def)

text \<open>The bound for the two arithmetics.\<close>

lemma gcra_window_float:
  fixes kv_get :: "'s \<Rightarrow> int \<Rightarrow> string \<Rightarrow> rat option"
  assumes "kv_store kv_get kv_set"
    and "512 < gcra_interval f64 rate" "0 \<le> gcra_offset f64 rate (f64 (of_int burst))" "0 < dur_millis ttl"
    and "gcra_offset f64 rate (f64 (of_int burst)) + 512 \<le> of_int (dur_millis ttl * nanos_per_milli)"
    and "of_int t1 + gcra_offset f64 rate (f64 (of_int burst)) + gcra_interval f64 rate + 1024 < 2 ^ 62"
    and "\<And>k. kv_get s s0 k = None" "- t1 \<le> s0"
    and "calls_within s0 t0 past" "calls_within t0 t1 cs"
  shows "of_nat (count_allowed (redis_Allow kv_get kv_set f64 (redis_new f64 rate burst ttl) True)
            (snd (run_calls (redis_Allow kv_get kv_set f64 (redis_new f64 rate burst ttl) True) s past)) k cs)
          \<le> (gcra_offset f64 rate (f64 (of_int burst)) + 512 + of_int (t1 - t0)) / (gcra_interval f64 rate - 512)"
proof -
  have cfg: "gcra_config_ok kv_get kv_set f64 256 (2 ^ 62) rate (f64 (of_int burst)) ttl t1"
    using assms(1-6) float64.rounding_upto_axioms by (simp add: gcra_config_ok_def gcra_config_ok_axioms_def)
  from gcra_config_ok.window [OF cfg assms(7,8) order_refl assms(9,10), of k] show ?thesis
    by (simp add: redis_new_def)
qed

lemma exact_config:
  fixes kv_get :: "'s \<Rightarrow> int \<Rightarrow> string \<Rightarrow> rat option"
  assumes "kv_store kv_get kv_set"
    and "0 < rate" "0 \<le> burst" "0 < dur_millis ttl"
    and "1000000000 / rate * of_int burst \<le> of_int (dur_millis ttl * nanos_per_milli)"
  shows "gcra_config_ok kv_get kv_set exact 0
    (of_int horizon + 1000000000 / rate * of_int burst + 1000000000 / rate + 1) rate (of_int burst) ttl horizon"
  using assms ideal.rounding_upto_axioms
  by (simp add: gcra_config_ok_def gcra_config_ok_axioms_def gcra_offset_def gcra_interval_def exact_def)

lemma gcra_window:
  fixes kv_get :: "'s \<Rightarrow> int \<Rightarrow> string \<Rightarrow> rat option"
  assumes "kv_store kv_get kv_set"
    and "0 < rate" "0 \<le> burst" "0 < dur_millis ttl"
    and "1000000000 / rate * of_int burst \<le> of_int (dur_millis ttl * nanos_per_milli)"
    and "\<And>k. kv_get s s0 k = None"
    and "calls_within s0 t0 past" "calls_within t0 t1 cs"
  shows "of_nat (count_allowed (redis_Allow kv_get kv_set exact (redis_new exact rate burst ttl) True)
            (snd (run_calls (redis_Allow kv_get kv_set exact (redis_new exact rate burst ttl) True) s past)) k cs)
          \<le> of_int burst + rate / 1000000000 * of_int (t1 - t0)"
proof -
  define h where "h = max \<bar>s0\<bar> \<bar>t1\<bar>"
  have h: "- h \<le> s0" "t1 \<le> h" by (auto simp: h_def)
  note cfg = exact_config [OF assms(1-5), of h]
  have "(1000000000 / rate * b + w) / (1000000000 / rate) = b + rate / 1000000000 * w" for b w :: rat
    using assms(2) by (simp add: field_simps)
  with gcra_config_ok.window [OF cfg assms(6) h assms(7,8), of k] show ?thesis
    by (simp add: redis_new_def exact_def gcra_offset_def gcra_interval_def)
qed

text \<open>C13. The rate bound of the distributed limiter: in the arithmetic of the script's doubles, over any
  store with the documented behaviour that starts without entries, after any past calls, in any window
  from \<open>t0\<close> to \<open>t1\<close> a key is allowed at most as many calls as emission intervals fit into the drain
  time of a burst and the window, when the intervals are taken 512 ns shorter and the drain time 512 ns
  longer for what rounding may add. Times are before the year 2116, and an entry lives until its burst
  is drained.\<close>

theorem gcra_rate_float:
  fixes kv_get :: "'s \<Rightarrow> int \<Rightarrow> string \<Rightarrow> rat option"
  assumes "kv_store kv_get kv_set"
    and "512 < gcra_interval f64 rate" "0 \<le> gcra_offset f64 rate (f64 (of_int burst))" "0 < dur_millis ttl"
    and "gcra_offset f64 rate (f64 (of_int burst)) + 512 \<le> of_int (dur_millis ttl * nanos_per_milli)"
    and "of_int t1 + gcra_offset f64 rate (f64 (of_int burst)) + gcra_interval f64 rate + 1024 < 2 ^ 62"
    and "\<And>k. kv_get s s0 k = None" "- t1 \<le> s0"
    and "calls_within s0 t0 past" "calls_within t0 t1 cs"
  shows "of_nat (count_allowed (redis_Allow kv_get kv_set f64 (redis_new f64 rate burst ttl) True)
            (snd (run_calls (redis_Allow kv_get kv_set f64 (redis_new f64 rate burst ttl) True) s past)) k cs)
          \<le> (gcra_offset f64 rate (f64 (of_int burst)) + 512 + of_int (t1 - t0)) / (gcra_interval f64 rate - 512)"
  by (rule gcra_window_float [OF assms])

lemma f64_small [simp]: "f64 12 = 12"
  using f64_of_int [of 12] by simp

lemma same_time_within: "calls_within t t (replicate n (t, k))"
  by (induction n) auto

theorem gcra_rate_float_witness:
  "count_allowed (redis_Allow ref_get ref_set f64 (redis_new f64 (f64 (6/5)) 12 30000000000) True)
     Map.empty ''a'' (replicate 40 (1760000000000000000, ''a'')) \<le> 12"
proof -
  let ?n = "count_allowed (redis_Allow ref_get ref_set f64 (redis_new f64 (f64 (6/5)) 12 30000000000) True)
     Map.empty ''a'' (replicate 40 (1760000000000000000, ''a''))"
  have "of_nat ?n \<le> (10000000512 :: rat) / (gcra_interval f64 (f64 (6/5)) - 512)"
    using gcra_rate_float [OF ref.kv_store_axioms, of "f64 (6/5)" 12 30000000000 1760000000000000000 Map.empty 0
        1760000000000000000 "[]" "replicate 40 (1760000000000000000, ''a'')" "''a''"] shipped_gcra
    by (simp add: dur_millis_def nanos_per_milli_def ref_get_def same_time_within)
  also have "\<dots> \<le> 10000000512 / (833333333 - 512)"
    using shipped_gcra by (intro divide_left_mono mult_pos_pos) linarith+
  also have "\<dots> < 13" by simp
  finally have "of_nat ?n < (of_nat 13 :: rat)" by simp
  then show ?thesis by (simp only: of_nat_less_iff)
qed

text \<open>On exact numbers, where rounding adds nothing: over any store with the documented behaviour,
  with an entry's life at least the drain time of a burst, after any past calls, in
  any window from \<open>t0\<close> to \<open>t1\<close> a key is allowed at most \<open>burst\<close> calls plus the rate times the
  length of the window.\<close>

theorem gcra_rate_bound:
  fixes kv_get :: "'s \<Rightarrow> int \<Rightarrow> string \<Rightarrow> rat option"
  assumes "kv_store kv_get kv_set"
    and "0 < rate" "0 \<le> burst" "0 < dur_millis ttl"
    and "1000000000 / rate * of_int burst \<le> of_int (dur_millis ttl * nanos_per_milli)"
    and "\<And>k. kv_get s s0 k = None"
    and "calls_within s0 t0 past" "calls_within t0 t1 cs"
  shows "of_nat (count_allowed (redis_Allow kv_get kv_set exact (redis_new exact rate burst ttl) True)
            (snd (run_calls (redis_Allow kv_get kv_set exact (redis_new exact rate burst ttl) True) s past)) k cs)
          \<le> of_int burst + rate / 1000000000 * of_int (t1 - t0)"
  by (rule gcra_window [OF assms])

theorem gcra_rate_bound_witness:
  "count_allowed (redis_Allow ref_get ref_set exact (redis_new exact (6/5) 12 30000000000) True)
     Map.empty ''a'' (replicate 40 (1000000000, ''a'')) \<le> 12"
proof -
  have "of_nat (count_allowed (redis_Allow ref_get ref_set exact (redis_new exact (6/5) 12 30000000000) True)
        Map.empty ''a'' (replicate 40 (1000000000, ''a''))) \<le> (12 :: rat)"
    using gcra_rate_bound [OF ref.kv_store_axioms, of "6/5" 12 30000000000 Map.empty 0 1000000000 "[]"
        1000000000 "replicate 40 (1000000000, ''a'')" "''a''"]
    by (simp add: dur_millis_def nanos_per_milli_def ref_get_def same_time_within)
  then show ?thesis by (metis of_nat_le_iff of_nat_numeral)
qed

end
