(* ===== verification/Key_Hash.thy ===== *)
theory Key_Hash
  imports Prelude
begin

unbundle bit_operations_syntax

text \<open>
  The rate limiting key of a connection, \<open>internal/ratelimit/key.go\<close>: \<open>extractIP\<close>, \<open>normalizeIP\<close>,
  \<open>hash\<close> and \<open>FromConn\<close>. A \<open>net.IP\<close> is a byte list, \<open>nil\<close> is \<open>None\<close>. \<open>net.IP.To4\<close>, \<open>To16\<close>, \<open>Mask\<close>
  and \<open>net.CIDRMask\<close> are written out; \<open>net.SplitHostPort\<close>, \<open>net.ParseIP\<close> and HMAC-SHA256 are
  parameters (\<open>split_host\<close>, \<open>parse_ip\<close>, \<open>hmac\<close>).
\<close>

type_synonym ip = bytes

section \<open>Addresses\<close>

definition v4_prefix :: bytes where
  "v4_prefix = replicate 10 0 @ [255, 255]"

definition ip_To4 :: "ip \<Rightarrow> ip option" where
  "ip_To4 ip =
     (if length ip = 4 then Some ip
      else if length ip = 16 \<and> take 12 ip = v4_prefix then Some (drop 12 ip)
      else None)"

definition ip_To16 :: "ip \<Rightarrow> ip option" where
  "ip_To16 ip =
     (if length ip = 4 then Some (v4_prefix @ ip)
      else if length ip = 16 then Some ip
      else None)"

text \<open>\<open>net.CIDRMask(ones, bits)\<close> for whole bytes.\<close>

definition cidr_mask :: "nat \<Rightarrow> nat \<Rightarrow> bytes" where
  "cidr_mask ones bits = replicate (ones div 8) 255 @ replicate ((bits - ones) div 8) 0"

definition ip_Mask :: "ip \<Rightarrow> bytes \<Rightarrow> ip option" where
  "ip_Mask ip m = (if length ip = length m then Some (map2 (\<lambda>a b. a AND b) ip m) else None)"

definition normalizeIP :: "ip option \<Rightarrow> ip option" where
  "normalizeIP ip =
     (case ip of
        None \<Rightarrow> None
      | Some a \<Rightarrow>
          (case ip_To4 a of
             Some v4 \<Rightarrow> Some v4
           | None \<Rightarrow>
               (case ip_To16 a of
                  None \<Rightarrow> None
                | Some b \<Rightarrow> ip_Mask b (cidr_mask 64 128))))"

text \<open>The dynamic type of a \<open>net.Addr\<close>; the last case carries its \<open>String()\<close>.\<close>

datatype net_addr = TCPAddr "ip option" | IPAddr "ip option" | OtherAddr string

fun extractIP :: "(string \<Rightarrow> string option) \<Rightarrow> (string \<Rightarrow> ip option) \<Rightarrow> net_addr \<Rightarrow> ip option" where
  "extractIP split_host parse_ip (TCPAddr a) = normalizeIP a"
| "extractIP split_host parse_ip (IPAddr a) = normalizeIP a"
| "extractIP split_host parse_ip (OtherAddr s) =
     (case split_host s of None \<Rightarrow> None | Some host \<Rightarrow> normalizeIP (parse_ip host))"

section \<open>The key\<close>

text \<open>96 bits of the MAC in hexadecimal.\<close>

definition key_hash :: "(bytes \<Rightarrow> bytes \<Rightarrow> bytes) \<Rightarrow> bytes \<Rightarrow> ip \<Rightarrow> string" where
  "key_hash hmac secret ip = hex_encode (take 12 (hmac secret ip))"

definition FromConn ::
    "(string \<Rightarrow> string option) \<Rightarrow> (string \<Rightarrow> ip option) \<Rightarrow> (bytes \<Rightarrow> bytes \<Rightarrow> bytes) \<Rightarrow> bytes \<Rightarrow>
     net_addr option \<Rightarrow> string option" where
  "FromConn split_host parse_ip hmac secret conn =
     (case conn of
        None \<Rightarrow> None
      | Some addr \<Rightarrow>
          (case extractIP split_host parse_ip addr of
             None \<Rightarrow> None
           | Some ip \<Rightarrow> Some (key_hash hmac secret ip)))"

section \<open>Lemmas\<close>

lemma byte_and [simp]: "(x :: byte) AND 255 = x"
proof -
  have "(255 :: byte) = - 1" by simp
  then show ?thesis by (simp only: and.right_neutral)
qed

lemma cidr_mask_64: "cidr_mask 64 128 = replicate 8 255 @ replicate 8 0"
  by (simp add: cidr_mask_def)

lemma map2_and_ones: "map2 (\<lambda>a b. a AND b) (xs :: bytes) (replicate (length xs) 255) = xs"
  by (induction xs) simp_all

lemma map2_and_zeros: "map2 (\<lambda>a b. a AND b) (xs :: bytes) (replicate (length xs) 0) = replicate (length xs) 0"
  by (induction xs) simp_all

lemma ip_Mask_64:
  assumes "length a = 16"
  shows "ip_Mask a (cidr_mask 64 128) = Some (take 8 a @ replicate 8 0)"
proof -
  have "map2 (\<lambda>a b. a AND b) (take 8 a @ drop 8 a) (replicate 8 255 @ replicate 8 0)
      = map2 (\<lambda>a b. a AND b) (take 8 a) (replicate 8 255)
        @ map2 (\<lambda>a b. a AND b) (drop 8 a) (replicate 8 0)"
    by (subst zip_append) (simp_all add: assms)
  also have "\<dots> = take 8 a @ replicate 8 0"
    using map2_and_ones [of "take 8 a"] map2_and_zeros [of "drop 8 a"] assms by simp
  finally show ?thesis using assms by (simp add: ip_Mask_def cidr_mask_64)
qed

lemma v4_prefix_length [simp]: "length v4_prefix = 12"
  by (simp add: v4_prefix_def)

lemma normalizeIP_v4: "length a = 4 \<Longrightarrow> normalizeIP (Some a) = Some a"
  by (simp add: normalizeIP_def ip_To4_def)

lemma normalizeIP_mapped: "length a = 4 \<Longrightarrow> normalizeIP (Some (v4_prefix @ a)) = Some a"
  by (simp add: normalizeIP_def ip_To4_def)

lemma normalizeIP_v6:
  "length a = 16 \<Longrightarrow> take 12 a \<noteq> v4_prefix \<Longrightarrow> normalizeIP (Some a) = Some (take 8 a @ replicate 8 0)"
  by (simp add: normalizeIP_def ip_To4_def ip_To16_def ip_Mask_64)

lemma normalizeIP_None: "normalizeIP (Some a) = None \<longleftrightarrow> length a \<noteq> 4 \<and> length a \<noteq> 16"
  by (auto simp: normalizeIP_def ip_To4_def ip_To16_def ip_Mask_64 split: if_splits option.splits)

text \<open>A masked address is never an IPv4-mapped one: its last bytes are zero.\<close>

lemma masked_not_mapped:
  assumes "length (a :: bytes) = 16"
  shows "take 12 (take 8 a @ replicate 8 0) \<noteq> v4_prefix"
proof
  assume "take 12 (take 8 a @ replicate 8 0) = v4_prefix"
  from arg_cong [OF this, of "\<lambda>l. l ! 11"]
  have "(take 8 a @ replicate 8 0) ! 11 = v4_prefix ! 11" by (simp only: nth_take)
  then show False using assms by (simp add: nth_append v4_prefix_def)
qed

lemma normalizeIP_idem: "normalizeIP (Some a) = Some b \<Longrightarrow> normalizeIP (Some b) = Some b"
proof -
  assume n: "normalizeIP (Some a) = Some b"
  then have "length a = 4 \<or> length a = 16" using normalizeIP_None [of a] by auto
  then consider "length a = 4" | "length a = 16" "take 12 a = v4_prefix"
    | "length a = 16" "take 12 a \<noteq> v4_prefix" by blast
  then show ?thesis
  proof cases
    case 1
    with n show ?thesis by (simp add: normalizeIP_v4)
  next
    case 2
    then have "b = drop 12 a" using n by (simp add: normalizeIP_def ip_To4_def)
    with 2 show ?thesis by (simp add: normalizeIP_v4)
  next
    case 3
    then have "b = take 8 a @ replicate 8 0" using n by (simp add: normalizeIP_v6)
    with 3 masked_not_mapped [OF 3(1)] show ?thesis by (simp add: normalizeIP_v6)
  qed
qed

section \<open>Client networks\<close>

text \<open>
  The network a key should stand for: the four bytes of an IPv4 address, also of one in its IPv6 form, and
  the first 64 bits of any other IPv6 address; and the address such a network is hashed as.
\<close>

definition client_net :: "ip \<Rightarrow> bytes" where
  "client_net a = (if length a = 4 then a else if take 12 a = v4_prefix then drop 12 a else take 8 a)"

definition net_ip :: "bytes \<Rightarrow> ip" where
  "net_ip n = (if length n = 4 then n else n @ replicate 8 0)"

definition usable :: "ip \<Rightarrow> bool" where
  "usable a \<longleftrightarrow> length a = 4 \<or> length a = 16"

lemma client_net_length: "usable a \<Longrightarrow> length (client_net a) = 4 \<or> length (client_net a) = 8"
  by (auto simp: usable_def client_net_def)

lemma normalizeIP_net: "usable a \<Longrightarrow> normalizeIP (Some a) = Some (net_ip (client_net a))"
proof -
  assume u: "usable a"
  show ?thesis
  proof (cases "length a = 16 \<and> take 12 a = v4_prefix")
    case True
    then have "a = v4_prefix @ drop 12 a" by (metis append_take_drop_id)
    with True normalizeIP_mapped [of "drop 12 a"] show ?thesis by (simp add: client_net_def net_ip_def)
  next
    case False
    with u show ?thesis
      by (auto simp: usable_def normalizeIP_v4 normalizeIP_v6 client_net_def net_ip_def)
  qed
qed

lemma net_ip_inj: "usable a \<Longrightarrow> usable b \<Longrightarrow> net_ip (client_net a) = net_ip (client_net b) \<longleftrightarrow> client_net a = client_net b"
  using client_net_length [of a] client_net_length [of b] by (auto simp: net_ip_def dest: arg_cong [where f = length])

section \<open>Properties\<close>

text \<open>C37. One key per client network. An address of 4 or 16 bytes, whichever way it comes, has a key of 24
  hexadecimal digits, and nothing else has one. The key is that of the address's network: the IPv4 address,
  or the /64 prefix of an IPv6 address filled up with zeros; so two addresses have the same key exactly when
  they are of one network, unless the first 96 bits of the MACs of two networks collide.\<close>

theorem FromConn_key:
  assumes "\<And>s m. length (hmac s m) = 32"
  shows "FromConn sp pip hmac secret (Some (TCPAddr (Some a))) =
      (if usable a then Some (key_hash hmac secret (net_ip (client_net a))) else None)
    \<and> FromConn sp pip hmac secret (Some (IPAddr (Some a))) = FromConn sp pip hmac secret (Some (TCPAddr (Some a)))
    \<and> FromConn sp pip hmac secret (Some (OtherAddr s)) =
        (case sp s of None \<Rightarrow> None | Some host \<Rightarrow> FromConn sp pip hmac secret (Some (TCPAddr (pip host))))
    \<and> FromConn sp pip hmac secret (Some (TCPAddr None)) = None \<and> FromConn sp pip hmac secret None = None
    \<and> (\<forall>k. FromConn sp pip hmac secret addr = Some k \<longrightarrow> length k = 24)
    \<and> (usable a \<longrightarrow> usable b \<longrightarrow>
        (FromConn sp pip hmac secret (Some (TCPAddr (Some a))) = FromConn sp pip hmac secret (Some (TCPAddr (Some b)))
         \<longleftrightarrow> client_net a = client_net b
           \<or> take 12 (hmac secret (net_ip (client_net a))) = take 12 (hmac secret (net_ip (client_net b)))))"
proof -
  have key: "FromConn sp pip hmac secret (Some (TCPAddr (Some a))) =
      (if usable a then Some (key_hash hmac secret (net_ip (client_net a))) else None)" for a
    using normalizeIP_net [of a] normalizeIP_None [of a] by (auto simp: FromConn_def usable_def)
  have "key_hash hmac secret x = key_hash hmac secret y \<longleftrightarrow> take 12 (hmac secret x) = take 12 (hmac secret y)" for x y
    by (auto simp: key_hash_def dest: hex_encode_inj)
  moreover have "length k = 24" if "FromConn sp pip hmac secret addr = Some k" for k
    using that assms by (auto simp: FromConn_def key_hash_def split: option.splits)
  moreover have "FromConn sp pip hmac secret (Some (IPAddr (Some a))) = FromConn sp pip hmac secret (Some (TCPAddr (Some a)))"
    "FromConn sp pip hmac secret (Some (OtherAddr s)) =
       (case sp s of None \<Rightarrow> None | Some host \<Rightarrow> FromConn sp pip hmac secret (Some (TCPAddr (pip host))))"
    "FromConn sp pip hmac secret (Some (TCPAddr None)) = None" "FromConn sp pip hmac secret None = None"
    by (simp_all add: FromConn_def normalizeIP_def split: option.split)
  ultimately show ?thesis using net_ip_inj [of a b] unfolding key by (simp, metis)
qed

text \<open>Two addresses of one /64, and one of another.\<close>

definition pad_mac :: "bytes \<Rightarrow> bytes \<Rightarrow> bytes" where
  "pad_mac secret m = take 32 (m @ secret @ replicate 32 0)"

theorem FromConn_key_witness:
  "FromConn (\<lambda>_. None) (\<lambda>_. None) pad_mac [1, 2] (Some (TCPAddr (Some (replicate 8 32 @ replicate 8 1))))
     = FromConn (\<lambda>_. None) (\<lambda>_. None) pad_mac [1, 2] (Some (TCPAddr (Some (replicate 8 32 @ replicate 8 7))))
   \<and> FromConn (\<lambda>_. None) (\<lambda>_. None) pad_mac [1, 2] (Some (TCPAddr (Some (replicate 8 32 @ replicate 8 1))))
     \<noteq> FromConn (\<lambda>_. None) (\<lambda>_. None) pad_mac [1, 2] (Some (TCPAddr (Some (replicate 7 32 @ replicate 9 1))))"
proof -
  have "\<And>s m. length (pad_mac s m) = 32" by (simp add: pad_mac_def)
  note key = FromConn_key [where hmac = pad_mac, OF this, where sp = "\<lambda>_. None" and pip = "\<lambda>_. None"
      and secret = "[1, 2]" and a = "replicate 8 32 @ replicate 8 1", THEN conjunct2, THEN conjunct2,
      THEN conjunct2, THEN conjunct2, THEN conjunct2, THEN conjunct2]
  have n: "client_net (replicate 8 32 @ replicate 8 1) = replicate 8 32"
    "client_net (replicate 8 32 @ replicate 8 7) = replicate 8 32"
    "client_net (replicate 7 32 @ replicate 9 1) = replicate 7 32 @ [1]" by code_simp+
  have u: "usable (replicate 8 32 @ replicate 8 x)" "usable (replicate 7 32 @ replicate 9 x)" for x
    by (simp_all add: usable_def)
  have "take 12 (pad_mac [1, 2] (net_ip (replicate 8 32))) \<noteq> take 12 (pad_mac [1, 2] (net_ip (replicate 7 32 @ [1])))"
    "replicate 8 (32 :: byte) \<noteq> replicate 7 32 @ [1]"
    by code_simp+
  with key [of "replicate 8 32 @ replicate 8 7"] key [of "replicate 7 32 @ replicate 9 1"] show ?thesis
    by (simp only: n u) simp
qed

end
