(* ===== verification/Transition.thy ===== *)
theory Transition
  imports Prelude
begin

text \<open>
  Runs of the concurrent components. A component gives its initial states and its step relation;
  \<open>reach\<close> is the set of states it can be in. The invariant rules and the lemmas on continuing a
  run are shared by the tarpit, the sessions, the connections and the forward manager.
\<close>

inductive reach :: "('s \<Rightarrow> bool) \<Rightarrow> ('s \<Rightarrow> 's \<Rightarrow> bool) \<Rightarrow> 's \<Rightarrow> bool"
  for init :: "'s \<Rightarrow> bool" and step :: "'s \<Rightarrow> 's \<Rightarrow> bool" where
  reach_init: "init s \<Longrightarrow> reach init step s"
| reach_step: "reach init step s \<Longrightarrow> step s s' \<Longrightarrow> reach init step s'"

lemma reach_invariant [consumes 1, case_names init step]:
  assumes "reach init step s"
    and "\<And>s. init s \<Longrightarrow> I s"
    and "\<And>s s'. reach init step s \<Longrightarrow> I s \<Longrightarrow> step s s' \<Longrightarrow> I s'"
  shows "I s"
  using assms(1) by (induction rule: reach.induct) (auto intro: assms(2,3))

lemma reach_steps: "reach init step s \<Longrightarrow> step\<^sup>*\<^sup>* s s' \<Longrightarrow> reach init step s'"
  by (rotate_tac 1, induction rule: rtranclp_induct) (auto intro: reach_step)

lemma steps_invariant [consumes 1, case_names start step]:
  assumes "step\<^sup>*\<^sup>* s s'" "I s" "\<And>s s'. I s \<Longrightarrow> step s s' \<Longrightarrow> I s'"
  shows "I s'"
  using assms(1) by (induction rule: rtranclp_induct) (auto intro: assms(2,3))

text \<open>If a measure can always be lowered while \<open>I\<close> holds, a state where it is 0 can be reached.\<close>

lemma steps_to_zero:
  fixes m :: "'s \<Rightarrow> nat"
  assumes "I s" "\<And>s. I s \<Longrightarrow> 0 < m s \<Longrightarrow> \<exists>s'. step\<^sup>*\<^sup>* s s' \<and> I s' \<and> m s' < m s"
  shows "\<exists>s'. step\<^sup>*\<^sup>* s s' \<and> I s' \<and> m s' = 0"
  using assms(1)
proof (induction "m s" arbitrary: s rule: less_induct)
  case less
  show ?case
  proof (cases "m s = 0")
    case True
    with less.prems show ?thesis by blast
  next
    case False
    with assms(2) [OF less.prems] obtain s' where "step\<^sup>*\<^sup>* s s'" "I s'" "m s' < m s" by auto
    with less.hyps [of s'] show ?thesis by (meson rtranclp_trans)
  qed
qed

end
