(* ===== verification/Tarpit.thy ===== *)
theory Tarpit
  imports Transition "HOL-Library.Multiset"
begin

text \<open>
  The tarpit of \<open>internal/tarpit/tarpit.go\<close>, which keeps rate limited clients waiting. The state
  has the buffered channel \<open>jobs\<close> (capacity 1000), the job the \<open>run\<close> goroutine has received and
  not yet handed on, and the \<open>handle\<close> goroutines, one per slot of \<open>sem\<close>, with the time at which
  their timer fires. \<open>closed\<close>, \<open>lost\<close> and \<open>added\<close> record what happened to which connection.
  \<open>Add\<close> is a function; the goroutines are the rules of a step relation.
\<close>

type_synonym conn = nat

datatype close_cause = QueueFull | TimerFired | ContextDone

record tarpit =
  jobs :: "(conn \<times> int) list"
  hand :: "(conn \<times> int) option"
  workers :: "(conn \<times> int) list"
  running :: bool
  cancelled :: bool
  clock :: int
  closed :: "(conn \<times> int \<times> close_cause) list"
  lost :: "conn list"
  added :: "(conn \<times> int \<times> int) list"

definition jobs_cap :: nat where
  "jobs_cap = 1000"

text \<open>\<open>NewTarpit\<close>; the goroutine \<open>run\<close> is started at once.\<close>

definition NewTarpit :: "int \<Rightarrow> tarpit" where
  "NewTarpit now =
     \<lparr>jobs = [], hand = None, workers = [], running = True, cancelled = False, clock = now,
      closed = [], lost = [], added = []\<rparr>"

definition close_conn :: "conn \<Rightarrow> close_cause \<Rightarrow> tarpit \<Rightarrow> tarpit" where
  "close_conn c cause t = t\<lparr>closed := (c, clock t, cause) # closed t\<rparr>"

definition Add :: "conn \<Rightarrow> int \<Rightarrow> tarpit \<Rightarrow> tarpit" where
  "Add c delay t =
     (let t' = t\<lparr>added := (c, clock t, delay) # added t\<rparr>
      in if length (jobs t) < jobs_cap then t'\<lparr>jobs := jobs t @ [(c, delay)]\<rparr>
         else close_conn c QueueFull t')"

text \<open>The end of a \<open>handle\<close> goroutine: the connection is closed and the slot released.\<close>

definition handle_end :: "conn \<times> int \<Rightarrow> close_cause \<Rightarrow> tarpit \<Rightarrow> tarpit" where
  "handle_end w cause t = close_conn (fst w) cause (t\<lparr>workers := remove1 w (workers t)\<rparr>)"

text \<open>\<open>run\<close> returns: a job it holds is dropped.\<close>

definition run_return :: "tarpit \<Rightarrow> tarpit" where
  "run_return t =
     t\<lparr>running := False, hand := None,
       lost := (case hand t of None \<Rightarrow> lost t | Some (c, _) \<Rightarrow> c # lost t)\<rparr>"

inductive tarpit_step :: "nat \<Rightarrow> tarpit \<Rightarrow> tarpit \<Rightarrow> bool" for maxWorkers :: nat where
  add: "tarpit_step maxWorkers t (Add c delay t)"
| tick: "0 \<le> d \<Longrightarrow> tarpit_step maxWorkers t (t\<lparr>clock := clock t + d\<rparr>)"
| cancel: "tarpit_step maxWorkers t (t\<lparr>cancelled := True\<rparr>)"
| receive: "running t \<Longrightarrow> hand t = None \<Longrightarrow> jobs t = j # js \<Longrightarrow>
     tarpit_step maxWorkers t (t\<lparr>hand := Some j, jobs := js\<rparr>)"
| spawn: "running t \<Longrightarrow> hand t = Some (c, delay) \<Longrightarrow> length (workers t) < maxWorkers \<Longrightarrow>
     tarpit_step maxWorkers t (t\<lparr>hand := None, workers := (c, clock t + delay) # workers t\<rparr>)"
| run_done: "running t \<Longrightarrow> cancelled t \<Longrightarrow> tarpit_step maxWorkers t (run_return t)"
| timer: "w \<in> set (workers t) \<Longrightarrow> snd w \<le> clock t \<Longrightarrow>
     tarpit_step maxWorkers t (handle_end w TimerFired t)"
| abort: "w \<in> set (workers t) \<Longrightarrow> cancelled t \<Longrightarrow>
     tarpit_step maxWorkers t (handle_end w ContextDone t)"

lemmas tarpit_op_defs = Add_def close_conn_def handle_end_def run_return_def Let_def

definition tarpit_reach :: "nat \<Rightarrow> tarpit \<Rightarrow> bool" where
  "tarpit_reach maxWorkers = reach (\<lambda>t. \<exists>now. t = NewTarpit now) (tarpit_step maxWorkers)"

lemma tarpit_reach_invariant:
  assumes "tarpit_reach n t" "\<And>now. I (NewTarpit now)"
    and "\<And>t t'. I t \<Longrightarrow> tarpit_step n t t' \<Longrightarrow> I t'"
  shows "I t"
  using assms(1) unfolding tarpit_reach_def
  by (induction rule: reach_invariant) (auto intro: assms(2,3))

section \<open>Invariants\<close>

text \<open>The two channels never hold more than their capacities.\<close>

definition tarpit_bounded :: "nat \<Rightarrow> tarpit \<Rightarrow> bool" where
  "tarpit_bounded n t \<longleftrightarrow>
     length (jobs t) \<le> jobs_cap \<and> length (workers t) \<le> n \<and> (hand t \<noteq> None \<longrightarrow> running t)"

lemma tarpit_step_bounded: "tarpit_step n t t' \<Longrightarrow> tarpit_bounded n t \<Longrightarrow> tarpit_bounded n t'"
  by (induction rule: tarpit_step.induct)
     (auto simp: tarpit_bounded_def tarpit_op_defs length_remove1 split: option.splits)

text \<open>Every connection is in exactly one place.\<close>

definition hand_conns :: "tarpit \<Rightarrow> conn list" where
  "hand_conns t = (case hand t of None \<Rightarrow> [] | Some (c, _) \<Rightarrow> [c])"

definition held :: "tarpit \<Rightarrow> conn multiset" where
  "held t = mset (map fst (jobs t)) + mset (hand_conns t) + mset (map fst (workers t))"

definition conserved :: "tarpit \<Rightarrow> bool" where
  "conserved t \<longleftrightarrow> mset (map fst (added t)) = held t + mset (map fst (closed t)) + mset (lost t)"

lemma mset_remove_worker:
  "w \<in> set ws \<Longrightarrow> mset (map fst ws) = mset (map fst (remove1 w ws)) + {#fst w#}"
  by (metis add_mset_add_single insert_DiffM mset_map mset_remove1 msed_map_invL set_mset_mset image_mset_add_mset)

lemma tarpit_step_conserved: "tarpit_step n t t' \<Longrightarrow> conserved t \<Longrightarrow> conserved t'"
proof (induction rule: tarpit_step.induct)
  case (timer w t)
  then show ?case using mset_remove_worker [OF timer.hyps(1)]
    by (simp add: conserved_def held_def hand_conns_def tarpit_op_defs)
next
  case (abort w t)
  then show ?case using mset_remove_worker [OF abort.hyps(1)]
    by (simp add: conserved_def held_def hand_conns_def tarpit_op_defs)
qed (auto simp: conserved_def held_def hand_conns_def tarpit_op_defs split: option.splits)

text \<open>
  Timing: what is held was added with its delay, a timer is set no earlier than the time of the
  \<open>Add\<close> plus the delay, and a connection closed by its timer was held at least that long. Without
  a cancelled context nothing is closed early, except where the queue was full, and nothing is lost.
\<close>

definition was_added :: "tarpit \<Rightarrow> conn \<Rightarrow> int \<Rightarrow> bool" where
  "was_added t c until \<longleftrightarrow> (\<exists>a d. (c, a, d) \<in> set (added t) \<and> a \<le> clock t \<and> a + d \<le> until)"

definition timed :: "tarpit \<Rightarrow> bool" where
  "timed t \<longleftrightarrow>
     (\<forall>(c, d) \<in> set (jobs t). was_added t c (clock t + d))
     \<and> (\<forall>c d. hand t = Some (c, d) \<longrightarrow> was_added t c (clock t + d))
     \<and> (\<forall>(c, until) \<in> set (workers t). was_added t c until)
     \<and> (\<forall>(c, at, cause) \<in> set (closed t).
          (cause = TimerFired \<longrightarrow> was_added t c at) \<and> (cause = ContextDone \<longrightarrow> cancelled t))
     \<and> (lost t \<noteq> [] \<or> \<not> running t \<longrightarrow> cancelled t)"

lemma was_added_mono:
  "was_added t c u \<Longrightarrow> set (added t) \<subseteq> set (added t') \<Longrightarrow> clock t \<le> clock t' \<Longrightarrow> u \<le> u' \<Longrightarrow>
     was_added t' c u'"
  unfolding was_added_def by (meson order_trans subsetD)

lemma tarpit_step_mono:
  "tarpit_step n t t' \<Longrightarrow> set (added t) \<subseteq> set (added t') \<and> clock t \<le> clock t'"
  by (induction rule: tarpit_step.induct) (auto simp: tarpit_op_defs)

lemma timed_intro:
  assumes "\<And>c d. (c, d) \<in> set (jobs t) \<Longrightarrow> was_added t c (clock t + d)"
    and "\<And>c d. hand t = Some (c, d) \<Longrightarrow> was_added t c (clock t + d)"
    and "\<And>c u. (c, u) \<in> set (workers t) \<Longrightarrow> was_added t c u"
    and "\<And>c u. (c, u, TimerFired) \<in> set (closed t) \<Longrightarrow> was_added t c u"
    and "\<And>c u. (c, u, ContextDone) \<in> set (closed t) \<Longrightarrow> cancelled t"
    and "lost t \<noteq> [] \<or> \<not> running t \<Longrightarrow> cancelled t"
  shows "timed t"
  unfolding timed_def using assms by auto

lemma timed_dest:
  assumes "timed t"
  shows "(c, d) \<in> set (jobs t) \<Longrightarrow> was_added t c (clock t + d)"
    and "hand t = Some (c, d) \<Longrightarrow> was_added t c (clock t + d)"
    and "(c, u) \<in> set (workers t) \<Longrightarrow> was_added t c u"
    and "(c, u, TimerFired) \<in> set (closed t) \<Longrightarrow> was_added t c u"
    and "(c, u, ContextDone) \<in> set (closed t) \<Longrightarrow> cancelled t"
    and "lost t \<noteq> [] \<or> \<not> running t \<Longrightarrow> cancelled t"
  using assms unfolding timed_def by auto

lemma was_added_now: "0 \<le> e \<Longrightarrow> (c, clock t, d) \<in> set (added t) \<Longrightarrow> was_added t c (clock t + d + e)"
  by (force simp: was_added_def)

lemma timed_frame:
  assumes t: "timed t" and mono: "set (added t) \<subseteq> set (added t')" "clock t \<le> clock t'"
    and "\<And>c d. (c, d) \<in> set (jobs t') \<Longrightarrow> (c, d) \<in> set (jobs t) \<or> was_added t' c (clock t' + d)"
    and "\<And>c d. hand t' = Some (c, d) \<Longrightarrow> hand t = Some (c, d) \<or> (c, d) \<in> set (jobs t)"
    and "\<And>c u. (c, u) \<in> set (workers t') \<Longrightarrow>
           (c, u) \<in> set (workers t) \<or> (\<exists>d. hand t = Some (c, d) \<and> u = clock t + d)"
    and "\<And>c u. (c, u, TimerFired) \<in> set (closed t') \<Longrightarrow>
           (c, u, TimerFired) \<in> set (closed t) \<or> (\<exists>v \<le> u. (c, v) \<in> set (workers t))"
    and "\<And>c u. (c, u, ContextDone) \<in> set (closed t') \<Longrightarrow>
           (c, u, ContextDone) \<in> set (closed t) \<or> cancelled t"
    and "cancelled t \<Longrightarrow> cancelled t'"
    and "lost t' \<noteq> [] \<or> \<not> running t' \<Longrightarrow> lost t \<noteq> [] \<or> \<not> running t \<or> cancelled t"
  shows "timed t'"
proof -
  note D = timed_dest [OF t]
  have later: "was_added t' c u'" if "was_added t c u" "u \<le> u'" for c u u'
    using was_added_mono that mono by blast
  then have shifted: "was_added t' c (clock t' + d)" if "was_added t c (clock t + d)" for c d
    using that mono(2) by simp
  show ?thesis
  proof (rule timed_intro)
    show "was_added t' c (clock t' + d)" if "(c, d) \<in> set (jobs t')" for c d
      using assms(4) [OF that] D(1) shifted by blast
    show "was_added t' c (clock t' + d)" if "hand t' = Some (c, d)" for c d
      using assms(5) [OF that] D(1,2) shifted by blast
    show "was_added t' c u" if "(c, u) \<in> set (workers t')" for c u
      using assms(6) [OF that] D(2,3) later by blast
    show "was_added t' c u" if "(c, u, TimerFired) \<in> set (closed t')" for c u
      using assms(7) [OF that] D(3,4) later by blast
    show "cancelled t'" if "(c, u, ContextDone) \<in> set (closed t')" for c u
      using assms(8) [OF that] assms(9) D(5) by blast
    show "cancelled t'" if "lost t' \<noteq> [] \<or> \<not> running t'"
      using assms(10) [OF that] assms(9) D(6) by blast
  qed
qed

lemma tarpit_step_timed: "tarpit_step n t t' \<Longrightarrow> timed t \<Longrightarrow> timed t'"
proof (induction rule: tarpit_step.induct)
  case (add t c delay)
  have "was_added (Add c delay t) c (clock (Add c delay t) + delay)"
    using was_added_now [of 0 c "Add c delay t" delay] by (simp add: tarpit_op_defs)
  then show ?case
    using tarpit_step_mono [OF tarpit_step.add, of t c delay]
    by (intro timed_frame [OF add]) (auto simp: tarpit_op_defs split: if_splits)
next
  case (tick d t)
  then show ?case by (intro timed_frame [OF tick(2)]) auto
next
  case (cancel t)
  then show ?case by (intro timed_frame [OF cancel]) auto
next
  case (receive t j js)
  show ?case by (rule timed_frame [OF receive(4)]) (auto simp: receive(1-3))
next
  case (spawn t c delay)
  show ?case by (rule timed_frame [OF spawn(4)]) (auto simp: spawn(1-3))
next
  case (run_done t)
  show ?case by (rule timed_frame [OF run_done(3)]) (auto simp: run_done(1,2) run_return_def)
next
  case (timer w t)
  show ?case
    by (rule timed_frame [OF timer(3)])
       (use timer(1,2) in \<open>auto simp: handle_end_def close_conn_def dest: notin_set_remove1\<close>)
next
  case (abort w t)
  show ?case
    by (rule timed_frame [OF abort(3)])
       (use abort(1,2) in \<open>auto simp: handle_end_def close_conn_def dest: notin_set_remove1\<close>)
qed

lemma tarpit_reach_inv:
  assumes "tarpit_reach n t"
  shows "tarpit_bounded n t" "conserved t" "timed t"
proof -
  have "tarpit_bounded n t \<and> conserved t \<and> timed t"
  proof (rule tarpit_reach_invariant [OF assms, where I = "\<lambda>t. tarpit_bounded n t \<and> conserved t \<and> timed t"])
    fix now
    show "tarpit_bounded n (NewTarpit now) \<and> conserved (NewTarpit now) \<and> timed (NewTarpit now)"
      by (simp add: NewTarpit_def tarpit_bounded_def conserved_def held_def hand_conns_def timed_def)
  next
    fix t t'
    assume "tarpit_bounded n t \<and> conserved t \<and> timed t" "tarpit_step n t t'"
    then show "tarpit_bounded n t' \<and> conserved t' \<and> timed t'"
      using tarpit_step_bounded tarpit_step_conserved tarpit_step_timed by blast
  qed
  then show "tarpit_bounded n t" "conserved t" "timed t" by simp_all
qed

section \<open>Draining\<close>

text \<open>How far the tarpit is from having released everything it holds.\<close>

definition backlog :: "tarpit \<Rightarrow> nat" where
  "backlog t = 3 * length (jobs t) + (case hand t of None \<Rightarrow> 0 | Some _ \<Rightarrow> 2) + length (workers t)"

definition undisturbed :: "(conn \<times> int \<times> int) list \<Rightarrow> tarpit \<Rightarrow> bool" where
  "undisturbed A t \<longleftrightarrow> running t \<and> \<not> cancelled t \<and> added t = A"

lemma drain_worker:
  assumes "w \<in> set (workers t)" "undisturbed A t"
  shows "\<exists>t'. (tarpit_step n)\<^sup>*\<^sup>* t t' \<and> undisturbed A t' \<and> backlog t' < backlog t"
proof -
  let ?d = "max 0 (snd w - clock t)"
  let ?t1 = "t\<lparr>clock := clock t + ?d\<rparr>"
  have a: "tarpit_step n t ?t1" by (rule tarpit_step.tick) simp
  have b: "tarpit_step n ?t1 (handle_end w TimerFired ?t1)"
    using assms(1) by (intro tarpit_step.timer) simp_all
  have "0 < length (workers t)" using assms(1) by (cases "workers t") auto
  then have "backlog (handle_end w TimerFired ?t1) < backlog t"
    using assms(1) by (simp add: backlog_def handle_end_def close_conn_def length_remove1)
  moreover have "undisturbed A (handle_end w TimerFired ?t1)"
    using assms(2) by (simp add: undisturbed_def handle_end_def close_conn_def)
  moreover have "(tarpit_step n)\<^sup>*\<^sup>* t (handle_end w TimerFired ?t1)"
    using a b by (meson converse_rtranclp_into_rtranclp rtranclp.rtrancl_refl)
  ultimately show ?thesis by blast
qed

lemma drain_step:
  assumes "0 < n" "undisturbed A t" "0 < backlog t"
  shows "\<exists>t'. (tarpit_step n)\<^sup>*\<^sup>* t t' \<and> undisturbed A t' \<and> backlog t' < backlog t"
proof (cases "workers t = []")
  case False
  then obtain w where "w \<in> set (workers t)" by (cases "workers t") auto
  then show ?thesis using assms(2) by (rule drain_worker)
next
  case idle: True
  show ?thesis
  proof (cases "hand t")
    case None
    with idle assms(3) obtain j js where j: "jobs t = j # js" by (cases "jobs t") (auto simp: backlog_def)
    let ?t' = "t\<lparr>hand := Some j, jobs := js\<rparr>"
    have "tarpit_step n t ?t'"
      using None assms(2) j by (intro tarpit_step.receive) (simp_all add: undisturbed_def)
    moreover have "backlog ?t' < backlog t" using None j by (simp add: backlog_def)
    ultimately show ?thesis using assms(2) by (intro exI [of _ ?t']) (auto simp: undisturbed_def)
  next
    case (Some cd)
    obtain c d where cd: "cd = (c, d)" by (cases cd)
    let ?t' = "t\<lparr>hand := None, workers := (c, clock t + d) # workers t\<rparr>"
    have "tarpit_step n t ?t'"
      using Some assms idle by (intro tarpit_step.spawn) (simp_all add: cd undisturbed_def)
    moreover have "backlog ?t' < backlog t" using Some by (simp add: backlog_def)
    ultimately show ?thesis using assms(2) by (intro exI [of _ ?t']) (auto simp: undisturbed_def)
  qed
qed

lemma drains:
  assumes "0 < n" "undisturbed A t"
  shows "\<exists>t'. (tarpit_step n)\<^sup>*\<^sup>* t t' \<and> undisturbed A t' \<and> backlog t' = 0"
  using steps_to_zero [where I = "undisturbed A" and s = t and step = "tarpit_step n" and m = backlog]
    drain_step [OF assms(1)] assms(2) by blast

lemma backlog_zero: "backlog t = 0 \<Longrightarrow> held t = {#}"
  by (auto simp: backlog_def held_def hand_conns_def split: option.splits)

text \<open>After \<open>run\<close> has returned nothing takes a job out of the queue any more.\<close>

lemma stopped_step:
  "tarpit_step n t t' \<Longrightarrow> \<not> running t \<Longrightarrow> \<not> running t' \<and> set (jobs t) \<subseteq> set (jobs t')"
  by (induction rule: tarpit_step.induct) (auto simp: tarpit_op_defs)

lemma stopped_steps:
  assumes "(tarpit_step n)\<^sup>*\<^sup>* t t'" "\<not> running t"
  shows "set (jobs t) \<subseteq> set (jobs t')"
proof -
  have "\<not> running t' \<and> set (jobs t) \<subseteq> set (jobs t')"
    using assms(1)
    by (rule steps_invariant [where I = "\<lambda>u. \<not> running u \<and> set (jobs t) \<subseteq> set (jobs u)"])
       (use assms(2) stopped_step in blast)+
  then show ?thesis ..
qed

section \<open>Properties\<close>

lemma tarpit_reach_new: "tarpit_reach n (NewTarpit now)"
  unfolding tarpit_reach_def by (rule reach_init) auto

lemma tarpit_reach_next: "tarpit_reach n t \<Longrightarrow> tarpit_step n t t' \<Longrightarrow> tarpit_reach n t'"
  unfolding tarpit_reach_def by (rule reach_step)

text \<open>C26. Bounded and conserving: in every reachable state at most 1000 jobs are queued and at most
  \<open>maxWorkers\<close> goroutines hold a slot, and every connection handed to \<open>Add\<close> is, exactly once,
  queued, held, closed, or lost by a shutdown.\<close>

theorem tarpit_conserves:
  assumes "tarpit_reach maxWorkers t"
  shows "length (jobs t) \<le> jobs_cap \<and> length (workers t) \<le> maxWorkers
    \<and> mset (map fst (added t)) = held t + mset (map fst (closed t)) + mset (lost t)"
  using tarpit_reach_inv [OF assms] by (simp add: tarpit_bounded_def conserved_def)

theorem tarpit_conserves_witness:
  "mset (map fst (added (Add 7 50 (NewTarpit 0)))) = held (Add 7 50 (NewTarpit 0)) \<and> held (Add 7 50 (NewTarpit 0)) = {#7#}"
proof -
  have "tarpit_reach 10 (Add 7 50 (NewTarpit 0))"
    by (rule tarpit_reach_next [OF tarpit_reach_new tarpit_step.add])
  from tarpit_conserves [OF this] show ?thesis
    by (simp add: Add_def NewTarpit_def jobs_cap_def held_def hand_conns_def)
qed

text \<open>C33. Clients wait their full delay: in every reachable state a connection that was closed by its
  timer had been added at least its delay earlier, and while the context is not cancelled nothing
  is lost and connections are closed only by a timer or because the queue was full.\<close>

theorem tarpit_waits:
  assumes "tarpit_reach maxWorkers t"
  shows "((c, at, TimerFired) \<in> set (closed t) \<longrightarrow> (\<exists>a d. (c, a, d) \<in> set (added t) \<and> a + d \<le> at))
    \<and> (\<not> cancelled t \<longrightarrow> lost t = [] \<and> (c, at, ContextDone) \<notin> set (closed t))"
  using timed_dest(4,5,6) [OF tarpit_reach_inv(3) [OF assms]] by (fastforce simp: was_added_def)

theorem tarpit_waits_witness:
  "lost (Add 7 50 (NewTarpit 0)) = [] \<and> (7, 0, ContextDone) \<notin> set (closed (Add 7 50 (NewTarpit 0)))"
proof -
  have "tarpit_reach 10 (Add 7 50 (NewTarpit 0))"
    by (rule tarpit_reach_next [OF tarpit_reach_new tarpit_step.add])
  from tarpit_waits [OF this, of 7 0] show ?thesis
    by (simp add: Add_def NewTarpit_def jobs_cap_def)
qed

text \<open>C32. Nobody is kept forever: with at least one worker, from every reachable state with a live
  context there is a run, without new arrivals, after which every connection ever added is closed.\<close>

theorem tarpit_drains:
  assumes "0 < maxWorkers" "tarpit_reach maxWorkers t" "\<not> cancelled t"
  shows "\<exists>t'. (tarpit_step maxWorkers)\<^sup>*\<^sup>* t t' \<and> added t' = added t
    \<and> mset (map fst (closed t')) = mset (map fst (added t))"
proof -
  have "undisturbed (added t) t"
    using timed_dest(6) [OF tarpit_reach_inv(3) [OF assms(2)]] assms(3) by (simp add: undisturbed_def) blast
  from drains [OF assms(1) this] obtain t' where
    t': "(tarpit_step maxWorkers)\<^sup>*\<^sup>* t t'" "undisturbed (added t) t'" "backlog t' = 0" by blast
  have "tarpit_reach maxWorkers t'"
    using reach_steps [OF assms(2) [unfolded tarpit_reach_def] t'(1)] by (simp add: tarpit_reach_def)
  note inv = tarpit_reach_inv [OF this]
  have "lost t' = []"
    using timed_dest(6) [OF inv(3)] t'(2) by (auto simp: undisturbed_def)
  then have "mset (map fst (closed t')) = mset (map fst (added t'))"
    using inv(2) backlog_zero [OF t'(3)] by (simp add: conserved_def)
  moreover have "added t' = added t" using t'(2) by (simp add: undisturbed_def)
  ultimately show ?thesis using t'(1) by (intro exI [of _ t']) simp
qed

theorem tarpit_drains_witness:
  "\<exists>t'. (tarpit_step 10)\<^sup>*\<^sup>* (Add 7 50 (NewTarpit 0)) t' \<and> mset (map fst (closed t')) = {#7#}"
proof -
  have r: "tarpit_reach 10 (Add 7 50 (NewTarpit 0))"
    by (rule tarpit_reach_next [OF tarpit_reach_new tarpit_step.add])
  have "\<not> cancelled (Add 7 50 (NewTarpit 0))"
    by (simp add: Add_def NewTarpit_def jobs_cap_def)
  from tarpit_drains [OF _ r this] show ?thesis
    by (auto simp: Add_def NewTarpit_def jobs_cap_def)
qed

text \<open>Connections leak at shutdown: once \<open>run\<close> has returned, a connection that is queued, or is
  added later, stays queued for ever and is never closed.\<close>

theorem tarpit_shutdown_leak:
  assumes "\<not> running t" "(tarpit_step maxWorkers)\<^sup>*\<^sup>* t t'"
  shows "set (jobs t) \<subseteq> set (jobs t')"
  using stopped_steps [OF assms(2,1)] .

theorem tarpit_shutdown_leak_witness:
  "(7, 50) \<in> set (jobs (run_return ((Add 7 50 (NewTarpit 0))\<lparr>cancelled := True, clock := 1000\<rparr>)))"
proof -
  let ?t = "run_return ((Add 7 50 (NewTarpit 0))\<lparr>cancelled := True\<rparr>)"
  let ?t' = "?t\<lparr>clock := clock ?t + 1000\<rparr>"
  have "(tarpit_step 10)\<^sup>*\<^sup>* ?t ?t'" by (intro r_into_rtranclp tarpit_step.tick) simp
  from tarpit_shutdown_leak [OF _ this] show ?thesis
    by (simp add: Add_def NewTarpit_def jobs_cap_def run_return_def)
qed

end
