(* ===== verification/Base64.thy ===== *)
theory Base64
  imports Prelude
begin

text \<open>
  Base64 as the repository uses it from Go's \<open>encoding/base64\<close>: \<open>RawStdEncoding\<close> (no padding) in
  \<open>internal/sshd/identity_codec.go\<close>, and the padded \<open>StdEncoding\<close> by which \<open>encoding/json\<close> writes
  a \<open>[]byte\<close>. Decoding skips carriage returns and newlines and ignores the unused low bits of the
  last digit, as the Go decoder does. Shown: both encodings round trip.
\<close>

section \<open>Digits\<close>

definition b64_alphabet :: string where
  "b64_alphabet = ''ABCDEFGHIJKLMNOPQRSTUVWXYZabcdefghijklmnopqrstuvwxyz0123456789+/''"

definition b64_digit :: "nat \<Rightarrow> char" where
  "b64_digit n = b64_alphabet ! n"

definition b64_value :: "char \<Rightarrow> nat option" where
  "b64_value c = map_of (zip b64_alphabet [0..<64]) c"

lemma b64_alphabet_length: "length b64_alphabet = 64"
  by (simp add: b64_alphabet_def)

lemma b64_alphabet_distinct: "distinct b64_alphabet"
  by (simp add: b64_alphabet_def)

lemma b64_value_digit: "n < 64 \<Longrightarrow> b64_value (b64_digit n) = Some n"
  using map_of_zip_nth [of b64_alphabet "[0..<64]" n]
  by (simp add: b64_value_def b64_digit_def b64_alphabet_length b64_alphabet_distinct)

lemma b64_digit_in: "n < 64 \<Longrightarrow> b64_digit n \<in> set b64_alphabet"
  by (simp add: b64_digit_def b64_alphabet_length)

section \<open>Six-bit groups\<close>

lemma byte_parts:
  fixes n :: nat
  assumes "n < 256"
  shows "n div 4 < 64" "n div 16 < 16" "n div 64 < 4"
  using assms by (simp_all add: div_less_iff_less_mult)

lemma pad_amount:
  fixes l :: nat
  assumes "l mod 4 \<noteq> 1"
  shows "(4 - l mod 4) mod 4 \<le> 2" "(l + (4 - l mod 4) mod 4) mod 4 = 0"
proof -
  define q r where "q = l div 4" and "r = l mod 4"
  have l: "l = 4 * q + r" and "r < 4" by (simp_all add: q_def r_def)
  then have "r = 0 \<or> r = 2 \<or> r = 3" using assms by auto
  then show "(4 - l mod 4) mod 4 \<le> 2" "(l + (4 - l mod 4) mod 4) mod 4 = 0"
    unfolding r_def [symmetric] by (auto simp: l)
qed

fun to_sextets :: "nat list \<Rightarrow> nat list" where
  "to_sextets [] = []"
| "to_sextets [a] = [a div 4, (a mod 4) * 16]"
| "to_sextets [a, b] = [a div 4, (a mod 4) * 16 + b div 16, (b mod 16) * 4]"
| "to_sextets (a # b # c # rest) =
     [a div 4, (a mod 4) * 16 + b div 16, (b mod 16) * 4 + c div 64, c mod 64] @ to_sextets rest"

fun from_sextets :: "nat list \<Rightarrow> nat list option" where
  "from_sextets [] = Some []"
| "from_sextets [x] = None"
| "from_sextets [x, y] = Some [x * 4 + y div 16]"
| "from_sextets [x, y, z] = Some [x * 4 + y div 16, (y mod 16) * 16 + z div 4]"
| "from_sextets (x # y # z # w # rest) =
     (case from_sextets rest of None \<Rightarrow> None
      | Some bs \<Rightarrow> Some ([x * 4 + y div 16, (y mod 16) * 16 + z div 4, (z mod 4) * 64 + w] @ bs))"

lemma sextets_round:
  "list_all (\<lambda>b. b < 256) bs \<Longrightarrow> from_sextets (to_sextets bs) = Some bs"
proof (induction bs rule: to_sextets.induct)
  case (2 a)
  then show ?case by simp
next
  case (3 a b)
  then have "b div 16 < 16" by (simp add: byte_parts)
  then show ?case by (simp add: div_mult_mod_eq)
next
  case (4 a b c rest)
  then have lt: "a < 256" "b < 256" "c < 256" and rest: "from_sextets (to_sextets rest) = Some rest"
    by simp_all
  have "b div 16 < 16" "c div 64 < 4" using lt by (simp_all add: byte_parts)
  then have "((a mod 4) * 16 + b div 16) div 16 = a mod 4" "((a mod 4) * 16 + b div 16) mod 16 = b div 16"
    "((b mod 16) * 4 + c div 64) div 4 = b mod 16" "((b mod 16) * 4 + c div 64) mod 4 = c div 64"
    by simp_all
  with rest show ?case by (simp add: div_mult_mod_eq mult.commute)
qed simp

lemma to_sextets_small:
  "list_all (\<lambda>b. b < 256) bs \<Longrightarrow> list_all (\<lambda>x. x < 64) (to_sextets bs)"
proof (induction bs rule: to_sextets.induct)
  case (4 a b c rest)
  moreover have "(a mod 4) * 16 + b div 16 < 64" "(b mod 16) * 4 + c div 64 < 64"
  proof -
    from "4.prems" have "b div 16 < 16" "c div 64 < 4" by (simp_all add: byte_parts)
    moreover have "a mod 4 < 4" "b mod 16 < 16" by simp_all
    ultimately show "(a mod 4) * 16 + b div 16 < 64" "(b mod 16) * 4 + c div 64 < 64" by linarith+
  qed
  ultimately show ?case using byte_parts(1) [of a] by simp
next
  case (3 a b)
  then have "b div 16 < 16" by (simp add: byte_parts)
  moreover have "a mod 4 < 4" "b mod 16 < 16" by simp_all
  ultimately have "(a mod 4) * 16 + b div 16 < 64" "(b mod 16) * 4 < 64" by linarith+
  with 3 show ?case using byte_parts(1) [of a] by simp
next
  case (2 a)
  then show ?case using byte_parts(1) [of a] by simp
qed simp

lemma to_sextets_length_mod: "length (to_sextets bs) mod 4 \<noteq> 1"
  by (induction bs rule: to_sextets.induct) auto

section \<open>The encodings\<close>

definition b64_raw_encode :: "bytes \<Rightarrow> string" where
  "b64_raw_encode bs = map b64_digit (to_sextets (map unat bs))"

definition strip_newlines :: "string \<Rightarrow> string" where
  "strip_newlines s = filter (\<lambda>c. c \<noteq> CHR 0x0A \<and> c \<noteq> CHR 0x0D) s"

fun all_some :: "'a option list \<Rightarrow> 'a list option" where
  "all_some [] = Some []"
| "all_some (None # xs) = None"
| "all_some (Some x # xs) = map_option (Cons x) (all_some xs)"

definition b64_decode_digits :: "string \<Rightarrow> bytes option" where
  "b64_decode_digits s =
     (case all_some (map b64_value s) of None \<Rightarrow> None
      | Some xs \<Rightarrow> map_option (map word_of_nat) (from_sextets xs))"

definition b64_raw_decode :: "string \<Rightarrow> bytes option" where
  "b64_raw_decode s = b64_decode_digits (strip_newlines s)"

definition b64_std_encode :: "bytes \<Rightarrow> string" where
  "b64_std_encode bs =
     (let r = b64_raw_encode bs in r @ replicate ((4 - length r mod 4) mod 4) CHR ''='')"

definition strip_padding :: "string \<Rightarrow> string" where
  "strip_padding s =
     (if length s \<ge> 2 \<and> drop (length s - 2) s = ''=='' then take (length s - 2) s
      else if length s \<ge> 1 \<and> drop (length s - 1) s = ''='' then take (length s - 1) s
      else s)"

definition b64_std_decode :: "string \<Rightarrow> bytes option" where
  "b64_std_decode s =
     (let t = strip_newlines s
      in if length t mod 4 = 0 then b64_decode_digits (strip_padding t) else None)"

section \<open>Round trips\<close>

lemma all_some_map: "(\<And>x. x \<in> set xs \<Longrightarrow> f x = Some (g x)) \<Longrightarrow> all_some (map f xs) = Some (map g xs)"
  by (induction xs) auto

lemma unat_bytes_small: "list_all (\<lambda>b. b < 256) (map unat (bs :: bytes))"
  using unsigned_less [where 'a = nat and 'b = 8] by (simp add: list_all_iff)

lemma b64_decode_encode: "b64_decode_digits (b64_raw_encode bs) = Some bs"
proof -
  let ?xs = "to_sextets (map unat bs)"
  have "list_all (\<lambda>x. x < 64) ?xs" by (rule to_sextets_small [OF unat_bytes_small])
  then have "all_some (map (\<lambda>x. b64_value (b64_digit x)) ?xs) = Some (map (\<lambda>x. x) ?xs)"
    by (intro all_some_map) (simp add: list_all_iff b64_value_digit)
  moreover have "map word_of_nat (map unat bs) = bs" by (simp add: comp_def)
  ultimately show ?thesis
    using sextets_round [OF unat_bytes_small, of bs]
    by (simp add: b64_decode_digits_def b64_raw_encode_def comp_def)
qed

lemma b64_encode_chars: "set (b64_raw_encode bs) \<subseteq> set b64_alphabet"
  using to_sextets_small [OF unat_bytes_small, of bs] b64_digit_in
  by (auto simp: b64_raw_encode_def list_all_iff)

lemma alphabet_special:
  "CHR 0x0A \<notin> set b64_alphabet" "CHR 0x0D \<notin> set b64_alphabet" "CHR ''='' \<notin> set b64_alphabet"
  by (simp_all add: b64_alphabet_def)

lemma strip_newlines_id: "CHR 0x0A \<notin> set s \<Longrightarrow> CHR 0x0D \<notin> set s \<Longrightarrow> strip_newlines s = s"
  by (induction s) (auto simp: strip_newlines_def)

lemma b64_raw_round: "b64_raw_decode (b64_raw_encode bs) = Some bs"
proof -
  have "strip_newlines (b64_raw_encode bs) = b64_raw_encode bs"
    using b64_encode_chars [of bs] alphabet_special by (intro strip_newlines_id) auto
  then show ?thesis by (simp add: b64_raw_decode_def b64_decode_encode)
qed

lemma strip_padding_pad:
  assumes "CHR ''='' \<notin> set s" "n \<le> 2"
  shows "strip_padding (s @ replicate n CHR ''='') = s"
proof -
  consider "n = 0" | "n = 1" | "n = 2" using assms(2) by linarith
  then show ?thesis
  proof cases
    case 1
    have "CHR ''='' \<notin> set (drop k s)" for k using assms(1) by (meson in_set_dropD)
    then have "drop k s \<noteq> ''=''" "drop k s \<noteq> ''==''" for k by (metis list.set_intros(1))+
    with 1 show ?thesis by (simp add: strip_padding_def)
  next
    case 2
    have "CHR ''='' \<notin> set (drop k s)" for k using assms(1) by (meson in_set_dropD)
    then have "drop k s @ ''='' \<noteq> ''==''" for k by (cases "drop k s") (auto simp: neq_Nil_conv, metis list.set_intros(1))
    with 2 show ?thesis by (auto simp: strip_padding_def)
  next
    case 3
    then show ?thesis by (simp add: strip_padding_def numeral_2_eq_2)
  qed
qed

lemma b64_std_round: "b64_std_decode (b64_std_encode bs) = Some bs"
proof -
  let ?r = "b64_raw_encode bs"
  let ?n = "(4 - length ?r mod 4) mod 4"
  have "length ?r mod 4 \<noteq> 1"
    using to_sextets_length_mod [of "map unat bs"] by (simp add: b64_raw_encode_def)
  note n = pad_amount [OF this]
  have eq: "CHR ''='' \<notin> set ?r" using b64_encode_chars [of bs] alphabet_special(3) by blast
  have "strip_newlines (?r @ replicate ?n CHR ''='') = ?r @ replicate ?n CHR ''=''"
    using b64_encode_chars [of bs] alphabet_special by (intro strip_newlines_id) auto
  then show ?thesis
    using n strip_padding_pad [OF eq n(1)] b64_decode_encode
    by (simp add: b64_std_decode_def b64_std_encode_def Let_def)
qed

lemma b64_raw_nonempty: "bs \<noteq> [] \<Longrightarrow> b64_raw_encode bs \<noteq> []"
  by (cases "map unat bs" rule: to_sextets.cases) (auto simp: b64_raw_encode_def)

end
