(* ===== verification/Utf8.thy ===== *)
theory Utf8
  imports Prelude
begin

text \<open>
  UTF-8 as Go's \<open>unicode/utf8\<close> decodes it. \<open>rune_split\<close> takes the first encoded rune above 127 off
  a byte string, or fails where \<open>DecodeRune\<close> reports an error of width one: overlong forms,
  surrogates, values above U+10FFFF and cut sequences are invalid. \<open>to_valid\<close> replaces every byte that
  starts no valid rune by the encoding of U+FFFD; it is what a string becomes on its way through
  \<open>encoding/json\<close>.
\<close>

definition byte_in :: "nat \<Rightarrow> nat \<Rightarrow> char \<Rightarrow> bool" where
  "byte_in lo hi c \<longleftrightarrow> lo \<le> (of_char c :: nat) \<and> (of_char c :: nat) \<le> hi"

abbreviation is_ascii :: "char \<Rightarrow> bool" where
  "is_ascii c \<equiv> byte_in 0 0x7F c"

abbreviation is_cont :: "char \<Rightarrow> bool" where
  "is_cont c \<equiv> byte_in 0x80 0xBF c"

text \<open>Bytes that are written out are compared by computation.\<close>

lemma byte_in_Char [simp]:
  "byte_in lo hi (Char b0 b1 b2 b3 b4 b5 b6 b7) \<longleftrightarrow>
     lo \<le> (of_char (Char b0 b1 b2 b3 b4 b5 b6 b7) :: nat) \<and> (of_char (Char b0 b1 b2 b3 b4 b5 b6 b7) :: nat) \<le> hi"
  by (simp add: byte_in_def)

text \<open>The range of the second byte depends on the first.\<close>

definition second3 :: "char \<Rightarrow> char \<Rightarrow> bool" where
  "second3 c a \<longleftrightarrow> byte_in (if c = CHR 0xE0 then 0xA0 else 0x80) (if c = CHR 0xED then 0x9F else 0xBF) a"

definition second4 :: "char \<Rightarrow> char \<Rightarrow> bool" where
  "second4 c a \<longleftrightarrow> byte_in (if c = CHR 0xF0 then 0x90 else 0x80) (if c = CHR 0xF4 then 0x8F else 0xBF) a"

fun rune_split :: "string \<Rightarrow> (string \<times> string) option" where
  "rune_split [] = None"
| "rune_split (c # cs) =
     (if byte_in 0xC2 0xDF c then
        (case cs of a # t \<Rightarrow> if is_cont a then Some ([c, a], t) else None | _ \<Rightarrow> None)
      else if byte_in 0xE0 0xEF c then
        (case cs of a # b # t \<Rightarrow> if second3 c a \<and> is_cont b then Some ([c, a, b], t) else None | _ \<Rightarrow> None)
      else if byte_in 0xF0 0xF4 c then
        (case cs of a # b # d # t \<Rightarrow>
           if second4 c a \<and> is_cont b \<and> is_cont d then Some ([c, a, b, d], t) else None | _ \<Rightarrow> None)
      else None)"

lemma rune_split_Some:
  assumes "rune_split s = Some (r, t)"
  shows "s = r @ t \<and> r \<noteq> [] \<and> (\<forall>u. rune_split (r @ u) = Some (r, u))"
  using assms by (cases s) (auto split: if_splits list.splits)

lemma rune_split_length [termination_simp]:
  "rune_split s = Some (r, t) \<Longrightarrow> length t < length s"
  using rune_split_Some [of s r t] by auto

text \<open>The replacement character.\<close>

definition replacement :: string where
  "replacement = [CHR 0xEF, CHR 0xBF, CHR 0xBD]"

function to_valid :: "string \<Rightarrow> string" where
  "to_valid [] = []"
| "to_valid (c # cs) =
     (if is_ascii c then c # to_valid cs
      else (case rune_split (c # cs) of
              None \<Rightarrow> replacement @ to_valid cs
            | Some (r, t) \<Rightarrow> r @ to_valid t))"
  by pat_completeness auto
termination
  by (relation "measure length") (auto dest: rune_split_length simp del: rune_split.simps)

declare to_valid.simps(2) [simp del]

lemma to_valid_ascii [simp]: "is_ascii c \<Longrightarrow> to_valid (c # cs) = c # to_valid cs"
  by (simp add: to_valid.simps(2))

lemma rune_first: "rune_split s = Some (r, t) \<Longrightarrow> \<not> is_ascii (hd r)"
  by (cases s) (auto simp: byte_in_def split: if_splits list.splits)

lemma to_valid_rune:
  assumes "rune_split s = Some (r, t)"
  shows "to_valid (r @ u) = r @ to_valid u"
proof -
  from rune_split_Some [OF assms] obtain c cs where r: "r = c # cs" by (cases r) auto
  with rune_first [OF assms] have "\<not> is_ascii c" by simp
  with rune_split_Some [OF assms] r show ?thesis
    by (simp add: to_valid.simps(2) del: rune_split.simps)
qed

lemma rune_split_replacement: "rune_split (replacement @ u) = Some (replacement, u)"
  by (simp add: replacement_def byte_in_def second3_def)

lemma to_valid_bad:
  "\<not> is_ascii c \<Longrightarrow> rune_split (c # cs) = None \<Longrightarrow> to_valid (c # cs) = replacement @ to_valid cs"
  by (simp add: to_valid.simps(2) del: rune_split.simps)

lemma to_valid_good:
  "\<not> is_ascii c \<Longrightarrow> rune_split (c # cs) = Some (r, t) \<Longrightarrow> to_valid (c # cs) = r @ to_valid t"
  by (simp add: to_valid.simps(2) del: rune_split.simps)

lemma to_valid_idem [simp]: "to_valid (to_valid s) = to_valid s"
proof (induction s rule: to_valid.induct)
  case (2 c cs)
  show ?case
  proof (cases "is_ascii c")
    case True
    with 2(1) show ?thesis by simp
  next
    case False
    show ?thesis
    proof (cases "rune_split (c # cs)")
      case None
      with 2(2) False to_valid_rune [OF rune_split_replacement [of "[]"], of "to_valid cs"]
      show ?thesis by (simp add: to_valid_bad del: rune_split.simps)
    next
      case (Some p)
      obtain r t where p: "p = (r, t)" by (cases p)
      with 2(3) [OF False Some p [symmetric]] False Some to_valid_rune [of "c # cs" r t "to_valid t"]
      show ?thesis by (simp add: to_valid_good del: rune_split.simps)
    qed
  qed
qed simp

lemma to_valid_all_ascii: "list_all is_ascii s \<Longrightarrow> to_valid s = s"
  by (induction s) simp_all

lemma to_valid_Nil_iff [simp]: "to_valid s = [] \<longleftrightarrow> s = []"
proof (cases s)
  case (Cons c cs)
  then show ?thesis
    by (cases "is_ascii c"; cases "rune_split s")
       (auto simp: to_valid.simps(2) replacement_def simp del: rune_split.simps dest: rune_split_Some)
qed simp

end
