(* ===== verification/Json.thy ===== *)
theory Json
  imports Base64 Utf8
begin

text \<open>
  The part of Go's \<open>encoding/json\<close> that carries identities: values, the compact printer of
  \<open>json.Marshal\<close> (with its HTML-safe escapes) and the parser behind \<open>json.Unmarshal\<close>, on byte
  strings. Numbers are kept as their text. Strings go through as UTF-8 (\<open>Utf8\<close>): the printer escapes
  what starts no valid rune as U+FFFD, and the two line separators; the parser joins escaped surrogate
  pairs and replaces what is invalid. So a printed value is read back with its strings made valid
  (\<open>json_valid\<close>), which is the round trip. The parser recurses on fuel; the fuel given by \<open>json_parse\<close>,
  the length of the text plus one, is enough for everything the printer produces.
\<close>

datatype json =
    JNull
  | JBool bool
  | JNum string
  | JStr string
  | JArr "json list"
  | JObj "(string \<times> json) list"

section \<open>Printing\<close>

definition hex4 :: "nat \<Rightarrow> string" where
  "hex4 n = [hex_digit (n div 4096 mod 16), hex_digit (n div 256 mod 16),
             hex_digit (n div 16 mod 16), hex_digit (n mod 16)]"

definition short_escape :: "char \<Rightarrow> char option" where
  "short_escape c = map_of
     [(CHR 0x22, CHR 0x22), (CHR 0x5C, CHR 0x5C), (CHR 0x08, CHR ''b''), (CHR 0x0C, CHR ''f''),
      (CHR 0x0A, CHR ''n''), (CHR 0x0D, CHR ''r''), (CHR 0x09, CHR ''t'')] c"

definition is_control :: "char \<Rightarrow> bool" where
  "is_control c \<longleftrightarrow> (of_char c :: nat) < 32"

definition escape_char :: "char \<Rightarrow> string" where
  "escape_char c =
     (case short_escape c of
        Some e \<Rightarrow> [CHR 0x5C, e]
      | None \<Rightarrow>
          (if is_control c \<or> c \<in> set ''<>&'' then CHR 0x5C # CHR ''u'' # hex4 (of_char c)
           else [c]))"

text \<open>U+2028 and U+2029 are escaped.\<close>

definition escape_rune :: "string \<Rightarrow> string" where
  "escape_rune r =
     (if r = [CHR 0xE2, CHR 0x80, CHR 0xA8] then CHR 0x5C # ''u2028''
      else if r = [CHR 0xE2, CHR 0x80, CHR 0xA9] then CHR 0x5C # ''u2029''
      else r)"

function print_body :: "string \<Rightarrow> string" where
  "print_body [] = []"
| "print_body (c # cs) =
     (if is_ascii c then escape_char c @ print_body cs
      else (case rune_split (c # cs) of
              None \<Rightarrow> CHR 0x5C # ''ufffd'' @ print_body cs
            | Some (r, t) \<Rightarrow> escape_rune r @ print_body t))"
  by pat_completeness auto
termination
  by (relation "measure length") (auto dest: rune_split_length simp del: rune_split.simps)

declare print_body.simps(2) [simp del]

definition print_string :: "string \<Rightarrow> string" where
  "print_string s = CHR 0x22 # print_body s @ [CHR 0x22]"

fun print_json :: "json \<Rightarrow> string" where
  "print_json JNull = ''null''"
| "print_json (JBool b) = (if b then ''true'' else ''false'')"
| "print_json (JNum t) = t"
| "print_json (JStr s) = print_string s"
| "print_json (JArr xs) = CHR ''['' # str_join '','' (map print_json xs) @ '']''"
| "print_json (JObj fs) =
     CHR ''{'' # str_join '','' (map (\<lambda>(k, v). print_string k @ '':'' @ print_json v) fs) @ ''}''"

section \<open>Parsing\<close>

definition hex_value :: "char \<Rightarrow> nat option" where
  "hex_value c =
     (let n = (of_char c :: nat)
      in if 48 \<le> n \<and> n \<le> 57 then Some (n - 48)
         else if 97 \<le> n \<and> n \<le> 102 then Some (n - 87)
         else if 65 \<le> n \<and> n \<le> 70 then Some (n - 55)
         else None)"

definition hex4_value :: "char \<Rightarrow> char \<Rightarrow> char \<Rightarrow> char \<Rightarrow> nat option" where
  "hex4_value a b c d =
     (case (hex_value a, hex_value b, hex_value c, hex_value d) of
        (Some w, Some x, Some y, Some z) \<Rightarrow> Some (((w * 16 + x) * 16 + y) * 16 + z)
      | _ \<Rightarrow> None)"

text \<open>UTF-8 of a code point; a lone surrogate becomes U+FFFD.\<close>

definition utf8 :: "nat \<Rightarrow> string" where
  "utf8 n =
     (if n < 0x80 then [char_of n]
      else if n < 0x800 then [char_of (0xC0 + n div 64), char_of (0x80 + n mod 64)]
      else if 0xD800 \<le> n \<and> n < 0xE000 then replacement
      else if n < 0x10000 then [char_of (0xE0 + n div 4096), char_of (0x80 + n div 64 mod 64), char_of (0x80 + n mod 64)]
      else [char_of (0xF0 + n div 262144), char_of (0x80 + n div 4096 mod 64), char_of (0x80 + n div 64 mod 64),
            char_of (0x80 + n mod 64)])"

text \<open>What follows \<open>\u\<close>: four digits; after a high surrogate, the escape of a low one belongs to it.\<close>

definition u_escape :: "string \<Rightarrow> (nat \<times> string) option" where
  "u_escape ds =
     (case ds of
        h1 # h2 # h3 # h4 # t \<Rightarrow> map_option (\<lambda>n. (n, t)) (hex4_value h1 h2 h3 h4)
      | _ \<Rightarrow> None)"

definition low_half :: "string \<Rightarrow> (nat \<times> string) option" where
  "low_half t =
     (case t of
        b # u # ds \<Rightarrow>
          (if b = CHR 0x5C \<and> u = CHR ''u'' then
             (case u_escape ds of
                None \<Rightarrow> None
              | Some (m, t') \<Rightarrow> if 0xDC00 \<le> m \<and> m < 0xE000 then Some (m, t') else None)
           else None)
      | _ \<Rightarrow> None)"

definition rune_escape :: "string \<Rightarrow> (string \<times> string) option" where
  "rune_escape ds =
     (case u_escape ds of
        None \<Rightarrow> None
      | Some (n, t) \<Rightarrow>
          (if 0xD800 \<le> n \<and> n < 0xDC00 then
             (case low_half t of
                None \<Rightarrow> Some (utf8 n, t)
              | Some (m, t') \<Rightarrow> Some (utf8 (0x10000 + (n - 0xD800) * 1024 + (m - 0xDC00)), t'))
           else Some (utf8 n, t)))"

lemma u_escape_length: "u_escape ds = Some (n, t) \<Longrightarrow> length t < length ds"
  by (auto simp: u_escape_def split: list.splits)

lemma rune_escape_length: "rune_escape ds = Some (x, t) \<Longrightarrow> length t < length ds"
  by (auto simp: rune_escape_def low_half_def dest!: u_escape_length split: option.splits if_splits list.splits)

definition unescape :: "char \<Rightarrow> char option" where
  "unescape c = map_of
     [(CHR 0x22, CHR 0x22), (CHR 0x5C, CHR 0x5C), (CHR ''/'', CHR ''/''), (CHR ''b'', CHR 0x08),
      (CHR ''f'', CHR 0x0C), (CHR ''n'', CHR 0x0A), (CHR ''r'', CHR 0x0D), (CHR ''t'', CHR 0x09)] c"

text \<open>The body of a string after its opening quote: the text and what follows the closing quote.\<close>

function parse_body :: "string \<Rightarrow> (string \<times> string) option" where
  "parse_body [] = None"
| "parse_body (c # cs) =
     (if c = CHR 0x22 then Some ([], cs)
      else if c = CHR 0x5C then
        (case cs of
           [] \<Rightarrow> None
         | e # ds \<Rightarrow>
             (if e = CHR ''u'' then
                (case rune_escape ds of
                   None \<Rightarrow> None
                 | Some (x, t) \<Rightarrow> map_option (\<lambda>(s, r). (x @ s, r)) (parse_body t))
              else
                (case unescape e of
                   None \<Rightarrow> None
                 | Some x \<Rightarrow> map_option (\<lambda>(s, r). (x # s, r)) (parse_body ds))))
      else if is_control c then None
      else if is_ascii c then map_option (\<lambda>(s, r). (c # s, r)) (parse_body cs)
      else
        (case rune_split (c # cs) of
           None \<Rightarrow> map_option (\<lambda>(s, r). (replacement @ s, r)) (parse_body cs)
         | Some (x, t) \<Rightarrow> map_option (\<lambda>(s, r). (x @ s, r)) (parse_body t)))"
  by pat_completeness auto
termination
  by (relation "measure length") (auto dest: rune_split_length rune_escape_length simp del: rune_split.simps)

declare parse_body.simps(2) [simp del]

definition json_space :: "char \<Rightarrow> bool" where
  "json_space c \<longleftrightarrow> c \<in> {CHR 0x20, CHR 0x09, CHR 0x0A, CHR 0x0D}"

definition skip_ws :: "string \<Rightarrow> string" where
  "skip_ws s = dropWhile json_space s"

definition num_char :: "char \<Rightarrow> bool" where
  "num_char c \<longleftrightarrow> c \<in> set ''0123456789+-.eE''"

text \<open>The number literals of JSON.\<close>

definition is_digit :: "char \<Rightarrow> bool" where
  "is_digit c \<longleftrightarrow> c \<in> set ''0123456789''"

definition valid_exp :: "string \<Rightarrow> bool" where
  "valid_exp s =
     (case s of [] \<Rightarrow> True
      | c # r \<Rightarrow>
          let d = (if r \<noteq> [] \<and> hd r \<in> set ''+-'' then tl r else r)
          in c \<in> set ''eE'' \<and> d \<noteq> [] \<and> list_all is_digit d)"

definition valid_frac :: "string \<Rightarrow> bool" where
  "valid_frac s =
     (if s \<noteq> [] \<and> hd s = CHR ''.''
      then takeWhile is_digit (tl s) \<noteq> [] \<and> valid_exp (dropWhile is_digit (tl s))
      else valid_exp s)"

definition valid_num :: "string \<Rightarrow> bool" where
  "valid_num s =
     (case (if s \<noteq> [] \<and> hd s = CHR ''-'' then tl s else s) of
        [] \<Rightarrow> False
      | c # cs \<Rightarrow>
          if c = CHR ''0'' then valid_frac cs
          else is_digit c \<and> valid_frac (dropWhile is_digit cs))"

definition starts_with :: "string \<Rightarrow> string \<Rightarrow> bool" where
  "starts_with p s \<longleftrightarrow> take (length p) s = p"

text \<open>A value, the members of an object after its brace or a comma, the elements of an array.\<close>

fun parse_value :: "nat \<Rightarrow> string \<Rightarrow> (json \<times> string) option"
  and parse_members :: "nat \<Rightarrow> string \<Rightarrow> ((string \<times> json) list \<times> string) option"
  and parse_elems :: "nat \<Rightarrow> string \<Rightarrow> (json list \<times> string) option" where
  "parse_value 0 s = None"
| "parse_value (Suc f) s =
     (case skip_ws s of
        [] \<Rightarrow> None
      | c # cs \<Rightarrow>
          (if c = CHR 0x22 then map_option (\<lambda>(x, r). (JStr x, r)) (parse_body cs)
           else if c = CHR ''{'' then
             (if starts_with ''}'' (skip_ws cs) then Some (JObj [], tl (skip_ws cs))
              else map_option (\<lambda>(x, r). (JObj x, r)) (parse_members f cs))
           else if c = CHR ''['' then
             (if starts_with '']'' (skip_ws cs) then Some (JArr [], tl (skip_ws cs))
              else map_option (\<lambda>(x, r). (JArr x, r)) (parse_elems f cs))
           else if starts_with ''null'' (c # cs) then Some (JNull, drop 4 (c # cs))
           else if starts_with ''true'' (c # cs) then Some (JBool True, drop 4 (c # cs))
           else if starts_with ''false'' (c # cs) then Some (JBool False, drop 5 (c # cs))
           else if num_char c \<and> valid_num (takeWhile num_char (c # cs)) then
             Some (JNum (takeWhile num_char (c # cs)), dropWhile num_char (c # cs))
           else None))"
| "parse_members 0 s = None"
| "parse_members (Suc f) s =
     (case skip_ws s of
        [] \<Rightarrow> None
      | c # cs \<Rightarrow>
          (if c \<noteq> CHR 0x22 then None
           else
             (case parse_body cs of
                None \<Rightarrow> None
              | Some (k, r) \<Rightarrow>
                  (if \<not> starts_with '':'' (skip_ws r) then None
                   else
                     (case parse_value f (tl (skip_ws r)) of
                        None \<Rightarrow> None
                      | Some (v, r2) \<Rightarrow>
                          (if starts_with '','' (skip_ws r2) then
                             map_option (\<lambda>(fs, r3). ((k, v) # fs, r3)) (parse_members f (tl (skip_ws r2)))
                           else if starts_with ''}'' (skip_ws r2) then Some ([(k, v)], tl (skip_ws r2))
                           else None))))))"
| "parse_elems 0 s = None"
| "parse_elems (Suc f) s =
     (case parse_value f s of
        None \<Rightarrow> None
      | Some (v, r) \<Rightarrow>
          (if starts_with '','' (skip_ws r) then
             map_option (\<lambda>(xs, r3). (v # xs, r3)) (parse_elems f (tl (skip_ws r)))
           else if starts_with '']'' (skip_ws r) then Some ([v], tl (skip_ws r))
           else None))"

definition json_parse :: "string \<Rightarrow> json option" where
  "json_parse s =
     (case parse_value (Suc (length s)) s of
        None \<Rightarrow> None
      | Some (v, r) \<Rightarrow> if skip_ws r = [] then Some v else None)"

section \<open>Strings round trip\<close>

lemma hex_value_digit: "n < 16 \<Longrightarrow> hex_value (hex_digit n) = Some n"
  by (auto simp: hex_value_def hex_digit_def of_char_of)

lemma hex4_round:
  assumes "n < 65536"
  shows "case hex4 n of [a, b, c, d] \<Rightarrow> hex4_value a b c d = Some n | _ \<Rightarrow> False"
proof -
  have q: "n div 256 = n div 16 div 16" "n div 4096 = n div 16 div 16 div 16"
    by (simp_all flip: div_mult2_eq)
  have "n div 16 div 16 div 16 < 16" using assms by (simp add: div_less_iff_less_mult)
  then have "((n div 4096 mod 16 * 16 + n div 256 mod 16) * 16 + n div 16 mod 16) * 16 + n mod 16 = n"
    by (simp only: q mod_less div_mult_mod_eq)
  then show ?thesis
    by (simp only: hex4_def hex4_value_def hex_value_digit mod_less_divisor zero_less_numeral
        list.case option.case prod.case)
qed

lemma short_escape_unescape:
  assumes "short_escape c = Some e"
  shows "unescape e = Some c \<and> e \<noteq> CHR ''u''"
  using assms by (auto simp: short_escape_def unescape_def split: if_splits)

lemma escaped_ascii: "is_control c \<or> c \<in> set ''<>&'' \<Longrightarrow> (of_char c :: nat) < 128"
  by (auto simp: is_control_def)

lemma parse_body_quote [simp]: "parse_body (CHR 0x22 # cs) = Some ([], cs)"
  by (simp add: parse_body.simps(2))

lemma parse_body_u:
  "parse_body (CHR 0x5C # CHR ''u'' # ds) =
     (case rune_escape ds of None \<Rightarrow> None | Some (x, t) \<Rightarrow> map_option (\<lambda>(s, r). (x @ s, r)) (parse_body t))"
  by (simp add: parse_body.simps(2))

lemma rune_escape_hex4:
  assumes "n < 65536" "\<not> (0xD800 \<le> n \<and> n < 0xDC00)"
  shows "rune_escape (hex4 n @ rest) = Some (utf8 n, rest)"
proof -
  obtain a b d e where h: "hex4 n = [a, b, d, e]" by (simp add: hex4_def)
  with hex4_round [OF assms(1)] have "hex4_value a b d e = Some n" by simp
  then have "u_escape (hex4 n @ rest) = Some (n, rest)" by (simp add: u_escape_def h)
  with assms(2) show ?thesis by (auto simp: rune_escape_def)
qed

lemma parse_body_escape:
  assumes "is_ascii c"
  shows "parse_body (escape_char c @ rest) = map_option (\<lambda>(s, r). (c # s, r)) (parse_body rest)"
proof (cases "short_escape c")
  case (Some e)
  with short_escape_unescape [OF Some] show ?thesis by (simp add: escape_char_def parse_body.simps(2))
next
  case None
  then have ne: "c \<noteq> CHR 0x22" "c \<noteq> CHR 0x5C" by (auto simp: short_escape_def)
  show ?thesis
  proof (cases "is_control c \<or> c \<in> set ''<>&''")
    case True
    define n where "n = (of_char c :: nat)"
    have n: "n < 128" using escaped_ascii [OF True] by (simp add: n_def)
    have u: "utf8 n = [c]" using n by (simp add: utf8_def n_def)
    have "escape_char c = CHR 0x5C # CHR ''u'' # hex4 n"
      using None True by (simp add: escape_char_def n_def)
    then show ?thesis using n by (simp add: parse_body_u rune_escape_hex4 u)
  next
    case False
    with None have "escape_char c = [c]" by (auto simp: escape_char_def)
    with ne False assms show ?thesis by (simp add: parse_body.simps(2))
  qed
qed

lemma eq_char_of: "c = char_of n \<longleftrightarrow> take_bit 8 n = of_char c" for n :: nat
  using char_of_eq_iff by metis

lemma escapes_are_hex4: "''ufffd'' = CHR ''u'' # hex4 65533" "''u2028'' = CHR ''u'' # hex4 8232"
  "''u2029'' = CHR ''u'' # hex4 8233"
  by (simp_all add: hex4_def hex_digit_def char_of_eq_iff eq_char_of)

lemma utf8_escapes: "utf8 65533 = replacement" "utf8 8232 = [CHR 0xE2, CHR 0x80, CHR 0xA8]"
  "utf8 8233 = [CHR 0xE2, CHR 0x80, CHR 0xA9]"
  by (simp_all add: utf8_def replacement_def char_of_eq_iff)

lemma parse_body_rune:
  assumes "rune_split s = Some (r, t)"
  shows "parse_body (escape_rune r @ rest) = map_option (\<lambda>(s, u). (r @ s, u)) (parse_body rest)"
proof -
  from rune_split_Some [OF assms] obtain c cs where r: "r = c # cs" by (cases r) auto
  have "\<not> is_ascii c" using rune_first [OF assms] r by simp
  then have "c \<noteq> CHR 0x22" "c \<noteq> CHR 0x5C" "\<not> is_control c" by (auto simp: byte_in_def is_control_def)
  moreover have "rune_split (c # cs @ rest) = Some (r, rest)" using rune_split_Some [OF assms] r by simp
  ultimately have plain: "parse_body (r @ rest) = map_option (\<lambda>(s, u). (r @ s, u)) (parse_body rest)"
    using \<open>\<not> is_ascii c\<close> by (simp add: r parse_body.simps(2) del: rune_split.simps)
  have esc: "parse_body (CHR 0x5C # CHR ''u'' # hex4 n @ rest) = map_option (\<lambda>(s, u). (utf8 n @ s, u)) (parse_body rest)"
    if "n < 0xD800" for n
    using that by (simp add: parse_body_u rune_escape_hex4)
  show ?thesis
    using plain esc [of 8232] esc [of 8233]
    by (simp add: escape_rune_def escapes_are_hex4 utf8_escapes del: One_nat_def)
qed

lemma parse_body_bad:
  "parse_body (CHR 0x5C # ''ufffd'' @ rest) = map_option (\<lambda>(s, u). (replacement @ s, u)) (parse_body rest)"
  using rune_escape_hex4 [of 65533 rest] by (simp add: escapes_are_hex4 parse_body_u utf8_escapes)

lemma parse_body_print: "parse_body (print_body s @ CHR 0x22 # rest) = Some (to_valid s, rest)"
proof (induction s rule: print_body.induct)
  case (2 c cs)
  show ?case
  proof (cases "is_ascii c")
    case True
    with 2(1) show ?thesis by (simp add: print_body.simps(2) parse_body_escape)
  next
    case False
    show ?thesis
    proof (cases "rune_split (c # cs)")
      case None
      with 2(2) False parse_body_bad [of "print_body cs @ CHR 0x22 # rest"] show ?thesis
        by (simp add: print_body.simps(2) to_valid_bad del: rune_split.simps)
    next
      case (Some p)
      obtain r t where p: "p = (r, t)" by (cases p)
      with 2(3) [OF False Some p [symmetric]] False Some parse_body_rune [of "c # cs" r t] show ?thesis
        by (simp add: print_body.simps(2) to_valid_good del: rune_split.simps)
    qed
  qed
qed simp

section \<open>Values round trip\<close>

fun json_ok :: "json \<Rightarrow> bool" where
  "json_ok (JNum t) \<longleftrightarrow> t \<noteq> [] \<and> list_all num_char t \<and> valid_num t"
| "json_ok (JArr xs) \<longleftrightarrow> list_all json_ok xs"
| "json_ok (JObj fs) \<longleftrightarrow> list_all (\<lambda>(k, v). json_ok v) fs"
| "json_ok _ \<longleftrightarrow> True"

text \<open>What is read back: strings and keys made valid.\<close>

fun json_valid :: "json \<Rightarrow> json" where
  "json_valid (JStr s) = JStr (to_valid s)"
| "json_valid (JArr xs) = JArr (map json_valid xs)"
| "json_valid (JObj fs) = JObj (map (\<lambda>(k, v). (to_valid k, json_valid v)) fs)"
| "json_valid v = v"

definition valid_member :: "string \<times> json \<Rightarrow> string \<times> json" where
  "valid_member m = (to_valid (fst m), json_valid (snd m))"

lemma json_valid_obj: "json_valid (JObj fs) = JObj (map valid_member fs)"
  by (simp add: valid_member_def [abs_def] case_prod_unfold)

text \<open>The fuel a value needs.\<close>

fun need :: "json \<Rightarrow> nat" where
  "need (JArr xs) = Suc (sum_list (map (\<lambda>v. Suc (need v)) xs))"
| "need (JObj fs) = Suc (sum_list (map (\<lambda>(k, v). Suc (need v)) fs))"
| "need _ = 1"

definition stops :: "string \<Rightarrow> bool" where
  "stops r \<longleftrightarrow> r = [] \<or> \<not> num_char (hd r)"

definition parses :: "json \<Rightarrow> bool" where
  "parses v \<longleftrightarrow> (\<forall>f rest. need v \<le> f \<longrightarrow> stops rest \<longrightarrow>
     parse_value f (print_json v @ rest) = Some (json_valid v, rest))"

lemma parsesD: "parses v \<Longrightarrow> need v \<le> f \<Longrightarrow> stops rest \<Longrightarrow>
    parse_value f (print_json v @ rest) = Some (json_valid v, rest)"
  by (simp add: parses_def)

lemma skip_ws_char [simp]: "\<not> json_space c \<Longrightarrow> skip_ws (c # cs) = c # cs"
  by (simp add: skip_ws_def)

lemma json_space_chars [simp]:
  "\<not> json_space CHR 0x22" "\<not> json_space CHR ''{''" "\<not> json_space CHR ''['' "
  "\<not> json_space CHR ''}''" "\<not> json_space CHR '']'' " "\<not> json_space CHR '','' "
  "\<not> json_space CHR '':'' "
  by (simp_all add: json_space_def)

lemma stops_chars [simp]: "stops (CHR '','' # r)" "stops (CHR ''}'' # r)" "stops (CHR '']'' # r)" "stops []"
  by (simp_all add: stops_def num_char_def)

definition print_member :: "string \<times> json \<Rightarrow> string" where
  "print_member m = print_string (fst m) @ '':'' @ print_json (snd m)"

lemma print_obj: "print_json (JObj fs) = CHR ''{'' # str_join '','' (map print_member fs) @ ''}''"
  by (simp add: print_member_def [abs_def] case_prod_unfold)

lemma need_obj: "need (JObj fs) = Suc (sum_list (map (\<lambda>m. Suc (need (snd m))) fs))"
  by (simp add: case_prod_unfold)

lemma parse_member_step:
  assumes "parses v" "need v \<le> f" "stops (c # r)" "\<not> json_space c"
  shows "parse_members (Suc f) (print_member (k, v) @ c # r) =
    (if c = CHR '','' then map_option (\<lambda>(fs, r3). (valid_member (k, v) # fs, r3)) (parse_members f r)
     else if c = CHR ''}'' then Some ([valid_member (k, v)], r) else None)"
  using parsesD [OF assms(1-3)] assms(4) parse_body_print [of k "'':'' @ print_json v @ c # r"]
  by (simp add: print_member_def print_string_def starts_with_def valid_member_def)

lemma parse_members_print:
  "fs \<noteq> [] \<Longrightarrow> list_all (\<lambda>m. parses (snd m)) fs \<Longrightarrow>
     sum_list (map (\<lambda>m. Suc (need (snd m))) fs) \<le> f \<Longrightarrow>
     parse_members f (str_join '','' (map print_member fs) @ CHR ''}'' # rest) = Some (map valid_member fs, rest)"
proof (induction fs arbitrary: f)
  case Nil
  then show ?case by simp
next
  case (Cons m fs)
  obtain k v where m: "m = (k, v)" by (cases m)
  from Cons.prems obtain g where f: "f = Suc g" by (cases f) auto
  with Cons.prems m have v: "parses v" "need v \<le> g"
    and g: "sum_list (map (\<lambda>m. Suc (need (snd m))) fs) \<le> g" by simp_all
  show ?case
  proof (cases fs)
    case Nil
    then show ?thesis using parse_member_step [OF v, of "CHR ''}''" rest k] by (simp add: f m)
  next
    case (Cons m2 fs2)
    then have "str_join '','' (map print_member (m # fs)) @ CHR ''}'' # rest
        = print_member (k, v) @ CHR '','' # (str_join '','' (map print_member fs) @ CHR ''}'' # rest)"
      by (simp add: m)
    with Cons.IH [of g] Cons.prems Cons g parse_member_step [OF v, of "CHR '',''"] show ?thesis
      by (simp add: f m)
  qed
qed

lemma parse_elem_step:
  assumes "parses v" "need v \<le> f" "stops (c # r)" "\<not> json_space c"
  shows "parse_elems (Suc f) (print_json v @ c # r) =
    (if c = CHR '','' then map_option (\<lambda>(xs, r3). (json_valid v # xs, r3)) (parse_elems f r)
     else if c = CHR '']'' then Some ([json_valid v], r) else None)"
  using parsesD [OF assms(1-3)] assms(4) by (simp add: starts_with_def)

lemma parse_elems_print:
  "xs \<noteq> [] \<Longrightarrow> list_all parses xs \<Longrightarrow> sum_list (map (\<lambda>v. Suc (need v)) xs) \<le> f \<Longrightarrow>
     parse_elems f (str_join '','' (map print_json xs) @ CHR '']'' # rest) = Some (map json_valid xs, rest)"
proof (induction xs arbitrary: f)
  case Nil
  then show ?case by simp
next
  case (Cons v xs)
  from Cons.prems obtain g where f: "f = Suc g" by (cases f) auto
  with Cons.prems have v: "parses v" "need v \<le> g"
    and g: "sum_list (map (\<lambda>v. Suc (need v)) xs) \<le> g" by simp_all
  show ?case
  proof (cases xs)
    case Nil
    then show ?thesis using parse_elem_step [OF v, of "CHR '']''" rest] by (simp add: f)
  next
    case (Cons v2 xs2)
    then have "str_join '','' (map print_json (v # xs)) @ CHR '']'' # rest
        = print_json v @ CHR '','' # (str_join '','' (map print_json xs) @ CHR '']'' # rest)"
      by simp
    with Cons.IH [of g] Cons.prems Cons g parse_elem_step [OF v, of "CHR '',''"] show ?thesis
      by (simp add: f)
  qed
qed


lemma print_json_head:
  assumes "json_ok v"
  obtains c cs where "print_json v = c # cs" "\<not> json_space c" "c \<notin> set ''}],:''"
proof (cases v)
  case (JNum t)
  with assms obtain c cs where "t = c # cs" "num_char c" by (cases t) auto
  with JNum that show thesis by (auto simp: num_char_def json_space_def)
next
  case (JBool b)
  with that show thesis by (cases b) (auto simp: json_space_def)
qed (use that in \<open>auto simp: print_string_def json_space_def split: if_splits\<close>)

lemma num_char_not:
  "\<not> num_char CHR 0x22" "\<not> num_char CHR ''{''" "\<not> num_char CHR ''[''" "\<not> num_char CHR ''n''"
  "\<not> num_char CHR ''t''" "\<not> num_char CHR ''f''"
  by (simp_all add: num_char_def)

lemma parses_num:
  assumes "t \<noteq> []" "list_all num_char t" "valid_num t"
  shows "parses (JNum t)"
proof -
  obtain c cs where t: "t = c # cs" using assms(1) by (cases t) auto
  with assms(2) have c: "num_char c" "\<not> json_space c" "\<not> c \<in> {CHR 0x22, CHR ''{'', CHR ''['', CHR ''n'', CHR ''t'', CHR ''f''}"
    by (auto simp: num_char_def json_space_def)
  have tk: "takeWhile num_char (t @ rest) = t" "dropWhile num_char (t @ rest) = rest"
    if "stops rest" for rest
    using that assms(2)
    by (cases rest; simp add: stops_def takeWhile_append list_all_iff dropWhile_append)+
  show ?thesis
    unfolding parses_def
  proof (intro allI impI)
    fix f rest
    assume "need (JNum t) \<le> f" "stops rest"
    then obtain g where "f = Suc g" by (cases f) auto
    then show "parse_value f (print_json (JNum t) @ rest) = Some (json_valid (JNum t), rest)"
      using c tk [OF \<open>stops rest\<close>] assms(3) by (simp add: t starts_with_def)
  qed
qed

lemma members_head:
  "fs \<noteq> [] \<Longrightarrow> \<exists>cs. str_join '','' (map print_member fs) @ rest = CHR 0x22 # cs"
  by (cases fs; cases "tl fs") (auto simp: print_member_def print_string_def)

lemma elems_head:
  assumes "xs \<noteq> []" "list_all json_ok xs"
  shows "\<exists>c cs. str_join '','' (map print_json xs) @ rest = c # cs \<and> \<not> json_space c \<and> c \<noteq> CHR '']''"
proof -
  obtain x ys where xs: "xs = x # ys" using assms(1) by (cases xs) auto
  with assms(2) have "json_ok x" by simp
  from print_json_head [OF this] obtain c cs where "print_json x = c # cs" "\<not> json_space c" "c \<notin> set ''}],:''"
    by blast
  then show ?thesis using xs by (cases ys) auto
qed

lemma parses_obj:
  assumes "list_all (\<lambda>m. parses (snd m)) fs"
  shows "parses (JObj fs)"
  unfolding parses_def
proof (intro allI impI)
  fix f rest
  assume f: "need (JObj fs) \<le> f" and "stops rest"
  then obtain g where g: "f = Suc g" by (cases f) auto
  show "parse_value f (print_json (JObj fs) @ rest) = Some (json_valid (JObj fs), rest)"
  proof (cases "fs = []")
    case True
    then show ?thesis by (simp add: g starts_with_def)
  next
    case False
    obtain cs where "str_join '','' (map print_member fs) @ CHR ''}'' # rest = CHR 0x22 # cs"
      using members_head [OF False] by blast
    moreover have "parse_members g (str_join '','' (map print_member fs) @ CHR ''}'' # rest) = Some (map valid_member fs, rest)"
      using f assms by (intro parse_members_print False) (simp_all add: g need_obj del: need.simps)
    ultimately show ?thesis
      by (simp add: g print_obj json_valid_obj starts_with_def del: print_json.simps(6) json_valid.simps(3))
  qed
qed

lemma parses_arr:
  assumes "list_all parses xs" "list_all json_ok xs"
  shows "parses (JArr xs)"
  unfolding parses_def
proof (intro allI impI)
  fix f rest
  assume f: "need (JArr xs) \<le> f" and "stops rest"
  then obtain g where g: "f = Suc g" by (cases f) auto
  show "parse_value f (print_json (JArr xs) @ rest) = Some (json_valid (JArr xs), rest)"
  proof (cases "xs = []")
    case True
    then show ?thesis by (simp add: g starts_with_def)
  next
    case False
    obtain c cs where "str_join '','' (map print_json xs) @ CHR '']'' # rest = c # cs"
      "\<not> json_space c" "c \<noteq> CHR '']''"
      using elems_head [OF False assms(2)] by blast
    moreover have "parse_elems g (str_join '','' (map print_json xs) @ CHR '']'' # rest) = Some (map json_valid xs, rest)"
      using f assms by (intro parse_elems_print False) (simp_all add: g)
    ultimately show ?thesis by (simp add: g starts_with_def)
  qed
qed

lemma parses_all: "json_ok v \<Longrightarrow> parses v"
proof (induction v)
  case JNull
  then show ?case
    by (auto simp: parses_def starts_with_def json_space_def dest!: Suc_le_D)
next
  case (JBool b)
  then show ?case
    by (auto simp: parses_def starts_with_def json_space_def dest!: Suc_le_D)
next
  case (JNum t)
  then show ?case by (simp add: parses_num)
next
  case (JStr s)
  have "parse_body (print_body s @ CHR 0x22 # rest) = Some (to_valid s, rest)" for rest
    by (rule parse_body_print)
  then show ?case
    by (auto simp: parses_def print_string_def dest!: Suc_le_D)
next
  case (JArr xs)
  then show ?case by (intro parses_arr) (simp_all add: list_all_iff)
next
  case (JObj fs)
  then show ?case by (intro parses_obj) (fastforce simp: list_all_iff snds.simps)
qed

section \<open>The fuel suffices\<close>

lemma str_join_length:
  "xs \<noteq> [] \<Longrightarrow> Suc (length (str_join [c] xs)) = sum_list (map (\<lambda>x. Suc (length x)) xs)"
proof (induction xs)
  case (Cons x xs)
  then show ?case by (cases xs) auto
qed simp

lemma need_le_length: "json_ok v \<Longrightarrow> need v \<le> length (print_json v)"
proof (induction v)
  case (JNum t)
  then show ?case by (cases t) auto
next
  case (JArr xs)
  then have "sum_list (map (\<lambda>v. Suc (need v)) xs) \<le> sum_list (map (\<lambda>v. Suc (length (print_json v))) xs)"
    by (intro sum_list_mono) (simp add: list_all_iff)
  then show ?case
    using str_join_length [of "map print_json xs" "CHR '',''"] by (cases "xs = []") (auto simp: comp_def)
next
  case (JObj fs)
  then have "sum_list (map (\<lambda>m. Suc (need (snd m))) fs) \<le> sum_list (map (\<lambda>m. Suc (length (print_member m))) fs)"
    by (intro sum_list_mono) (fastforce simp: list_all_iff print_member_def intro: le_trans trans_le_add2)
  then show ?case
    using str_join_length [of "map print_member fs" "CHR '',''"]
    by (cases "fs = []") (auto simp: comp_def need_obj print_obj simp del: need.simps print_json.simps)
qed (simp_all add: print_string_def)

theorem json_round: "json_ok v \<Longrightarrow> json_parse (print_json v) = Some (json_valid v)"
  using parsesD [OF parses_all, of v "Suc (length (print_json v))" "[]"] need_le_length [of v]
  by (simp add: json_parse_def skip_ws_def)

section \<open>Parsed strings\<close>

text \<open>Parsed strings are valid: the encoding of a code point is one rune.\<close>

lemma byte_in_char_of [simp]: "n < 256 \<Longrightarrow> byte_in lo hi (char_of n) \<longleftrightarrow> lo \<le> n \<and> n \<le> hi" for n :: nat
  by (simp add: byte_in_def of_char_of)

lemma char_of_eq [simp]: "n < 256 \<Longrightarrow> char_of n = c \<longleftrightarrow> n = of_char c" for n :: nat
  by (metis char_of_char mod_less of_char_of)

lemma utf8_rune:
  assumes "0x80 \<le> n" "n < 0x110000"
  shows "rune_split (utf8 n @ u) = Some (utf8 n, u)"
proof -
  have m: "k mod 64 < 64" for k :: nat by simp
  consider "n < 0x800" | "0xD800 \<le> n" "n < 0xE000" | "0x800 \<le> n" "n < 0x10000" "n < 0xD800 \<or> 0xE000 \<le> n"
    | "0x10000 \<le> n" by linarith
  then show ?thesis
  proof cases
    case 1
    then have "2 \<le> n div 64" "n div 64 < 32" using assms(1) by (simp_all add: div_le_mono less_eq_div_iff_mult_less_eq div_less_iff_less_mult)
    with 1 assms(1) m [of n] show ?thesis by (simp add: utf8_def)
  next
    case 2
    then show ?thesis by (simp add: utf8_def rune_split_replacement del: rune_split.simps)
  next
    case 3
    define a where "a = n div 64"
    have a: "32 \<le> a" "a < 1024" and q: "n div 4096 = a div 64"
      using 3 by (simp_all add: a_def less_eq_div_iff_mult_less_eq div_less_iff_less_mult flip: div_mult2_eq)
    have s: "a < 864 \<or> 896 \<le> a" using 3(3) by (auto simp: a_def less_eq_div_iff_mult_less_eq div_less_iff_less_mult)
    have "a div 64 < 16" using a by (simp add: div_less_iff_less_mult)
    moreover have "a div 64 = 0 \<longrightarrow> 32 \<le> a mod 64" using a by (simp add: div_eq_0_iff)
    moreover have "a div 64 = 13 \<longrightarrow> a mod 64 < 32" using s a div_mult_mod_eq [of a 64] by linarith
    ultimately show ?thesis
      using 3 m [of n] m [of a] by (auto simp: utf8_def second3_def q a_def [symmetric])
  next
    case 4
    define b where "b = n div 4096"
    have b: "16 \<le> b" "b < 272" and q: "n div 262144 = b div 64"
      using 4 assms(2) by (simp_all add: b_def less_eq_div_iff_mult_less_eq div_less_iff_less_mult flip: div_mult2_eq)
    have "b div 64 < 5" using b by (simp add: div_less_iff_less_mult)
    moreover have "b div 64 = 0 \<longrightarrow> 16 \<le> b mod 64" using b by (simp add: div_eq_0_iff)
    moreover have "b div 64 = 4 \<longrightarrow> b mod 64 < 16" using b div_mult_mod_eq [of b 64] by linarith
    ultimately show ?thesis
      using 4 m [of n] m [of b] m [of "n div 64"] by (auto simp: utf8_def second4_def q b_def [symmetric])
  qed
qed

lemma to_valid_utf8: "n < 0x110000 \<Longrightarrow> to_valid (utf8 n @ s) = utf8 n @ to_valid s"
proof (cases "n < 0x80")
  case False
  assume "n < 0x110000"
  with False utf8_rune [of n "[]"] show ?thesis by (intro to_valid_rune [of "utf8 n" "utf8 n" "[]"]) simp
qed (simp add: utf8_def)

lemma hex4_value_small: "hex4_value a b c d = Some n \<Longrightarrow> n < 65536"
proof -
  have v: "hex_value x = Some k \<Longrightarrow> k < 16" for x k by (auto simp: hex_value_def Let_def split: if_splits)
  assume "hex4_value a b c d = Some n"
  then obtain w x y z where "hex_value a = Some w" "hex_value b = Some x" "hex_value c = Some y" "hex_value d = Some z"
    "n = ((w * 16 + x) * 16 + y) * 16 + z"
    by (auto simp: hex4_value_def split: option.splits)
  with v [of a w] v [of b x] v [of c y] v [of d z] show ?thesis by simp
qed

lemma rune_escape_valid: "rune_escape ds = Some (x, t) \<Longrightarrow> to_valid (x @ s) = x @ to_valid s"
proof -
  have u: "u_escape ds = Some (n, t) \<Longrightarrow> n < 65536" for ds n t
    by (auto simp: u_escape_def dest: hex4_value_small split: list.splits)
  assume "rune_escape ds = Some (x, t)"
  then obtain n where "x = utf8 n" "n < 0x110000"
    by (auto simp: rune_escape_def low_half_def dest!: u split: option.splits if_splits list.splits)
  then show ?thesis by (simp add: to_valid_utf8)
qed

lemma unescape_ascii: "unescape e = Some x \<Longrightarrow> is_ascii x"
  by (auto simp: unescape_def split: if_splits)

lemma parse_body_escaped:
  assumes "parse_body (CHR 0x5C # cs) = Some (t, r)"
  obtains ds x u t' where "cs = CHR ''u'' # ds" "rune_escape ds = Some (x, u)" "parse_body u = Some (t', r)" "t = x @ t'"
  | e ds x t' where "cs = e # ds" "e \<noteq> CHR ''u''" "unescape e = Some x" "parse_body ds = Some (t', r)" "t = x # t'"
proof (cases cs)
  case (Cons e ds)
  show ?thesis
  proof (cases "e = CHR ''u''")
    case True
    with assms Cons that(1) show ?thesis by (auto simp: parse_body_u split: option.splits)
  next
    case False
    with assms Cons that(2) show ?thesis by (auto simp: parse_body.simps(2) split: option.splits)
  qed
qed (use assms in \<open>simp add: parse_body.simps(2)\<close>)

lemma parse_body_valid: "parse_body s = Some (t, r) \<Longrightarrow> to_valid t = t"
proof (induction s arbitrary: t r rule: measure_induct_rule [of length])
  case (less s)
  show ?case
  proof (cases s)
    case (Cons c cs)
    consider "c = CHR 0x22" | "c = CHR 0x5C" | "c \<noteq> CHR 0x22" "c \<noteq> CHR 0x5C" "is_control c"
      | "c \<noteq> CHR 0x22" "c \<noteq> CHR 0x5C" "\<not> is_control c" "is_ascii c"
      | "c \<noteq> CHR 0x22" "c \<noteq> CHR 0x5C" "\<not> is_control c" "\<not> is_ascii c" by blast
    then show ?thesis
    proof cases
      case 1
      with less.prems Cons show ?thesis by simp
    next
      case 2
      with less.prems Cons have "parse_body (CHR 0x5C # cs) = Some (t, r)" by simp
      then show ?thesis
      proof (cases rule: parse_body_escaped)
        case (1 ds x u t')
        then have "to_valid t' = t'" using Cons by (intro less.IH) (auto dest: rune_escape_length)
        with 1 show ?thesis by (simp add: rune_escape_valid)
      next
        case (2 e ds x t')
        then have "to_valid t' = t'" using Cons by (intro less.IH) auto
        with 2 show ?thesis by (simp add: unescape_ascii)
      qed
    next
      case 3
      with less.prems Cons show ?thesis by (simp add: parse_body.simps(2))
    next
      case 4
      with less.prems Cons obtain t' where t': "parse_body cs = Some (t', r)" "t = c # t'"
        by (auto simp: parse_body.simps(2))
      then have "to_valid t' = t'" using Cons by (intro less.IH) auto
      with t'(2) 4 show ?thesis by simp
    next
      case 5
      show ?thesis
      proof (cases "rune_split (c # cs)")
        case None
        with 5 less.prems Cons obtain t' where t': "parse_body cs = Some (t', r)" "t = replacement @ t'"
          by (auto simp: parse_body.simps(2) simp del: rune_split.simps)
        then have "to_valid t' = t'" using Cons by (intro less.IH) auto
        with t'(2) to_valid_rune [OF rune_split_replacement [of "[]"]] show ?thesis by simp
      next
        case (Some p)
        obtain x u where p: "p = (x, u)" by (cases p)
        with Some 5 less.prems Cons obtain t' where t': "parse_body u = Some (t', r)" "t = x @ t'"
          by (auto simp: parse_body.simps(2) simp del: rune_split.simps)
        then have "to_valid t' = t'"
          using Cons rune_split_length [of "c # cs" x u] Some p by (intro less.IH) auto
        with t'(2) to_valid_rune [of "c # cs" x u] Some p show ?thesis by simp
      qed
    qed
  qed (use less.prems in simp)
qed

lemma parsed_valid:
  "parse_value f s = Some (v, r) \<Longrightarrow> json_valid v = v"
  "parse_members f s = Some (ms, r) \<Longrightarrow> list_all (\<lambda>m. valid_member m = m) ms"
  "parse_elems f s = Some (vs, r) \<Longrightarrow> list_all (\<lambda>v. json_valid v = v) vs"
proof (induction f s and f s and f s arbitrary: v r and ms r and vs r
    rule: parse_value_parse_members_parse_elems.induct)
  case (2 f s)
  have "json_valid (JObj ms) = JObj ms" if "list_all (\<lambda>m. valid_member m = m) ms" for ms
    unfolding json_valid_obj using that by (simp add: list_all_iff map_idI)
  moreover have "json_valid (JArr vs) = JArr vs" if "list_all (\<lambda>v. json_valid v = v) vs" for vs
    using that by (simp add: list_all_iff map_idI)
  ultimately show ?case
    using 2 by (auto dest: parse_body_valid split: list.splits if_splits simp del: json_valid.simps(2,3))
next
  case (4 f s)
  then show ?case
    by (auto simp: valid_member_def split: list.splits if_splits option.splits) (erule parse_body_valid)+
next
  case (6 f s)
  then show ?case by (auto split: if_splits option.splits)
qed simp_all

lemma json_parse_valid: "json_parse s = Some v \<Longrightarrow> json_valid v = v"
  by (auto simp: json_parse_def intro: parsed_valid(1) simp del: parse_value.simps split: option.splits if_splits)

end
