(* ===== verification/Json_Struct.thy ===== *)
theory Json_Struct
  imports Json
begin

text \<open>
  How \<open>json.Unmarshal\<close> fills a Go struct. Each member of an object is matched to a field by its
  exact name and else by its name without regard to (ASCII) case; members that match nothing are
  ignored; \<open>null\<close> leaves a string, integer or boolean alone and empties a slice or a map; a value of
  another kind is an error. A field is a name and a decoder into the struct.
\<close>

section \<open>Bytes and strings\<close>

definition str_bytes :: "string \<Rightarrow> bytes" where
  "str_bytes s = map (\<lambda>c. word_of_nat (of_char c)) s"

definition bytes_str :: "bytes \<Rightarrow> string" where
  "bytes_str bs = map (\<lambda>b. char_of (unat b)) bs"

lemma bytes_str_round [simp]: "bytes_str (str_bytes s) = s"
proof (induction s)
  case (Cons c s)
  have "(of_char c :: nat) < 2 ^ LENGTH(8)" by simp
  then have "unat (word_of_nat (of_char c) :: byte) = of_char c" by (simp add: unsigned_of_nat take_bit_nat_eq_self)
  with Cons show ?case by (simp add: str_bytes_def bytes_str_def)
qed (simp add: str_bytes_def bytes_str_def)

lemma str_bytes_round [simp]: "str_bytes (bytes_str bs) = bs"
proof (induction bs)
  case (Cons b bs)
  have "unat b < 256" using unsigned_less [of b, where 'a = nat] by simp
  then have "(of_char (char_of (unat b) :: char) :: nat) = unat b" by (simp add: of_char_of)
  with Cons show ?case by (simp add: str_bytes_def bytes_str_def)
qed (simp add: str_bytes_def bytes_str_def)

lemma str_bytes_Nil_iff [simp]: "str_bytes s = [] \<longleftrightarrow> s = []"
  by (simp add: str_bytes_def)

section \<open>Scalars\<close>

definition digit_val :: "char \<Rightarrow> int" where
  "digit_val c = int (of_char c) - 48"

definition digits_val :: "string \<Rightarrow> int" where
  "digits_val s = foldl (\<lambda>n c. n * 10 + digit_val c) 0 s"

text \<open>A number read into a signed 64-bit field (\<open>strconv.ParseInt\<close>): no fraction, no exponent.\<close>

definition parse_int64 :: "string \<Rightarrow> int option" where
  "parse_int64 s =
     (let neg = (s \<noteq> [] \<and> hd s = CHR ''-'');
          d = (if neg then tl s else s);
          n = (if neg then - digits_val d else digits_val d)
      in if d \<noteq> [] \<and> list_all is_digit d \<and> - (2 ^ 63) \<le> n \<and> n < 2 ^ 63 then Some n else None)"

fun set_string :: "(string \<Rightarrow> 'r \<Rightarrow> 'r) \<Rightarrow> json \<Rightarrow> 'r \<Rightarrow> 'r option" where
  "set_string upd (JStr s) r = Some (upd s r)"
| "set_string upd JNull r = Some r"
| "set_string upd _ r = None"

fun set_bool :: "(bool \<Rightarrow> 'r \<Rightarrow> 'r) \<Rightarrow> json \<Rightarrow> 'r \<Rightarrow> 'r option" where
  "set_bool upd (JBool b) r = Some (upd b r)"
| "set_bool upd JNull r = Some r"
| "set_bool upd _ r = None"

fun set_int :: "(int \<Rightarrow> 'r \<Rightarrow> 'r) \<Rightarrow> json \<Rightarrow> 'r \<Rightarrow> 'r option" where
  "set_int upd (JNum t) r = map_option (\<lambda>n. upd n r) (parse_int64 t)"
| "set_int upd JNull r = Some r"
| "set_int upd _ r = None"

section \<open>Byte slices and string maps\<close>

fun byte_elem :: "json \<Rightarrow> byte option" where
  "byte_elem (JNum t) =
     (case parse_int64 t of None \<Rightarrow> None
      | Some n \<Rightarrow> if 0 \<le> n \<and> n < 256 \<and> hd t \<noteq> CHR ''-'' then Some (word_of_int n) else None)"
| "byte_elem JNull = Some 0"
| "byte_elem _ = None"

text \<open>A \<open>[]byte\<close> is padded base64 text or an array of small numbers; \<open>None\<close> is the nil slice.\<close>

fun set_bytes :: "(bytes option \<Rightarrow> 'r \<Rightarrow> 'r) \<Rightarrow> json \<Rightarrow> 'r \<Rightarrow> 'r option" where
  "set_bytes upd (JStr s) r = map_option (\<lambda>b. upd (Some b) r) (b64_std_decode s)"
| "set_bytes upd (JArr xs) r = map_option (\<lambda>b. upd (Some b) r) (all_some (map byte_elem xs))"
| "set_bytes upd JNull r = Some (upd None r)"
| "set_bytes upd _ r = None"

text \<open>A \<open>map[string]string\<close> is kept as its entries in the order of their keys.\<close>

type_synonym str_map = "(string \<times> string) list"

fun key_less :: "string \<Rightarrow> string \<Rightarrow> bool" where
  "key_less [] ys = (ys \<noteq> [])"
| "key_less (x # xs) [] = False"
| "key_less (x # xs) (y # ys) =
     ((of_char x :: nat) < of_char y \<or> x = y \<and> key_less xs ys)"

fun map_put :: "string \<Rightarrow> string \<Rightarrow> str_map \<Rightarrow> str_map" where
  "map_put k v [] = [(k, v)]"
| "map_put k v ((k', v') # m) =
     (if k = k' then (k, v) # m
      else if key_less k k' then (k, v) # (k', v') # m
      else (k', v') # map_put k v m)"

fun entry_put :: "string \<times> json \<Rightarrow> str_map \<Rightarrow> str_map option" where
  "entry_put (k, JStr s) m = Some (map_put k s m)"
| "entry_put (k, JNull) m = Some (map_put k [] m)"
| "entry_put (k, _) m = None"

fun entries_put :: "(string \<times> json) list \<Rightarrow> str_map \<Rightarrow> str_map option" where
  "entries_put [] m = Some m"
| "entries_put (e # es) m = (case entry_put e m of None \<Rightarrow> None | Some m' \<Rightarrow> entries_put es m')"

fun set_map :: "('r \<Rightarrow> str_map) \<Rightarrow> (str_map \<Rightarrow> 'r \<Rightarrow> 'r) \<Rightarrow> json \<Rightarrow> 'r \<Rightarrow> 'r option" where
  "set_map get upd (JObj es) r = map_option (\<lambda>m. upd m r) (entries_put es (get r))"
| "set_map get upd JNull r = Some (upd [] r)"
| "set_map get upd _ r = None"

text \<open>The maps that stand for Go maps: keys strictly increasing.\<close>

definition map_sorted :: "str_map \<Rightarrow> bool" where
  "map_sorted m \<longleftrightarrow> sorted_wrt (\<lambda>e e'. key_less (fst e) (fst e')) m"

lemma key_less_irrefl [simp]: "\<not> key_less k k"
  by (induction k) auto

lemma key_less_trans: "key_less a b \<Longrightarrow> key_less b c \<Longrightarrow> key_less a c"
proof (induction a b arbitrary: c rule: key_less.induct)
  case (3 x xs y ys)
  then show ?case by (cases c) auto
next
  case (1 ys)
  then show ?case by (cases ys; cases c) auto
qed simp

lemma key_less_total: "a \<noteq> b \<Longrightarrow> \<not> key_less a b \<Longrightarrow> key_less b a"
  by (induction a b rule: key_less.induct) (auto simp: nat_neq_iff neq_Nil_conv)

lemma map_put_last:
  "\<forall>e \<in> set m. key_less (fst e) k \<Longrightarrow> map_put k v m = m @ [(k, v)]"
proof (induction m)
  case (Cons e m)
  obtain k' v' where e: "e = (k', v')" by (cases e)
  with Cons.prems have "key_less k' k" by simp
  then have "k \<noteq> k'" "\<not> key_less k k'" using key_less_trans [of k' k k'] by auto
  with Cons e show ?case by simp
qed simp

lemma map_put_keys: "set (map_put k v m) \<subseteq> insert (k, v) (set m)"
  by (induction k v m rule: map_put.induct) auto

lemma map_put_sorted [inv_intros]: "map_sorted m \<Longrightarrow> map_sorted (map_put k v m)"
proof (induction k v m rule: map_put.induct)
  case (2 k v k' v' m)
  then have m: "map_sorted m" "\<forall>e \<in> set m. key_less k' (fst e)" by (auto simp: map_sorted_def)
  consider "k = k'" | "key_less k k'" "k \<noteq> k'" | "key_less k' k" "k \<noteq> k'" "\<not> key_less k k'"
    using key_less_total by blast
  then show ?case
  proof cases
    case 1
    with 2 show ?thesis by (auto simp: map_sorted_def)
  next
    case 2
    with m show ?thesis by (auto simp: map_sorted_def intro: key_less_trans)
  next
    case 3
    with 2 m have "map_sorted (map_put k v m)" by auto
    with 3 m map_put_keys [of k v m] show ?thesis by (fastforce simp: map_sorted_def)
  qed
qed (simp add: map_sorted_def)

lemma map_of_map_put: "map_of (map_put k v m) = (map_of m)(k \<mapsto> v)"
  by (induction k v m rule: map_put.induct) (auto simp: fun_eq_iff)

lemma entries_put_sorted [inv_intros]: "entries_put es m = Some m' \<Longrightarrow> map_sorted m \<Longrightarrow> map_sorted m'"
proof (induction es arbitrary: m)
  case (Cons e es)
  obtain k j where e: "e = (k, j)" by (cases e)
  with Cons show ?case by (cases j) (auto intro: map_put_sorted)
qed simp

lemma entries_put_strings:
  "map_sorted (m @ es) \<Longrightarrow> entries_put (map (\<lambda>e. (fst e, JStr (snd e))) es) m = Some (m @ es)"
proof (induction es arbitrary: m)
  case (Cons e es)
  obtain k v where e: "e = (k, v)" by (cases e)
  from Cons.prems have "map_put k v m = m @ [(k, v)]"
    by (intro map_put_last) (auto simp: map_sorted_def sorted_wrt_append e)
  with Cons.IH [of "m @ [(k, v)]"] Cons.prems show ?case by (simp add: e)
qed simp

section \<open>Structs\<close>

type_synonym 'r field = "string \<times> (json \<Rightarrow> 'r \<Rightarrow> 'r option)"

definition match_field :: "'r field list \<Rightarrow> string \<Rightarrow> (json \<Rightarrow> 'r \<Rightarrow> 'r option) option" where
  "match_field fs k =
     (case map_of fs k of
        Some d \<Rightarrow> Some d
      | None \<Rightarrow> map_option snd (find (\<lambda>f. str_lower (fst f) = str_lower k) fs))"

fun decode_members :: "'r field list \<Rightarrow> (string \<times> json) list \<Rightarrow> 'r \<Rightarrow> 'r option" where
  "decode_members fs [] r = Some r"
| "decode_members fs ((k, v) # ms) r =
     (case match_field fs k of
        None \<Rightarrow> decode_members fs ms r
      | Some d \<Rightarrow> (case d v r of None \<Rightarrow> None | Some r' \<Rightarrow> decode_members fs ms r'))"

fun decode_struct :: "'r field list \<Rightarrow> json \<Rightarrow> 'r \<Rightarrow> 'r option" where
  "decode_struct fs (JObj ms) r = decode_members fs ms r"
| "decode_struct fs JNull r = Some r"
| "decode_struct fs _ r = None"

text \<open>\<open>json.Unmarshal\<close> of a text into a struct.\<close>

definition unmarshal :: "'r field list \<Rightarrow> string \<Rightarrow> 'r \<Rightarrow> 'r option" where
  "unmarshal fs s r = (case json_parse s of None \<Rightarrow> None | Some j \<Rightarrow> decode_struct fs j r)"

lemma unmarshal_print: "json_ok j \<Longrightarrow> unmarshal fs (print_json j) r = decode_struct fs (json_valid j) r"
  by (simp add: unmarshal_def json_round)

lemma decode_members_append:
  "decode_members fs (ms @ ns) r =
     (case decode_members fs ms r of None \<Rightarrow> None | Some r' \<Rightarrow> decode_members fs ns r')"
  by (induction fs ms r rule: decode_members.induct) (auto split: option.splits)

end
