(* ===== verification/Identity_Codec.thy ===== *)
theory Identity_Codec
  imports Json_Struct
begin

text \<open>
  \<open>internal/sshd/types.go\<close>, \<open>identity_codec.go\<close>, \<open>auth_callback.go\<close>, \<open>auth.go\<close> and
  \<open>map_auth.go\<close>: the identity of a client, how it is packed into the permissions of an SSH
  connection, and the callback that authenticates a public key.

  A \<open>[]byte\<close> is a \<open>bytes option\<close> (\<open>None\<close> is nil), a \<open>map[string]string\<close> its entries in key order
  (nil and empty are not told apart, as no code here does). An authenticator is a function from the
  connection and the key to an error or a pointer to an identity (\<open>None\<close> is nil).
\<close>

section \<open>Data\<close>

record identity =
  User :: string
  UserID :: string
  PublicKey :: "bytes option"
  Metadata :: str_map
  RemoteAddr :: string
  RequestedHostname :: string

definition no_identity :: identity where
  "no_identity = \<lparr>User = [], UserID = [], PublicKey = None, Metadata = [], RemoteAddr = [],
                  RequestedHostname = []\<rparr>"

record conn_metadata =
  cm_Deployment :: string
  cm_RemoteAddr :: string

type_synonym authenticator = "conn_metadata \<Rightarrow> bytes \<Rightarrow> gerror + identity option"

section \<open>The codec\<close>

definition identityVersion :: int where
  "identityVersion = 1"

record wire_identity =
  wi_Version :: int
  wi_User :: string
  wi_UserID :: string
  wi_Key :: "bytes option"
  wi_Meta :: str_map
  wi_Addr :: string

definition wire_zero :: wire_identity where
  "wire_zero = \<lparr>wi_Version = 0, wi_User = [], wi_UserID = [], wi_Key = None, wi_Meta = [], wi_Addr = []\<rparr>"

text \<open>\<open>json.Marshal\<close> of a \<open>wireIdentity\<close>: the tags name the members, \<open>omitempty\<close> drops \<open>m\<close> and \<open>a\<close>.\<close>

definition marshal_wire :: "wire_identity \<Rightarrow> json" where
  "marshal_wire w =
     JObj ([(''v'', JNum (int_str (wi_Version w))),
            (''u'', JStr (wi_User w)),
            (''i'', JStr (wi_UserID w)),
            (''k'', (case wi_Key w of None \<Rightarrow> JNull | Some b \<Rightarrow> JStr (b64_std_encode b)))] @
           (if wi_Meta w = [] then [] else [(''m'', JObj (map (\<lambda>e. (fst e, JStr (snd e))) (wi_Meta w)))]) @
           (if wi_Addr w = [] then [] else [(''a'', JStr (wi_Addr w))]))"

definition wire_fields :: "wire_identity field list" where
  "wire_fields =
     [(''v'', set_int (\<lambda>n. wi_Version_update (\<lambda>_. n))),
      (''u'', set_string (\<lambda>s. wi_User_update (\<lambda>_. s))),
      (''i'', set_string (\<lambda>s. wi_UserID_update (\<lambda>_. s))),
      (''k'', set_bytes (\<lambda>b. wi_Key_update (\<lambda>_. b))),
      (''m'', set_map wi_Meta (\<lambda>m. wi_Meta_update (\<lambda>_. m))),
      (''a'', set_string (\<lambda>s. wi_Addr_update (\<lambda>_. s)))]"

definition to_wire :: "identity \<Rightarrow> wire_identity" where
  "to_wire ident = \<lparr>wi_Version = identityVersion, wi_User = User ident, wi_UserID = UserID ident,
                 wi_Key = PublicKey ident, wi_Meta = Metadata ident, wi_Addr = RemoteAddr ident\<rparr>"

definition encodeIdentity :: "identity option \<Rightarrow> string" where
  "encodeIdentity ptr =
     (case ptr of
        None \<Rightarrow> []
      | Some ident \<Rightarrow> b64_raw_encode (str_bytes (print_json (marshal_wire (to_wire ident)))))"

definition decodeIdentity :: "string \<Rightarrow> identity" where
  "decodeIdentity raw =
     (if raw = [] then no_identity
      else
        (case b64_raw_decode raw of
           None \<Rightarrow> no_identity
         | Some data \<Rightarrow>
             (case unmarshal wire_fields (bytes_str data) wire_zero of
                None \<Rightarrow> no_identity
              | Some w \<Rightarrow>
                  (if wi_Version w \<noteq> identityVersion then no_identity
                   else \<lparr>User = wi_User w, UserID = wi_UserID w, PublicKey = wi_Key w,
                         Metadata = wi_Meta w, RemoteAddr = wi_Addr w, RequestedHostname = []\<rparr>))))"

section \<open>Authenticators and the callback\<close>

text \<open>\<open>MapAuthenticator\<close>: the map from keys to identities is a partial function.\<close>

definition map_Authenticate :: "(bytes \<rightharpoonup> identity) \<Rightarrow> authenticator" where
  "map_Authenticate keys meta pubKey =
     (case keys pubKey of
        None \<Rightarrow> Inl (Dynamic ''unauthorized: unknown public key'')
      | Some ident \<Rightarrow> Inr (Some (ident\<lparr>RemoteAddr := cm_RemoteAddr meta\<rparr>)))"

text \<open>
  \<open>publicKeyCallback\<close>, with the user name and the remote address the client connected with. After
  an authenticator that answers nil without an error the last log call reads through the nil pointer.
\<close>

type_synonym extensions = "(string \<times> string) list"

definition publicKeyCallback ::
  "authenticator option \<Rightarrow> string \<Rightarrow> string \<Rightarrow> bytes \<Rightarrow> (gerror + extensions) go" where
  "publicKeyCallback auth user addr key =
     (case auth of
        None \<Rightarrow> Ret (Inl (Dynamic ''no authenticator configured''))
      | Some authenticate \<Rightarrow>
          (case authenticate \<lparr>cm_Deployment = user, cm_RemoteAddr = addr\<rparr> key of
             Inl err \<Rightarrow> Ret (Inl err)
           | Inr ptr \<Rightarrow>
               let perms = [(''identity'', encodeIdentity ptr), (''requested-host'', user)]
               in (case ptr of
                     None \<Rightarrow> Panic ''nil pointer dereference''
                   | Some ident \<Rightarrow> Ret (Inr perms))))"

section \<open>The wire format\<close>

lemma match_wire [simp]:
  "match_field wire_fields ''v'' = Some (set_int (\<lambda>n. wi_Version_update (\<lambda>_. n)))"
  "match_field wire_fields ''u'' = Some (set_string (\<lambda>s. wi_User_update (\<lambda>_. s)))"
  "match_field wire_fields ''i'' = Some (set_string (\<lambda>s. wi_UserID_update (\<lambda>_. s)))"
  "match_field wire_fields ''k'' = Some (set_bytes (\<lambda>b. wi_Key_update (\<lambda>_. b)))"
  "match_field wire_fields ''m'' = Some (set_map wi_Meta (\<lambda>m. wi_Meta_update (\<lambda>_. m)))"
  "match_field wire_fields ''a'' = Some (set_string (\<lambda>s. wi_Addr_update (\<lambda>_. s)))"
  by (simp_all add: match_field_def wire_fields_def)

text \<open>A version number as it is printed is a number of JSON and reads back as it was.\<close>

lemma nat_str_digits: "list_all is_digit (nat_str n)"
  by (auto simp: list_all_iff is_digit_def dest: nat_digits_chars)

lemma nat_str_nonempty: "nat_str n \<noteq> []"
  unfolding nat_str_def by (subst nat_digits.simps) simp

lemma hex_digit_zero: "hex_digit 0 = CHR ''0''"
  by code_simp

lemma nat_str_head: "0 < n \<Longrightarrow> hd (nat_str n) \<noteq> CHR ''0''"
  unfolding nat_str_def
proof (induction n rule: nat_digits.induct)
  case (1 n)
  have nonempty: "nat_digits (n div 10) \<noteq> []" using nat_str_nonempty by (simp add: nat_str_def)
  show ?case
  proof (cases "n < 10")
    case True
    with 1(2) show ?thesis
      using hex_digit_inj [of n 0] by (subst nat_digits.simps) (auto simp: hex_digit_zero)
  next
    case False
    with 1(1) nonempty show ?thesis by (subst nat_digits.simps) simp
  qed
qed

lemma digits_val_nat_str [simp]: "digits_val (nat_str n) = int n"
proof -
  have "digit_val c = int (of_char c - 48 :: nat)" if "is_digit c" for c
    using that by (auto simp: digit_val_def is_digit_def)
  then have "foldl (\<lambda>n c. n * 10 + digit_val c) (int m) s = int (foldl (\<lambda>n c. n * 10 + (of_char c - 48)) m s)"
    if "list_all is_digit s" for m s
    using that
  proof (induction s arbitrary: m)
    case (Cons c s)
    then have "int m * 10 + digit_val c = int (m * 10 + (of_char c - 48))" by simp
    with Cons.IH [of "m * 10 + (of_char c - 48)"] Cons.prems show ?case
      by (simp only: foldl_Cons list.pred_inject)
  qed simp
  from this [OF nat_str_digits, of 0 n] show ?thesis
    using nat_of_digits_str [of n] by (simp add: digits_val_def nat_of_digits_def)
qed

lemma nat_str_no_minus: "hd (nat_str n) \<noteq> CHR ''-''"
  using nat_str_digits [of n] nat_str_nonempty [of n] by (cases "nat_str n") (auto simp: is_digit_def)

lemma valid_num_nat_str: "valid_num (nat_str n)"
proof (cases "n = 0")
  case True
  then have "nat_str n = ''0''" unfolding nat_str_def by (subst nat_digits.simps) (simp add: hex_digit_zero)
  then show ?thesis by (simp add: valid_num_def valid_frac_def valid_exp_def)
next
  case False
  obtain c cs where n: "nat_str n = c # cs" using nat_str_nonempty by (cases "nat_str n") auto
  with nat_str_digits [of n] have "is_digit c" "\<forall>x\<in>set cs. is_digit x" by (auto simp: list_all_iff)
  then have d: "is_digit c" "dropWhile is_digit cs = []" by (simp_all add: dropWhile_eq_Nil_conv)
  have "c \<noteq> CHR ''-''" "c \<noteq> CHR ''0''"
    using n nat_str_no_minus [of n] nat_str_head [of n] False by simp_all
  moreover have "valid_frac (dropWhile is_digit cs)"
    unfolding d(2) by (simp add: valid_frac_def valid_exp_def)
  ultimately show ?thesis by (simp add: n d(1) valid_num_def)
qed

lemma json_ok_int: "json_ok (JNum (int_str n))"
proof -
  have "list_all num_char ''0123456789''" by code_simp
  then have "is_digit c \<Longrightarrow> num_char c" for c
    unfolding is_digit_def by (simp only: list_all_iff)
  then have "list_all num_char (nat_str k)" for k
    using nat_str_digits [of k] by (simp only: list_all_iff) blast
  moreover have "valid_num (CHR ''-'' # nat_str k)" for k
    using valid_num_nat_str [of k] nat_str_no_minus [of k] nat_str_nonempty [of k] by (simp add: valid_num_def)
  ultimately show ?thesis
    by (simp add: int_str_def valid_num_nat_str nat_str_nonempty) (simp add: num_char_def)
qed

lemma parse_nat_str:
  assumes "int k < 2 ^ 63"
  shows "parse_int64 (nat_str k) = Some (int k)"
proof -
  have "- (2 ^ 63) \<le> int k" by (rule order_trans [of _ 0]) simp_all
  with assms show ?thesis
    by (simp only: parse_int64_def Let_def nat_str_digits nat_str_nonempty nat_str_no_minus digits_val_nat_str
        simp_thms if_False if_True HOL.not_False_eq_True)
qed

lemma parse_minus_str: "int k \<le> 2 ^ 63 \<Longrightarrow> 0 < k \<Longrightarrow> parse_int64 (CHR ''-'' # nat_str k) = Some (- int k)"
  unfolding parse_int64_def Let_def by (simp add: nat_str_digits nat_str_nonempty)

lemma parse_int64_str:
  assumes "- (2 ^ 63) \<le> n" "n < 2 ^ 63"
  shows "parse_int64 (int_str n) = Some n"
proof (cases "n < 0")
  case True
  with assms(1) parse_minus_str [of "nat (- n)"] show ?thesis by (simp only: int_str_def) simp
next
  case False
  with assms(2) parse_nat_str [of "nat n"] show ?thesis by (simp only: int_str_def) simp
qed

lemma marshal_wire_ok: "json_ok (marshal_wire w)"
  using json_ok_int [of "wi_Version w"]
  by (auto simp: marshal_wire_def list_all_iff split: option.splits)

text \<open>A wire record as Go can hold it: a 64-bit version, valid strings, each key of the map once.\<close>

definition version64 :: "wire_identity \<Rightarrow> bool" where
  "version64 w \<longleftrightarrow> - (2 ^ 63) \<le> wi_Version w \<and> wi_Version w < 2 ^ 63"

lemma version64_one [simp]: "wi_Version w = identityVersion \<Longrightarrow> version64 w"
  by (simp add: version64_def identityVersion_def)

lemma decode_wire:
  assumes "map_sorted (wi_Meta w)" "version64 w"
  shows "decode_struct wire_fields (marshal_wire w) wire_zero = Some w"
proof -
  have m: "entries_put (map (\<lambda>e. (fst e, JStr (snd e))) (wi_Meta w)) [] = Some (wi_Meta w)"
    using entries_put_strings [of "[]" "wi_Meta w"] assms(1) by simp
  have v: "parse_int64 (int_str (wi_Version w)) = Some (wi_Version w)"
    using assms(2) by (simp add: version64_def parse_int64_str)
  show ?thesis
    using m v
    by (cases w; cases "wi_Key w") (auto simp: marshal_wire_def wire_zero_def b64_std_round)
qed

text \<open>The strings of an identity made valid UTF-8, as its way through JSON makes them.\<close>

definition identity_valid :: "identity \<Rightarrow> identity" where
  "identity_valid ident = ident\<lparr>User := to_valid (User ident), UserID := to_valid (UserID ident),
     RemoteAddr := to_valid (RemoteAddr ident)\<rparr>"

definition metadata_ok :: "str_map \<Rightarrow> bool" where
  "metadata_ok m \<longleftrightarrow> map_sorted m \<and> list_all (\<lambda>e. to_valid (fst e) = fst e \<and> to_valid (snd e) = snd e) m"

lemma b64_std_ascii: "list_all is_ascii (b64_std_encode bs)"
proof -
  have "list_all is_ascii b64_alphabet" by (simp add: b64_alphabet_def byte_in_def)
  then show ?thesis
    using b64_encode_chars [of bs] by (auto simp: b64_std_encode_def Let_def list_all_iff byte_in_def)
qed

lemma valid_tags: "to_valid ''v'' = ''v''" "to_valid ''u'' = ''u''" "to_valid ''i'' = ''i''" "to_valid ''k'' = ''k''"
  "to_valid ''m'' = ''m''" "to_valid ''a'' = ''a''"
  by (simp_all add: byte_in_def)

lemma wire_valid:
  assumes "metadata_ok (wi_Meta w)"
  shows "json_valid (marshal_wire w) = marshal_wire (w\<lparr>wi_User := to_valid (wi_User w),
    wi_UserID := to_valid (wi_UserID w), wi_Addr := to_valid (wi_Addr w)\<rparr>)"
proof -
  have meta: "map (\<lambda>(k, v). (to_valid k, json_valid v)) (map (\<lambda>e. (fst e, JStr (snd e))) (wi_Meta w))
      = map (\<lambda>e. (fst e, JStr (snd e))) (wi_Meta w)"
    using assms by (auto simp: metadata_ok_def list_all_iff)
  show ?thesis
    by (cases "wi_Key w")
       (simp_all add: marshal_wire_def valid_tags meta to_valid_all_ascii [OF b64_std_ascii] del: map_map)
qed

text \<open>What \<open>decodeIdentity\<close> makes of a wire record, whoever wrote it.\<close>

definition of_wire :: "wire_identity \<Rightarrow> identity" where
  "of_wire w = \<lparr>User = to_valid (wi_User w), UserID = to_valid (wi_UserID w), PublicKey = wi_Key w,
     Metadata = wi_Meta w, RemoteAddr = to_valid (wi_Addr w), RequestedHostname = []\<rparr>"

lemma decode_any_wire:
  assumes "metadata_ok (wi_Meta w)" "version64 w"
  shows "decodeIdentity (b64_raw_encode (str_bytes (print_json (marshal_wire w))))
      = (if wi_Version w = identityVersion then of_wire w else no_identity)"
proof -
  let ?v = "w\<lparr>wi_User := to_valid (wi_User w), wi_UserID := to_valid (wi_UserID w), wi_Addr := to_valid (wi_Addr w)\<rparr>"
  have "unmarshal wire_fields (print_json (marshal_wire w)) wire_zero = Some ?v"
    using decode_wire [of ?v] assms
    by (simp only: unmarshal_print [OF marshal_wire_ok] wire_valid [OF assms(1)])
       (simp add: metadata_ok_def version64_def)
  moreover have "b64_raw_encode (str_bytes (print_json (marshal_wire w))) \<noteq> []"
    by (simp add: b64_raw_nonempty marshal_wire_def)
  ultimately show ?thesis by (simp add: decodeIdentity_def b64_raw_round of_wire_def)
qed

lemma encodeIdentity_nonempty: "encodeIdentity (Some ident) \<noteq> []"
  by (simp add: encodeIdentity_def b64_raw_nonempty marshal_wire_def)

lemma decode_encode:
  assumes "metadata_ok (Metadata ident)"
  shows "decodeIdentity (encodeIdentity (Some ident)) = (identity_valid ident)\<lparr>RequestedHostname := []\<rparr>"
  using decode_any_wire [of "to_wire ident"] assms
  by (cases ident) (simp add: encodeIdentity_def to_wire_def of_wire_def identity_valid_def)

section \<open>What decoding can give\<close>

lemma map_eq_self: "map f xs = xs \<Longrightarrow> x \<in> set xs \<Longrightarrow> f x = x"
  by (induction xs) auto

text \<open>A decoded struct is well formed when each field keeps it so.\<close>

lemma decode_members_keep:
  assumes "decode_members fs ms r = Some r'" "list_all (\<lambda>m. json_valid (snd m) = snd m) ms" "P r"
    and "\<And>k d v r r'. match_field fs k = Some d \<Longrightarrow> json_valid v = v \<Longrightarrow> P r \<Longrightarrow> d v r = Some r' \<Longrightarrow> P r'"
  shows "P r'"
  using assms(1-3)
proof (induction ms arbitrary: r)
  case (Cons m ms)
  obtain k v where m: "m = (k, v)" by (cases m)
  show ?case
  proof (cases "match_field fs k")
    case None
    with Cons m show ?thesis by simp
  next
    case (Some d)
    with Cons.prems m obtain r1 where "d v r = Some r1" "decode_members fs ms r1 = Some r'"
      by (auto split: option.splits)
    with Cons Some m show ?thesis by (auto intro: assms(4))
  qed
qed simp

definition wire_ok :: "wire_identity \<Rightarrow> bool" where
  "wire_ok w \<longleftrightarrow> to_valid (wi_User w) = wi_User w \<and> to_valid (wi_UserID w) = wi_UserID w
     \<and> to_valid (wi_Addr w) = wi_Addr w \<and> metadata_ok (wi_Meta w)"

lemma match_wire_fields:
  "match_field wire_fields k = Some d \<Longrightarrow> d \<in> snd ` set wire_fields"
proof (cases "map_of wire_fields k")
  case None
  moreover assume "match_field wire_fields k = Some d"
  ultimately obtain f where "find (\<lambda>f. str_lower (fst f) = str_lower k) wire_fields = Some f" "d = snd f"
    by (auto simp: match_field_def)
  then show ?thesis by (auto simp: find_Some_iff)
next
  case (Some e)
  moreover assume "match_field wire_fields k = Some d"
  ultimately have "(k, d) \<in> set wire_fields" by (auto simp: match_field_def dest: map_of_SomeD)
  then show ?thesis by (metis image_eqI snd_conv)
qed

lemma entries_put_ok:
  "entries_put es m = Some m' \<Longrightarrow> list_all (\<lambda>e. to_valid (fst e) = fst e \<and> json_valid (snd e) = snd e) es \<Longrightarrow>
     metadata_ok m \<Longrightarrow> metadata_ok m'"
proof (induction es arbitrary: m)
  case (Cons e es)
  obtain k j where e: "e = (k, j)" by (cases e)
  have put: "metadata_ok (map_put k v m)" if "to_valid k = k" "to_valid v = v" for v
    using Cons.prems(3) that map_put_keys [of k v m]
    by (fastforce simp: metadata_ok_def list_all_iff intro: map_put_sorted)
  from Cons put show ?case by (cases j) (auto simp: e)
qed simp

lemma wire_field_keeps:
  assumes "match_field wire_fields k = Some d" "json_valid v = v" "wire_ok w" "d v w = Some w'"
  shows "wire_ok w'"
proof -
  have map: "metadata_ok (wi_Meta w')" if "set_map wi_Meta (\<lambda>m. wi_Meta_update (\<lambda>_. m)) v w = Some w'"
  proof (cases v)
    case (JObj es)
    with that obtain m where m: "entries_put es (wi_Meta w) = Some m" "wi_Meta w' = m" by auto
    have "list_all (\<lambda>e. to_valid (fst e) = fst e \<and> json_valid (snd e) = snd e) es"
      using assms(2) unfolding JObj json_valid_obj
      by (auto simp: list_all_iff valid_member_def map_idI dest: map_eq_self)
    with entries_put_ok [OF m(1)] m(2) assms(3) show ?thesis by (simp add: wire_ok_def)
  qed (use that assms(3) in \<open>auto simp: wire_ok_def metadata_ok_def map_sorted_def\<close>)
  from match_wire_fields [OF assms(1)] show ?thesis
    using assms(2-4) map
    by (cases v) (auto simp: wire_fields_def wire_ok_def)
qed

lemma unmarshal_wire_ok:
  assumes "unmarshal wire_fields s wire_zero = Some w"
  shows "wire_ok w"
proof -
  from assms obtain j where j: "json_parse s = Some j" "decode_struct wire_fields j wire_zero = Some w"
    by (auto simp: unmarshal_def split: option.splits)
  have zero: "wire_ok wire_zero" by (simp add: wire_ok_def wire_zero_def metadata_ok_def map_sorted_def)
  show ?thesis
  proof (cases j)
    case (JObj ms)
    have "list_all (\<lambda>m. json_valid (snd m) = snd m) ms"
      using json_parse_valid [OF j(1)] unfolding JObj json_valid_obj
      by (auto simp: list_all_iff valid_member_def dest: map_eq_self)
    with j(2) JObj zero show ?thesis
      by (intro decode_members_keep [of wire_fields ms wire_zero w wire_ok]) (auto intro: wire_field_keeps)
  qed (use j(2) zero in simp_all)
qed

lemma decoded_ok:
  "metadata_ok (Metadata (decodeIdentity raw)) \<and> identity_valid (decodeIdentity raw) = decodeIdentity raw
    \<and> RequestedHostname (decodeIdentity raw) = []"
  by (auto simp: decodeIdentity_def no_identity_def identity_valid_def metadata_ok_def map_sorted_def wire_ok_def
      dest!: unmarshal_wire_ok split: option.splits)

section \<open>Properties\<close>

text \<open>C23. The codec round trip: an identity comes back from the permissions as it was put in, but for the
  requested host, which travels beside it; strings that are not valid UTF-8 come back with U+FFFD for
  what is invalid. Nothing at all, and text that is no encoding, give the empty identity.\<close>

theorem identity_round:
  assumes "metadata_ok (Metadata ident)"
  shows "decodeIdentity (encodeIdentity (Some ident)) = (identity_valid ident)\<lparr>RequestedHostname := []\<rparr>
    \<and> decodeIdentity (encodeIdentity None) = no_identity
    \<and> (b64_raw_decode junk = None \<longrightarrow> decodeIdentity junk = no_identity)"
  using decode_encode [OF assms] by (simp add: decodeIdentity_def encodeIdentity_def)

theorem identity_round_witness:
  "decodeIdentity (encodeIdentity (Some \<lparr>User = ''ann'', UserID = ''a<b'', PublicKey = Some [1, 2], Metadata = [(''team'', ''x'')],
      RemoteAddr = [CHR 0xFF], RequestedHostname = ''web''\<rparr>))
    = \<lparr>User = ''ann'', UserID = ''a<b'', PublicKey = Some [1, 2], Metadata = [(''team'', ''x'')],
       RemoteAddr = replacement, RequestedHostname = []\<rparr>"
  using identity_round [of "\<lparr>User = ''ann'', UserID = ''a<b'', PublicKey = Some [1, 2], Metadata = [(''team'', ''x'')],
      RemoteAddr = [CHR 0xFF], RequestedHostname = ''web''\<rparr>"]
  by (simp add: metadata_ok_def map_sorted_def identity_valid_def byte_in_def to_valid_bad)

text \<open>C24. The decoder knows exactly the identities of the wire. Of a record that any writer of the format
  made, of whatever 64-bit version, it takes every field when the version is 1 and gives the empty
  identity for every other version. The identities it can give are those with valid strings, each
  metadata key once and no requested host: every one of them is the reading of some text, and no text
  gives another.\<close>

theorem decoded_identity_type:
  "(metadata_ok (wi_Meta w) \<longrightarrow> version64 w \<longrightarrow>
      decodeIdentity (b64_raw_encode (str_bytes (print_json (marshal_wire w))))
        = (if wi_Version w = 1 then of_wire w else no_identity))
   \<and> range decodeIdentity =
      {ident. metadata_ok (Metadata ident) \<and> identity_valid ident = ident \<and> RequestedHostname ident = []}"
proof (rule conjI)
  show "metadata_ok (wi_Meta w) \<longrightarrow> version64 w \<longrightarrow>
      decodeIdentity (b64_raw_encode (str_bytes (print_json (marshal_wire w))))
        = (if wi_Version w = 1 then of_wire w else no_identity)"
    using decode_any_wire [of w] by (simp add: identityVersion_def)
  have "ident \<in> range decodeIdentity"
    if "metadata_ok (Metadata ident)" "identity_valid ident = ident" "RequestedHostname ident = []" for ident
    using that decode_encode [of ident] rangeI [of decodeIdentity "encodeIdentity (Some ident)"]
    by (cases ident) simp
  then show "range decodeIdentity =
      {ident. metadata_ok (Metadata ident) \<and> identity_valid ident = ident \<and> RequestedHostname ident = []}"
    using decoded_ok by blast
qed

theorem decoded_identity_type_witness:
  "decodeIdentity (b64_raw_encode (str_bytes (print_json (marshal_wire
      \<lparr>wi_Version = 2, wi_User = ''ann'', wi_UserID = ''u1'', wi_Key = Some [7], wi_Meta = [], wi_Addr = []\<rparr>)))) = no_identity
   \<and> decodeIdentity (b64_raw_encode (str_bytes (print_json (marshal_wire
      \<lparr>wi_Version = 1, wi_User = ''ann'', wi_UserID = ''u1'', wi_Key = Some [7], wi_Meta = [(''a'', ''b'')], wi_Addr = ''h''\<rparr>))))
     = \<lparr>User = ''ann'', UserID = ''u1'', PublicKey = Some [7], Metadata = [(''a'', ''b'')], RemoteAddr = ''h'', RequestedHostname = []\<rparr>"
  using decoded_identity_type [of "\<lparr>wi_Version = 2, wi_User = ''ann'', wi_UserID = ''u1'', wi_Key = Some [7], wi_Meta = [], wi_Addr = []\<rparr>"]
    decoded_identity_type [of "\<lparr>wi_Version = 1, wi_User = ''ann'', wi_UserID = ''u1'', wi_Key = Some [7], wi_Meta = [(''a'', ''b'')], wi_Addr = ''h''\<rparr>"]
  by (simp add: metadata_ok_def map_sorted_def version64_def of_wire_def byte_in_def)

end
