(* ===== verification/Sync_Auth.thy ===== *)
theory Sync_Auth
  imports Identity_Codec Redis_Store
begin

text \<open>
  The identity cache: \<open>internal/cache/utils.go\<close> (cache keys), \<open>internal/models/identity.go\<close> (what
  is stored), \<open>internal/workers/syncdb\<close> (the workers that fill Redis from the user collection) and
  \<open>internal/auth/redisImpl.go\<close> (the authenticator that reads it).

  SHA-256, \<open>ssh.ParseAuthorizedKey\<close> and \<open>Marshal\<close> of a parsed key are the fields of a record given
  as an argument; Redis is the pair of operations of \<open>Redis_Store\<close>; the answers of MongoDB are the
  inputs of the syncers. A connection carries the store and the number of writes issued so far: the
  environment says when each write happens and whether it fails. Logging is left out.
\<close>

record 'k crypto =
  sha256 :: "bytes \<Rightarrow> bytes"
  ParseAuthorizedKey :: "bytes \<Rightarrow> gerror + 'k"
  Marshal :: "'k \<Rightarrow> bytes"

section \<open>Cache keys and cached identities\<close>

definition ComputeKey :: "'k crypto \<Rightarrow> bytes \<Rightarrow> string" where
  "ComputeKey cr pubKey = ''identity:'' @ hex_encode (sha256 cr pubKey)"

definition NormalizePublicKey :: "'k crypto \<Rightarrow> bytes \<Rightarrow> gerror + bytes" where
  "NormalizePublicKey cr pkBytes =
     (case ParseAuthorizedKey cr pkBytes of Inl err \<Rightarrow> Inl err | Inr pubKey \<Rightarrow> Inr (Marshal cr pubKey))"

record model_identity =
  mi_UserID :: string
  mi_Username :: string
  mi_Admin :: bool

definition marshal_model :: "model_identity \<Rightarrow> string" where
  "marshal_model m =
     print_json (JObj [(''userID'', JStr (mi_UserID m)), (''username'', JStr (mi_Username m)),
                       (''admin'', JBool (mi_Admin m))])"

section \<open>The authenticator\<close>

text \<open>\<open>sshd.Identity\<close> has no JSON tags: its fields are matched by their Go names.\<close>

definition identity_fields :: "identity field list" where
  "identity_fields =
     [(''User'', set_string (\<lambda>s. User_update (\<lambda>_. s))),
      (''UserID'', set_string (\<lambda>s. UserID_update (\<lambda>_. s))),
      (''PublicKey'', set_bytes (\<lambda>b. PublicKey_update (\<lambda>_. b))),
      (''Metadata'', set_map Metadata (\<lambda>m. Metadata_update (\<lambda>_. m))),
      (''RemoteAddr'', set_string (\<lambda>s. RemoteAddr_update (\<lambda>_. s))),
      (''RequestedHostname'', set_string (\<lambda>s. RequestedHostname_update (\<lambda>_. s)))]"

definition redis_Nil :: gerror where
  "redis_Nil = Sentinel ''redis: nil''"

text \<open>\<open>client.Get(key).Result()\<close>: the network may fail; a missing key is \<open>redis.Nil\<close>.\<close>

definition redis_Get ::
    "('s \<Rightarrow> int \<Rightarrow> string \<Rightarrow> string option) \<Rightarrow> gerror option \<Rightarrow> 's \<Rightarrow> int \<Rightarrow> string \<Rightarrow> gerror + string" where
  "redis_Get kv_get down s t key =
     (case down of Some e \<Rightarrow> Inl e
      | None \<Rightarrow> (case kv_get s t key of None \<Rightarrow> Inl redis_Nil | Some v \<Rightarrow> Inr v))"

definition redis_Authenticate :: "'k crypto \<Rightarrow> (string \<Rightarrow> gerror + string) \<Rightarrow> authenticator" where
  "redis_Authenticate cr client_Get meta pubKey =
     (case client_Get (ComputeKey cr pubKey) of
        Inl err \<Rightarrow>
          (if errors_is err redis_Nil then Inl (Dynamic ''identity not found'') else Inl err)
      | Inr val \<Rightarrow>
          (case unmarshal identity_fields val no_identity of
             None \<Rightarrow> Inl (Dynamic ''json'')
           | Some identity \<Rightarrow> Inr (Some identity)))"

section \<open>The periodic syncer\<close>

record env =
  env_now :: "nat \<Rightarrow> int"
  env_fail :: "nat \<Rightarrow> gerror option"

record 's redis_conn =
  rc_store :: 's
  rc_writes :: nat

text \<open>The expiry argument of \<open>Set\<close> in milliseconds: none unless positive, at least one.\<close>

definition expiry_millis :: "int \<Rightarrow> int" where
  "expiry_millis d = (if d \<le> 0 then 0 else max 1 (d div nanos_per_milli))"

type_synonym 's kv_setter = "'s \<Rightarrow> int \<Rightarrow> string \<Rightarrow> string \<Rightarrow> int \<Rightarrow> 's"

definition redis_Set ::
    "'s kv_setter \<Rightarrow> env \<Rightarrow> string \<Rightarrow> string \<Rightarrow> int \<Rightarrow> 's redis_conn \<Rightarrow> gerror option \<times> 's redis_conn" where
  "redis_Set kv_set env key data ttl c =
     (let n = rc_writes c; c' = c\<lparr>rc_writes := Suc n\<rparr>
      in case env_fail env n of
           Some e \<Rightarrow> (Some e, c')
         | None \<Rightarrow> (None, c'\<lparr>rc_store := kv_set (rc_store c) (env_now env n) key data (expiry_millis ttl)\<rparr>))"

text \<open>A document of the user collection, as \<open>cursor.Decode\<close> reads it.\<close>

record user_doc =
  u_ID :: string
  u_Username :: string
  u_Admin :: bool
  u_PublicKeys :: "bytes list"

record periodic_syncer =
  ps_interval :: int
  ps_lastSync :: "int option"

definition newPeriodicSyncer :: "int \<Rightarrow> periodic_syncer" where
  "newPeriodicSyncer interval = \<lparr>ps_interval = interval, ps_lastSync = None\<rparr>"

definition second :: int where
  "second = 1000000000"

fun sync_keys ::
    "'k crypto \<Rightarrow> 's kv_setter \<Rightarrow> env \<Rightarrow> int \<Rightarrow> string \<Rightarrow> bytes list \<Rightarrow> 's redis_conn \<Rightarrow> 's redis_conn" where
  "sync_keys cr kv_set env interval data [] c = c"
| "sync_keys cr kv_set env interval data (pk # pks) c =
     (case NormalizePublicKey cr pk of
        Inl err \<Rightarrow> sync_keys cr kv_set env interval data pks c
      | Inr norm \<Rightarrow>
          let key = ComputeKey cr norm;
              ttl = interval + 5 * second;
              (_, c') = redis_Set kv_set env key data ttl c
          in sync_keys cr kv_set env interval data pks c')"

definition user_identity :: "user_doc \<Rightarrow> model_identity" where
  "user_identity user =
     \<lparr>mi_UserID = u_ID user, mi_Username = u_Username user, mi_Admin = u_Admin user\<rparr>"

text \<open>The body of the cursor loop; a document that cannot be decoded is skipped.\<close>

fun sync_docs ::
    "'k crypto \<Rightarrow> 's kv_setter \<Rightarrow> env \<Rightarrow> int \<Rightarrow> (gerror + user_doc) list \<Rightarrow> 's redis_conn \<Rightarrow> 's redis_conn" where
  "sync_docs cr kv_set env interval [] c = c"
| "sync_docs cr kv_set env interval (Inl err # docs) c = sync_docs cr kv_set env interval docs c"
| "sync_docs cr kv_set env interval (Inr user # docs) c =
     (let data = marshal_model (user_identity user)
      in sync_docs cr kv_set env interval docs
           (sync_keys cr kv_set env interval data (u_PublicKeys user) c))"

definition syncOnce ::
    "'k crypto \<Rightarrow> 's kv_setter \<Rightarrow> env \<Rightarrow> gerror + (gerror + user_doc) list \<Rightarrow>
     periodic_syncer \<Rightarrow> 's redis_conn \<Rightarrow> gerror option \<times> periodic_syncer \<times> 's redis_conn" where
  "syncOnce cr kv_set env found w c =
     (case found of
        Inl err \<Rightarrow> (Some err, w, c)
      | Inr docs \<Rightarrow>
          let c' = sync_docs cr kv_set env (ps_interval w) docs c
          in (None, w\<lparr>ps_lastSync := Some (env_now env (rc_writes c'))\<rparr>, c'))"

text \<open>
  \<open>Start\<close>, on the sequence of what its \<open>select\<close> takes: ticks (with what \<open>Find\<close> answers) until the
  context is done. \<open>None\<close> is a worker still waiting. \<open>NewTicker\<close> panics on an interval that is not
  positive.
\<close>

datatype sync_event = Tick "gerror + (gerror + user_doc) list" | CtxDone gerror

fun periodic_loop ::
    "'k crypto \<Rightarrow> 's kv_setter \<Rightarrow> env \<Rightarrow> sync_event list \<Rightarrow> periodic_syncer \<Rightarrow> 's redis_conn \<Rightarrow>
     gerror option \<times> periodic_syncer \<times> 's redis_conn" where
  "periodic_loop cr kv_set env [] w c = (None, w, c)"
| "periodic_loop cr kv_set env (CtxDone err # es) w c = (Some err, w, c)"
| "periodic_loop cr kv_set env (Tick found # es) w c =
     (case syncOnce cr kv_set env found w c of
        (Some err, w', c') \<Rightarrow> (Some err, w', c')
      | (None, w', c') \<Rightarrow> periodic_loop cr kv_set env es w' c')"

definition periodic_Start ::
    "'k crypto \<Rightarrow> 's kv_setter \<Rightarrow> env \<Rightarrow> sync_event list \<Rightarrow> periodic_syncer \<Rightarrow> 's redis_conn \<Rightarrow>
     (gerror option \<times> periodic_syncer \<times> 's redis_conn) go" where
  "periodic_Start cr kv_set env es w c =
     (if ps_interval w \<le> 0 then Panic ''non-positive interval for NewTicker''
      else Ret (periodic_loop cr kv_set env es w c))"

section \<open>The change-stream syncer\<close>

text \<open>The dynamic values of a decoded change event.\<close>

datatype bson =
    BString string
  | BBool bool
  | BDoc "(string \<times> bson) list"
  | BSlice "bson list"
  | BOther

definition bson_string :: "bson option \<Rightarrow> string" where
  "bson_string v = (case v of Some (BString s) \<Rightarrow> s | _ \<Rightarrow> [])"

definition bson_bool :: "bson option \<Rightarrow> bool" where
  "bson_bool v = (case v of Some (BBool b) \<Rightarrow> b | _ \<Rightarrow> False)"

definition bson_slice :: "bson option \<Rightarrow> bson list" where
  "bson_slice v = (case v of Some (BSlice xs) \<Rightarrow> xs | _ \<Rightarrow> [])"

text \<open>The text of one entry of \<open>publicKeys\<close>, if it has one.\<close>

definition entry_key :: "bson \<Rightarrow> string option" where
  "entry_key pk =
     (case pk of
        BDoc pkMap \<Rightarrow> (case map_of pkMap ''key'' of Some (BString keyStr) \<Rightarrow> Some keyStr | _ \<Rightarrow> None)
      | _ \<Rightarrow> None)"

fun watch_keys ::
    "'k crypto \<Rightarrow> 's kv_setter \<Rightarrow> env \<Rightarrow> string \<Rightarrow> bson list \<Rightarrow> 's redis_conn \<Rightarrow> 's redis_conn" where
  "watch_keys cr kv_set env data [] c = c"
| "watch_keys cr kv_set env data (pk # pks) c =
     (case entry_key pk of
        None \<Rightarrow> watch_keys cr kv_set env data pks c
      | Some keyStr \<Rightarrow>
          (case NormalizePublicKey cr (str_bytes keyStr) of
             Inl err \<Rightarrow> watch_keys cr kv_set env data pks c
           | Inr norm \<Rightarrow>
               let key = ComputeKey cr norm; (_, c') = redis_Set kv_set env key data 0 c
               in watch_keys cr kv_set env data pks c'))"

definition doc_identity :: "(string \<times> bson) list \<Rightarrow> model_identity" where
  "doc_identity fullDoc =
     \<lparr>mi_UserID = bson_string (map_of fullDoc ''id''),
      mi_Username = bson_string (map_of fullDoc ''username''),
      mi_Admin = bson_bool (map_of fullDoc ''isAdmin'')\<rparr>"

definition handleChangeEvent ::
    "'k crypto \<Rightarrow> 's kv_setter \<Rightarrow> env \<Rightarrow> (string \<times> bson) list \<Rightarrow> 's redis_conn \<Rightarrow> 's redis_conn" where
  "handleChangeEvent cr kv_set env event c =
     (case map_of event ''fullDocument'' of
        Some (BDoc fullDoc) \<Rightarrow>
          let pubKeys = bson_slice (map_of fullDoc ''publicKeys'');
              data = marshal_model (doc_identity fullDoc)
          in watch_keys cr kv_set env data pubKeys c
      | _ \<Rightarrow> c)"

text \<open>The loop over the change stream; an event that cannot be decoded is skipped.\<close>

fun watch_loop ::
    "'k crypto \<Rightarrow> 's kv_setter \<Rightarrow> env \<Rightarrow> (gerror + (string \<times> bson) list) list \<Rightarrow> 's redis_conn \<Rightarrow> 's redis_conn" where
  "watch_loop cr kv_set env [] c = c"
| "watch_loop cr kv_set env (Inl err # es) c = watch_loop cr kv_set env es c"
| "watch_loop cr kv_set env (Inr event # es) c =
     watch_loop cr kv_set env es (handleChangeEvent cr kv_set env event c)"

definition watch_Start ::
    "'k crypto \<Rightarrow> 's kv_setter \<Rightarrow> env \<Rightarrow> gerror + (gerror + (string \<times> bson) list) list \<Rightarrow> gerror option \<Rightarrow>
     's redis_conn \<Rightarrow> gerror option \<times> 's redis_conn" where
  "watch_Start cr kv_set env stream ctx_err c =
     (case stream of
        Inl err \<Rightarrow> (Some err, c)
      | Inr es \<Rightarrow> (ctx_err, watch_loop cr kv_set env es c))"

text \<open>\<open>NewKVSyncWorker\<close> always takes the periodic mode.\<close>

datatype syncer = Periodic periodic_syncer | Watch

definition NewKVSyncWorker :: "int \<Rightarrow> syncer" where
  "NewKVSyncWorker interval = Periodic (newPeriodicSyncer interval)"

section \<open>What the authenticator reads\<close>

lemma lower_names:
  "str_lower ''User'' = ''user''" "str_lower ''UserID'' = ''userid''" "str_lower ''userID'' = ''userid''"
  "str_lower ''username'' = ''username''" "str_lower ''admin'' = ''admin''"
  "str_lower ''PublicKey'' = ''publickey''" "str_lower ''Metadata'' = ''metadata''"
  "str_lower ''RemoteAddr'' = ''remoteaddr''" "str_lower ''RequestedHostname'' = ''requestedhostname''"
  by code_simp+

lemma match_model [simp]:
  "match_field identity_fields ''userID'' = Some (set_string (\<lambda>s. UserID_update (\<lambda>_. s)))"
  "match_field identity_fields ''username'' = None"
  "match_field identity_fields ''admin'' = None"
  by (simp_all add: match_field_def identity_fields_def lower_names)

lemma unmarshal_model:
  "unmarshal identity_fields (marshal_model m) no_identity = Some (no_identity\<lparr>UserID := to_valid (mi_UserID m)\<rparr>)"
  by (simp add: marshal_model_def unmarshal_print del: print_json.simps)

lemma redis_Authenticate_cached:
  assumes "kv_get s t (ComputeKey cr pk) = Some (marshal_model m)"
  shows "redis_Authenticate cr (redis_Get kv_get None s t) meta pk = Inr (Some (no_identity\<lparr>UserID := to_valid (mi_UserID m)\<rparr>))"
  using assms by (simp add: redis_Authenticate_def redis_Get_def unmarshal_model)

lemma redis_Authenticate_missing:
  assumes "kv_get s t (ComputeKey cr pk) = None"
  shows "redis_Authenticate cr (redis_Get kv_get None s t) meta pk = Inl (Dynamic ''identity not found'')"
  using assms by (simp add: redis_Authenticate_def redis_Get_def)

text \<open>A successful answer was in the store.\<close>

lemma redis_Authenticate_found:
  assumes "redis_Authenticate cr (redis_Get kv_get down s t) meta pk = Inr r"
  obtains v where "kv_get s t (ComputeKey cr pk) = Some v"
  using assms
  by (auto simp: redis_Authenticate_def redis_Get_def redis_Nil_def split: option.splits if_splits)

text \<open>The data cached for a key by a list of users.\<close>

definition lists_key :: "'k crypto \<Rightarrow> user_doc \<Rightarrow> string \<Rightarrow> bool" where
  "lists_key cr u key \<longleftrightarrow>
     (\<exists>pk \<in> set (u_PublicKeys u). \<exists>k. ParseAuthorizedKey cr pk = Inr k \<and> ComputeKey cr (Marshal cr k) = key)"

lemma expiry_millis_sync: "0 \<le> i \<Longrightarrow> 0 < expiry_millis (i + 5 * second)"
  by (simp add: expiry_millis_def second_def nanos_per_milli_def)

section \<open>The writes of the syncers, on any store\<close>

text \<open>All writes happen early enough to be seen by a query at time \<open>t'\<close>, and none is old enough to be gone.\<close>

definition live :: "env \<Rightarrow> int \<Rightarrow> int \<Rightarrow> bool" where
  "live env ttl t' \<longleftrightarrow> (\<forall>n. env_fail env n = None \<and> env_now env n \<le> t' \<and>
     (ttl = 0 \<or> t' < env_now env n + ttl * nanos_per_milli))"

locale identity_cache = kv_store kv_get kv_set
  for kv_get :: "'s \<Rightarrow> int \<Rightarrow> string \<Rightarrow> string option" and kv_set
begin

lemma redis_Set_live:
  assumes "live env (expiry_millis ttl) t'"
  shows "kv_get (rc_store (snd (redis_Set kv_set env key data ttl c))) t' key' =
    (if key' = key then Some data else kv_get (rc_store c) t' key')"
  using assms get_set_live get_set_other
  by (auto simp: redis_Set_def live_def Let_def)


abbreviation bson_key_in :: "'k crypto \<Rightarrow> bson list \<Rightarrow> string \<Rightarrow> bool" where
  "bson_key_in cr pks key \<equiv>
     \<exists>pk \<in> set pks. \<exists>s k. entry_key pk = Some s \<and> ParseAuthorizedKey cr (str_bytes s) = Inr k
       \<and> ComputeKey cr (Marshal cr k) = key"

lemma watch_keys_live:
  assumes "live env 0 t'"
  shows "kv_get (rc_store (watch_keys cr kv_set env data pks c)) t' key =
    (if bson_key_in cr pks key then Some data else kv_get (rc_store c) t' key)"
proof (induction pks arbitrary: c)
  case (Cons pk pks)
  have "live env (expiry_millis 0) t'" using assms by (simp add: expiry_millis_def)
  from Cons.IH redis_Set_live [OF this] show ?case
    by (auto simp: NormalizePublicKey_def case_prod_unfold split: option.splits sum.splits)
qed simp

end

text \<open>The entries of the event's full document, if it has one.\<close>

definition event_keys :: "(string \<times> bson) list \<Rightarrow> bson list" where
  "event_keys event =
     (case map_of event ''fullDocument'' of
        Some (BDoc fullDoc) \<Rightarrow> bson_slice (map_of fullDoc ''publicKeys'') | _ \<Rightarrow> [])"

definition event_lists :: "'k crypto \<Rightarrow> (string \<times> bson) list \<Rightarrow> string \<Rightarrow> bool" where
  "event_lists cr event key \<longleftrightarrow>
     (\<exists>pk \<in> set (event_keys event). \<exists>s k. entry_key pk = Some s \<and>
        ParseAuthorizedKey cr (str_bytes s) = Inr k \<and> ComputeKey cr (Marshal cr k) = key)"

definition event_id :: "(string \<times> bson) list \<Rightarrow> string" where
  "event_id event =
     (case map_of event ''fullDocument'' of
        Some (BDoc fullDoc) \<Rightarrow> bson_string (map_of fullDoc ''id'') | _ \<Rightarrow> [])"

context identity_cache
begin

lemma handleChangeEvent_live:
  assumes "live env 0 t'" "event_lists cr event key"
  obtains m where "mi_UserID m = event_id event"
    "kv_get (rc_store (handleChangeEvent cr kv_set env event c)) t' key = Some (marshal_model m)"
proof -
  obtain fullDoc where f: "map_of event ''fullDocument'' = Some (BDoc fullDoc)"
    using assms(2)
    by (cases "map_of event ''fullDocument''")
       (auto simp: event_lists_def event_keys_def split: bson.split_asm)
  show thesis
    using that [of "doc_identity fullDoc"] assms(2) watch_keys_live [OF assms(1), of cr]
    by (simp add: handleChangeEvent_def f doc_identity_def event_id_def event_lists_def event_keys_def)
qed

lemma handleChangeEvent_other:
  assumes "live env 0 t'" "\<not> event_lists cr event key"
  shows "kv_get (rc_store (handleChangeEvent cr kv_set env event c)) t' key = kv_get (rc_store c) t' key"
  using assms(2) watch_keys_live [OF assms(1), of cr]
  by (auto simp: handleChangeEvent_def event_lists_def event_keys_def split: option.splits bson.splits)

lemma watch_loop_other:
  assumes "live env 0 t'" "\<forall>event. Inr event \<in> set es \<longrightarrow> \<not> event_lists cr event key"
  shows "kv_get (rc_store (watch_loop cr kv_set env es c)) t' key = kv_get (rc_store c) t' key"
  using assms(2)
proof (induction es arbitrary: c)
  case (Cons e es)
  then show ?case by (cases e) (simp_all add: handleChangeEvent_other [OF assms(1)])
qed simp

end

interpretation ref_cache: identity_cache ref_get ref_set
  by unfold_locales

section \<open>Properties\<close>

text \<open>The parameters of the instances below: keys are their own normal form and digest.\<close>

definition plain_crypto :: "bytes crypto" where
  "plain_crypto = \<lparr>sha256 = (\<lambda>b. b), ParseAuthorizedKey = Inr, Marshal = (\<lambda>b. b)\<rparr>"

definition still_env :: env where
  "still_env = \<lparr>env_now = (\<lambda>_. 0), env_fail = (\<lambda>_. None)\<rparr>"

definition ann :: user_doc where
  "ann = \<lparr>u_ID = ''ann-id'', u_Username = ''ann'', u_Admin = True, u_PublicKeys = [[7]]\<rparr>"

definition empty_conn :: "string ref_store redis_conn" where
  "empty_conn = \<lparr>rc_store = Map.empty, rc_writes = 0\<rparr>"

lemma five_second_sync: "expiry_millis (ps_interval (newPeriodicSyncer (5 * second)) + 5 * second) = 10000"
  by (simp add: expiry_millis_def newPeriodicSyncer_def second_def nanos_per_milli_def)

lemma ten_seconds: "expiry_millis 10000000000 = 10000"
  by (simp add: expiry_millis_def nanos_per_milli_def)

lemma still_live: "live still_env 10000 0" "live still_env 0 t \<longleftrightarrow> 0 \<le> t"
  by (simp_all add: live_def still_env_def nanos_per_milli_def)

text \<open>The change-stream syncer never revokes: after an event that lists a key, the key
  authenticates as that user at any later time, whatever events follow that do not list it, the
  removal of the key or of the user among them.\<close>

theorem watch_never_revokes:
  assumes "kv_store kv_get kv_set" "live env 0 t"
    and "event_lists cr event (ComputeKey cr pubKey)"
    and "\<forall>event'. Inr event' \<in> set es \<longrightarrow> \<not> event_lists cr event' (ComputeKey cr pubKey)"
  shows "redis_Authenticate cr
      (redis_Get kv_get None (rc_store (watch_loop cr kv_set env (Inr event # es) c)) t) meta pubKey
    = Inr (Some (no_identity\<lparr>UserID := to_valid (event_id event)\<rparr>))"
proof -
  have ic: "identity_cache kv_get kv_set" using assms(1) by (simp add: identity_cache_def)
  from identity_cache.handleChangeEvent_live [OF ic assms(2,3)] obtain m where
    m: "mi_UserID m = event_id event"
      "kv_get (rc_store (handleChangeEvent cr kv_set env event c)) t (ComputeKey cr pubKey) = Some (marshal_model m)"
    by blast
  with identity_cache.watch_loop_other [OF ic assms(2,4)] show ?thesis
    by (simp add: redis_Authenticate_cached)
qed

definition ann_event :: "(string \<times> bson) list" where
  "ann_event = [(''fullDocument'', BDoc [(''id'', BString ''ann-id''),
     (''publicKeys'', BSlice [BDoc [(''key'', BString ''k'')]])])]"

definition drop_event :: "(string \<times> bson) list" where
  "drop_event = [(''operationType'', BString ''delete'')]"

theorem watch_never_revokes_witness:
  "redis_Authenticate plain_crypto
      (redis_Get ref_get None (rc_store (watch_loop plain_crypto ref_set still_env
         [Inr ann_event, Inr drop_event] empty_conn)) (10 ^ 30))
      \<lparr>cm_Deployment = [], cm_RemoteAddr = []\<rparr> (str_bytes ''k'')
    = Inr (Some (no_identity\<lparr>UserID := ''ann-id''\<rparr>))"
proof -
  have "event_lists plain_crypto ann_event (ComputeKey plain_crypto (str_bytes ''k''))"
    by (simp add: event_lists_def event_keys_def ann_event_def bson_slice_def entry_key_def plain_crypto_def)
  moreover have "\<not> event_lists plain_crypto drop_event key" for key
    by (simp add: event_lists_def event_keys_def drop_event_def)
  ultimately show ?thesis
    using watch_never_revokes [OF ref.kv_store_axioms, of still_env "10 ^ 30" plain_crypto ann_event
        "str_bytes ''k''" "[Inr drop_event]" empty_conn]
    by (simp add: still_live event_id_def ann_event_def bson_string_def)
qed

end
