(* ===== verification/Requests.thy ===== *)
theory Requests
  imports Prelude
begin

text \<open>
  The payloads of the SSH requests the server understands (\<open>pkg/ssh/requests/payload.go\<close>) and the
  requests of a session channel as \<open>internal/sshd/connector.go\<close> tells them apart. Unmarshalling is
  done by the SSH library: a request carries the decoded payload, or \<open>None\<close> where decoding failed.
\<close>

record PTYReq =
  pty_TERM :: string
  pty_Cols :: "32 word"
  pty_Rows :: "32 word"
  pty_WidthPx :: "32 word"
  pty_HeightPx :: "32 word"
  pty_Mode :: string

record DirectTCPIP =
  DestAddr :: string
  DestPort :: "32 word"
  OriginAddr :: string
  OriginPort :: "32 word"

record ExecRequest =
  Command :: string

record SubsystemRequest =
  SubsystemName :: string

record WindowChangeRequest =
  wc_Cols :: "32 word"
  wc_Rows :: "32 word"
  wc_WidthPixels :: "32 word"
  wc_HeightPixels :: "32 word"

record EnvRequest =
  env_Name :: string
  env_Value :: string

datatype session_request =
    ReqPty "PTYReq option"
  | ReqWindowChange "WindowChangeRequest option"
  | ReqEnv "EnvRequest option"
  | ReqShell
  | ReqExec "ExecRequest option"
  | ReqSubsystem "SubsystemRequest option"
  | ReqOther string

text \<open>\<open>ResizeEvent\<close>: the widths become Go ints.\<close>

record resize_event =
  Width :: int
  Height :: int

definition pty_resize :: "PTYReq \<Rightarrow> resize_event" where
  "pty_resize p = \<lparr>Width = uint (pty_Cols p), Height = uint (pty_Rows p)\<rparr>"

definition window_resize :: "WindowChangeRequest \<Rightarrow> resize_event" where
  "window_resize w = \<lparr>Width = uint (wc_Cols w), Height = uint (wc_Rows w)\<rparr>"

lemma uint32_range: "0 \<le> uint (x :: 32 word)" "uint (x :: 32 word) < 2 ^ 32"
  using unsigned_less [of x, where 'a = int] by simp_all

definition resize_ok :: "resize_event \<Rightarrow> bool" where
  "resize_ok e \<longleftrightarrow> 0 \<le> Width e \<and> Width e < 2 ^ 32 \<and> 0 \<le> Height e \<and> Height e < 2 ^ 32"

lemma resize_ok [simp]: "resize_ok (pty_resize p)" "resize_ok (window_resize w)"
  using uint32_range by (simp_all add: resize_ok_def pty_resize_def window_resize_def)

end
