(* ===== verification/Session.thy ===== *)
theory Session
  imports Transition Requests
begin

text \<open>
  A session channel: \<open>SessionV2\<close> and \<open>handleSessionCh\<close> of \<open>internal/sshd/connector.go\<close>, and the
  goroutine of \<open>Handle\<close> that runs it and reports the exit status.

  Two goroutines share the channels \<open>shell\<close> and \<open>sftp\<close> (only ever closed), \<open>exec\<close> (capacity 1) and
  \<open>resizeCh\<close> (capacity 8): the worker, which waits for what the client asks for and runs one handler,
  and the main loop, which reads requests. The handling of a request is a function; a send on a full
  channel leaves the loop in a state of its own. What the \<open>select\<close>s and the handlers may do next are
  the rules of \<open>session_step\<close>; the handlers themselves may return at any time with any error.
  \<open>resizeCh\<close> is read only by the queue of terminal sizes that a shell hands to client-go, whose
  \<open>Next\<close> (\<open>handlers/k8s/shell.go\<close>) waits for the channel alone. The goroutine that calls it is
  client-go's: \<open>s_reader\<close> says that there is one, or may still be one; it can stop at any time, and
  it may go on after the shell handler has returned. \<open>s_received\<close>, \<open>s_replies\<close>, \<open>s_started\<close> and \<open>s_status\<close>
  record what happened, latest first.
\<close>

section \<open>State\<close>

datatype handler = ShellRun | ExecRun string | SftpRun

datatype worker = Selecting | Running handler | Finished "gerror option"

datatype main_phase =
    InLoop
  | SendingResize resize_event session_request
  | SendingExec string session_request
  | Waiting bool
  | Returned "gerror option"
  | Reported "gerror option"
  | Crashed session_request

record session =
  s_shell :: bool
  s_sftp :: bool
  s_exec :: "string list"
  s_resize :: "resize_event list"
  s_reader :: bool
  s_worker :: worker
  s_main :: main_phase
  s_ctx :: "gerror option"
  s_clock :: int
  s_timeout :: int
  s_received :: "session_request list"
  s_replies :: "(session_request \<times> bool) list"
  s_started :: "handler list"
  s_status :: "nat list"

definition exec_cap :: nat where
  "exec_cap = 1"

definition resize_cap :: nat where
  "resize_cap = 8"

definition ErrSessionTimeout :: gerror where
  "ErrSessionTimeout = Sentinel ''session timed out''"

definition sftp_name :: string where
  "sftp_name = ''sftp''"

text \<open>\<open>NewSession\<close>, with the worker started; its timer is two seconds.\<close>

definition NewSession :: "int \<Rightarrow> session" where
  "NewSession now =
     \<lparr>s_shell = False, s_sftp = False, s_exec = [], s_resize = [], s_reader = False, s_worker = Selecting,
      s_main = InLoop, s_ctx = None, s_clock = now, s_timeout = now + 2000000000,
      s_received = [], s_replies = [], s_started = [], s_status = []\<rparr>"

text \<open>The child context is done when the parent is or when the worker has called \<open>cancel\<close>.\<close>

definition child_done :: "session \<Rightarrow> bool" where
  "child_done s \<longleftrightarrow> s_ctx s \<noteq> None \<or> (\<exists>e. s_worker s = Finished e)"

section \<open>The main loop\<close>

definition reply :: "session_request \<Rightarrow> bool \<Rightarrow> session \<Rightarrow> session" where
  "reply r ok s = s\<lparr>s_replies := (r, ok) # s_replies s, s_main := InLoop\<rparr>"

definition send_resize :: "resize_event \<Rightarrow> session_request \<Rightarrow> session \<Rightarrow> session" where
  "send_resize ev r s =
     (if length (s_resize s) < resize_cap then reply r True (s\<lparr>s_resize := s_resize s @ [ev]\<rparr>)
      else s\<lparr>s_main := SendingResize ev r\<rparr>)"

definition send_exec :: "string \<Rightarrow> session_request \<Rightarrow> session \<Rightarrow> session" where
  "send_exec cmd r s =
     (if length (s_exec s) < exec_cap then reply r True (s\<lparr>s_exec := s_exec s @ [cmd]\<rparr>)
      else s\<lparr>s_main := SendingExec cmd r\<rparr>)"

text \<open>One request. Closing \<open>sftp\<close> a second time panics, which ends the process.\<close>

fun handle_request :: "session_request \<Rightarrow> session \<Rightarrow> session" where
  "handle_request (ReqPty None) s = reply (ReqPty None) False s"
| "handle_request (ReqPty (Some p)) s = send_resize (pty_resize p) (ReqPty (Some p)) s"
| "handle_request (ReqWindowChange None) s = reply (ReqWindowChange None) False s"
| "handle_request (ReqWindowChange (Some w)) s = send_resize (window_resize w) (ReqWindowChange (Some w)) s"
| "handle_request (ReqEnv None) s = reply (ReqEnv None) False s"
| "handle_request (ReqEnv (Some e)) s = reply (ReqEnv (Some e)) True s"
| "handle_request ReqShell s =
     (if s_shell s then reply ReqShell False s else reply ReqShell True (s\<lparr>s_shell := True\<rparr>))"
| "handle_request (ReqExec None) s = reply (ReqExec None) False s"
| "handle_request (ReqExec (Some e)) s = send_exec (Command e) (ReqExec (Some e)) s"
| "handle_request (ReqSubsystem None) s = reply (ReqSubsystem None) False s"
| "handle_request (ReqSubsystem (Some e)) s =
     (if SubsystemName e = sftp_name then
        (if s_sftp s then s\<lparr>s_main := Crashed (ReqSubsystem (Some e))\<rparr>
         else reply (ReqSubsystem (Some e)) True (s\<lparr>s_sftp := True\<rparr>))
      else reply (ReqSubsystem (Some e)) False s)"
| "handle_request (ReqOther t) s = reply (ReqOther t) False s"

definition receive_request :: "session_request \<Rightarrow> session \<Rightarrow> session" where
  "receive_request r s = handle_request r (s\<lparr>s_received := r # s_received s\<rparr>)"

text \<open>What the loop returns once the worker is done: \<open>eg.Wait()\<close>, joined with the context's error.\<close>

definition return_value :: "bool \<Rightarrow> gerror option \<Rightarrow> gerror option \<Rightarrow> gerror option" where
  "return_value joined e ctx_err = (if joined then errors_join [e, ctx_err] else e)"

text \<open>The goroutine of \<open>Handle\<close>: exit status 1 after an error, else 0.\<close>

definition report_status :: "gerror option \<Rightarrow> session \<Rightarrow> session" where
  "report_status e s =
     s\<lparr>s_main := Reported e, s_status := (if e = None then 0 else 1) # s_status s\<rparr>"

section \<open>The worker\<close>

definition start_handler :: "handler \<Rightarrow> session \<Rightarrow> session" where
  "start_handler h s = s\<lparr>s_worker := Running h, s_reader := (h = ShellRun), s_started := h # s_started s\<rparr>"

text \<open>
  A handler returns \<open>e\<close>; a reader of terminal sizes stays. After a command the worker sends the exit status itself; the send may fail
  with \<open>se\<close>, and the two errors are joined.
\<close>

definition finish_handler :: "handler \<Rightarrow> gerror option \<Rightarrow> gerror option \<Rightarrow> session \<Rightarrow> session" where
  "finish_handler h e se s =
     (case h of
        ExecRun cmd \<Rightarrow>
          s\<lparr>s_worker := Finished (errors_join [se, e]),
            s_status := (if se = None then (if e = None then 0 else 1) # s_status s else s_status s)\<rparr>
      | _ \<Rightarrow> s\<lparr>s_worker := Finished e\<rparr>)"

inductive session_act :: "session \<Rightarrow> session \<Rightarrow> bool" where
  tick: "0 \<le> d \<Longrightarrow> session_act s (s\<lparr>s_clock := s_clock s + d\<rparr>)"
| cancel: "s_ctx s = None \<Longrightarrow> session_act s (s\<lparr>s_ctx := Some e\<rparr>)"
| request: "s_main s = InLoop \<Longrightarrow> session_act s (receive_request r s)"
| requests_closed: "s_main s = InLoop \<Longrightarrow> session_act s (s\<lparr>s_main := Waiting False\<rparr>)"
| child_ended: "s_main s = InLoop \<Longrightarrow> child_done s \<Longrightarrow> session_act s (s\<lparr>s_main := Waiting True\<rparr>)"
| resize_sent: "s_main s = SendingResize ev r \<Longrightarrow> length (s_resize s) < resize_cap \<Longrightarrow>
     session_act s (send_resize ev r s)"
| exec_sent: "s_main s = SendingExec cmd r \<Longrightarrow> length (s_exec s) < exec_cap \<Longrightarrow>
     session_act s (send_exec cmd r s)"
| returned: "s_main s = Waiting joined \<Longrightarrow> s_worker s = Finished e \<Longrightarrow>
     session_act s (s\<lparr>s_main := Returned (return_value joined e (s_ctx s))\<rparr>)"
| reported: "s_main s = Returned e \<Longrightarrow> session_act s (report_status e s)"
| worker_cancelled: "s_worker s = Selecting \<Longrightarrow> s_ctx s = Some e \<Longrightarrow>
     session_act s (s\<lparr>s_worker := Finished (Some e)\<rparr>)"
| worker_timeout: "s_worker s = Selecting \<Longrightarrow> s_timeout s \<le> s_clock s \<Longrightarrow>
     session_act s (s\<lparr>s_worker := Finished (Some ErrSessionTimeout)\<rparr>)"
| start_shell: "s_worker s = Selecting \<Longrightarrow> s_shell s \<Longrightarrow> session_act s (start_handler ShellRun s)"
| start_exec: "s_worker s = Selecting \<Longrightarrow> s_exec s = cmd # cmds \<Longrightarrow>
     session_act s (start_handler (ExecRun cmd) (s\<lparr>s_exec := cmds\<rparr>))"
| start_sftp: "s_worker s = Selecting \<Longrightarrow> s_sftp s \<Longrightarrow> session_act s (start_handler SftpRun s)"
| shell_resize: "s_reader s \<Longrightarrow> s_resize s = ev # evs \<Longrightarrow> session_act s (s\<lparr>s_resize := evs\<rparr>)"
| reader_stops: "s_reader s \<Longrightarrow> session_act s (s\<lparr>s_reader := False\<rparr>)"
| finish: "s_worker s = Running h \<Longrightarrow> session_act s (finish_handler h e se s)"

text \<open>A panic ends the whole process.\<close>

definition alive :: "session \<Rightarrow> bool" where
  "alive s \<longleftrightarrow> (\<forall>r. s_main s \<noteq> Crashed r)"

definition session_step :: "session \<Rightarrow> session \<Rightarrow> bool" where
  "session_step s s' \<longleftrightarrow> alive s \<and> session_act s s'"

definition session_reach :: "session \<Rightarrow> bool" where
  "session_reach = reach (\<lambda>s. \<exists>now. s = NewSession now) session_step"

lemma session_reach_invariant:
  assumes "session_reach s" "\<And>now. I (NewSession now)"
    and "\<And>s s'. I s \<Longrightarrow> session_act s s' \<Longrightarrow> I s'"
  shows "I s"
  using assms(1) unfolding session_reach_def
  by (induction rule: reach_invariant) (auto simp: session_step_def intro: assms(2,3))

lemma session_reach_new: "session_reach (NewSession now)"
  by (auto simp: session_reach_def intro: reach_init)

lemma session_reach_act: "session_reach s \<Longrightarrow> alive s \<Longrightarrow> session_act s s' \<Longrightarrow> session_reach s'"
  unfolding session_reach_def by (rule reach_step) (simp_all add: session_step_def)

lemmas session_op_defs =
  receive_request_def reply_def send_resize_def send_exec_def start_handler_def
  finish_handler_def report_status_def

section \<open>Invariants\<close>

text \<open>The channels stay within their capacities and carry sizes a terminal can have.\<close>

definition bounded :: "session \<Rightarrow> bool" where
  "bounded s \<longleftrightarrow>
     length (s_exec s) \<le> exec_cap \<and> length (s_resize s) \<le> resize_cap \<and> list_all resize_ok (s_resize s)
     \<and> (\<forall>ev r. s_main s = SendingResize ev r \<longrightarrow> resize_ok ev)"

lemma act_bounded: "session_act s s' \<Longrightarrow> bounded s \<Longrightarrow> bounded s'"
proof (induction rule: session_act.induct)
  case (request s r)
  then show ?case
    by (cases "(r, s)" rule: handle_request.cases) (simp_all add: bounded_def exec_cap_def session_op_defs)
next
  case (finish s h e se)
  then show ?case by (cases h) (simp_all add: bounded_def exec_cap_def finish_handler_def)
qed (simp_all add: bounded_def exec_cap_def session_op_defs)

text \<open>The request the loop is busy with has been received and not yet answered.\<close>

definition pending :: "session \<Rightarrow> session_request list" where
  "pending s =
     (case s_main s of SendingResize ev r \<Rightarrow> [r] | SendingExec cmd r \<Rightarrow> [r] | Crashed r \<Rightarrow> [r] | _ \<Rightarrow> [])"

definition answered :: "session \<Rightarrow> bool" where
  "answered s \<longleftrightarrow> s_received s = pending s @ map fst (s_replies s)"

lemma act_answered: "session_act s s' \<Longrightarrow> answered s \<Longrightarrow> answered s'"
proof (induction rule: session_act.induct)
  case (request s r)
  then show ?case
    by (cases "(r, s)" rule: handle_request.cases) (simp_all add: answered_def pending_def session_op_defs)
next
  case (finish s h e se)
  then show ?case by (cases h) (simp_all add: answered_def pending_def finish_handler_def)
qed (simp_all add: answered_def pending_def session_op_defs)

text \<open>What the client has been granted.\<close>

fun sftp_request :: "session_request \<Rightarrow> bool" where
  "sftp_request (ReqSubsystem (Some e)) \<longleftrightarrow> SubsystemName e = sftp_name"
| "sftp_request _ \<longleftrightarrow> False"

fun exec_request :: "session_request \<Rightarrow> bool" where
  "exec_request (ReqExec (Some e)) \<longleftrightarrow> True"
| "exec_request _ \<longleftrightarrow> False"

fun granted :: "(session_request \<Rightarrow> bool) \<Rightarrow> (session_request \<times> bool) list \<Rightarrow> nat" where
  "granted P [] = 0"
| "granted P ((r, ok) # rs) = granted P rs + of_bool (ok \<and> P r)"

fun exec_runs :: "handler list \<Rightarrow> string list" where
  "exec_runs [] = []"
| "exec_runs (ExecRun cmd # hs) = cmd # exec_runs hs"
| "exec_runs (_ # hs) = exec_runs hs"

text \<open>The commands of the granted exec requests, latest first.\<close>

fun exec_granted :: "(session_request \<times> bool) list \<Rightarrow> string list" where
  "exec_granted [] = []"
| "exec_granted ((ReqExec (Some e), True) # rs) = Command e # exec_granted rs"
| "exec_granted (_ # rs) = exec_granted rs"

text \<open>A shell and an SFTP request are granted once each, together with closing their channel.\<close>

definition granted_once :: "session \<Rightarrow> bool" where
  "granted_once s \<longleftrightarrow>
     granted (\<lambda>r. r = ReqShell) (s_replies s) = of_bool (s_shell s)
     \<and> granted sftp_request (s_replies s) = of_bool (s_sftp s)
     \<and> (\<forall>ev r. s_main s = SendingResize ev r \<longrightarrow> r \<noteq> ReqShell \<and> \<not> sftp_request r)
     \<and> (\<forall>cmd r. s_main s = SendingExec cmd r \<longrightarrow> r \<noteq> ReqShell \<and> \<not> sftp_request r)"

lemma act_granted_once: "session_act s s' \<Longrightarrow> granted_once s \<Longrightarrow> granted_once s'"
proof (induction rule: session_act.induct)
  case (request s r)
  then show ?case
    by (cases "(r, s)" rule: handle_request.cases) (simp_all add: granted_once_def session_op_defs)
next
  case (finish s h e se)
  then show ?case by (cases h) (simp_all add: granted_once_def finish_handler_def)
qed (simp_all add: granted_once_def session_op_defs)

text \<open>Granted commands are waiting in the channel or were started, in this order.\<close>

definition exec_queue :: "session \<Rightarrow> bool" where
  "exec_queue s \<longleftrightarrow>
     exec_granted (s_replies s) = rev (s_exec s) @ exec_runs (s_started s)
     \<and> (\<forall>ev r. s_main s = SendingResize ev r \<longrightarrow> \<not> exec_request r)
     \<and> (\<forall>cmd r. s_main s = SendingExec cmd r \<longrightarrow> (\<exists>e. r = ReqExec (Some e) \<and> Command e = cmd))"

lemma act_exec_queue: "session_act s s' \<Longrightarrow> exec_queue s \<Longrightarrow> bounded s \<Longrightarrow> exec_queue s'"
proof (induction rule: session_act.induct)
  case (start_exec s cmd cmds)
  then have "cmds = []" by (cases cmds) (auto simp: bounded_def exec_cap_def)
  with start_exec show ?case by (simp add: exec_queue_def start_handler_def)
next
  case (request s r)
  then show ?case
    by (cases "(r, s)" rule: handle_request.cases) (simp_all add: exec_queue_def session_op_defs)
next
  case (finish s h e se)
  then show ?case by (cases h) (simp_all add: exec_queue_def finish_handler_def)
next
  case (exec_sent s cmd r)
  then show ?case by (auto simp: exec_queue_def session_op_defs)
next
  case (resize_sent s ev r)
  then show ?case by (cases r rule: exec_request.cases) (simp_all add: exec_queue_def session_op_defs)
qed (simp_all add: exec_queue_def session_op_defs)

text \<open>One handler at most is started, and it was asked for.\<close>

definition one_handler :: "session \<Rightarrow> bool" where
  "one_handler s \<longleftrightarrow>
     (s_worker s = Selecting \<longrightarrow> s_started s = [])
     \<and> (\<forall>h. s_worker s = Running h \<longrightarrow> s_started s = [h])
     \<and> length (s_started s) \<le> 1
     \<and> (ShellRun \<in> set (s_started s) \<longrightarrow> s_shell s)
     \<and> (SftpRun \<in> set (s_started s) \<longrightarrow> s_sftp s)
     \<and> (s_reader s \<longrightarrow> ShellRun \<in> set (s_started s))"

lemma act_one_handler: "session_act s s' \<Longrightarrow> one_handler s \<Longrightarrow> one_handler s'"
proof (induction rule: session_act.induct)
  case (request s r)
  then show ?case
    by (cases "(r, s)" rule: handle_request.cases) (simp_all add: one_handler_def session_op_defs)
next
  case (finish s h e se)
  then show ?case by (cases h) (auto simp: one_handler_def finish_handler_def)
qed (auto simp: one_handler_def session_op_defs)

definition session_inv :: "session \<Rightarrow> bool" where
  "session_inv s \<longleftrightarrow> bounded s \<and> answered s \<and> granted_once s \<and> exec_queue s \<and> one_handler s"

lemma session_inv_reach: "session_reach s \<Longrightarrow> session_inv s"
proof (erule session_reach_invariant)
  show "session_inv (NewSession now)" for now
    by (simp add: session_inv_def NewSession_def bounded_def answered_def pending_def granted_once_def
        exec_queue_def one_handler_def)
next
  fix s s' assume "session_inv s" "session_act s s'"
  then show "session_inv s'"
    by (simp add: session_inv_def act_bounded act_answered act_granted_once act_exec_queue act_one_handler)
qed

lemma exec_runs_length: "length (exec_runs hs) \<le> length hs"
  by (induction hs rule: exec_runs.induct) auto

lemma exec_runs_set: "ExecRun c \<in> set hs \<Longrightarrow> c \<in> set (exec_runs hs)"
  by (induction hs rule: exec_runs.induct) auto

section \<open>Ends and dead ends\<close>

lemma session_steps_reach: "session_reach s \<Longrightarrow> session_step\<^sup>*\<^sup>* s s' \<Longrightarrow> session_reach s'"
  unfolding session_reach_def by (rule reach_steps)

lemma step_rtrancl: "alive s \<Longrightarrow> session_act s s' \<Longrightarrow> session_step\<^sup>*\<^sup>* s s'"
  by (simp add: session_step_def r_into_rtranclp)

text \<open>
  What a session does by itself: all but the end of its context and the return of its handler, which
  have rules of their own.
\<close>

definition own_act :: "session \<Rightarrow> session \<Rightarrow> bool" where
  "own_act t t' \<longleftrightarrow>
     session_act t t' \<and> s_ctx t' = s_ctx t \<and> (\<forall>h. s_worker t = Running h \<longrightarrow> s_worker t' = Running h)"

text \<open>A run of a session by itself, with handlers that return what \<open>returns\<close> has of them.\<close>

definition own_run :: "(handler \<Rightarrow> gerror option \<Rightarrow> bool) \<Rightarrow> session \<Rightarrow> session \<Rightarrow> bool" where
  "own_run returns t t' \<longleftrightarrow> alive t \<and> alive t' \<and>
     (own_act t t' \<or> (\<exists>h e se. s_worker t = Running h \<and> returns h e \<and> t' = finish_handler h e se t))"

lemma own_run_step: "own_run returns t t' \<Longrightarrow> session_step t t'"
  by (auto simp: own_run_def own_act_def session_step_def intro: session_act.finish)

lemma own_run_steps: "(own_run returns)\<^sup>*\<^sup>* t t' \<Longrightarrow> session_step\<^sup>*\<^sup>* t t'"
  by (induction rule: rtranclp_induct) (auto dest: own_run_step intro: rtranclp.rtrancl_into_rtrancl)

lemma own_runI:
  "session_act t t' \<Longrightarrow> alive t \<Longrightarrow> alive t' \<Longrightarrow> s_ctx t' = s_ctx t \<Longrightarrow> (\<And>h. s_worker t = Running h \<Longrightarrow> s_worker t' = Running h) \<Longrightarrow>
     (own_run returns)\<^sup>*\<^sup>* t t'"
  by (rule r_into_rtranclp) (simp add: own_run_def own_act_def)

text \<open>Once the worker is done, a loop that is not held up by a send gets to its end.\<close>

definition at_rest :: "session \<Rightarrow> bool" where
  "at_rest s \<longleftrightarrow>
     s_main s = InLoop \<or> (\<exists>b. s_main s = Waiting b) \<or> (\<exists>r. s_main s = Returned r) \<or> (\<exists>r. s_main s = Reported r)"

lemma at_rest_alive: "at_rest s \<Longrightarrow> alive s"
  by (auto simp: at_rest_def alive_def)

lemma finished_ends:
  assumes "s_worker s = Finished e" "at_rest s"
  shows "\<exists>s' r. (own_run returns)\<^sup>*\<^sup>* s s' \<and> s_main s' = Reported r"
proof -
  let ?ends = "\<lambda>t. \<exists>s' r. (own_run returns)\<^sup>*\<^sup>* t s' \<and> s_main s' = Reported r"
  have ret: "?ends t" if "s_main t = Returned r" "s_worker t = Finished e" for t r
    using own_runI [OF session_act.reported [OF that(1)]] that
    by (intro exI [of _ "report_status r t"] exI [of _ r]) (simp add: alive_def report_status_def)
  have wait: "?ends t" if "s_main t = Waiting b" "s_worker t = Finished e" for t b
  proof -
    let ?t = "t\<lparr>s_main := Returned (return_value b e (s_ctx t))\<rparr>"
    have "(own_run returns)\<^sup>*\<^sup>* t ?t"
      using that by (intro own_runI session_act.returned) (simp_all add: alive_def)
    moreover have "?ends ?t" using ret [of ?t] that(2) by simp
    ultimately show ?thesis by (meson rtranclp_trans)
  qed
  have loop: "?ends s" if "s_main s = InLoop"
  proof -
    let ?t = "s\<lparr>s_main := Waiting True\<rparr>"
    have "(own_run returns)\<^sup>*\<^sup>* s ?t"
      using that assms(1) by (intro own_runI session_act.child_ended) (simp_all add: alive_def child_done_def)
    moreover have "?ends ?t" using wait [of ?t] assms(1) by simp
    ultimately show ?thesis by (meson rtranclp_trans)
  qed
  from assms ret wait loop show ?thesis unfolding at_rest_def by blast
qed

text \<open>The worker gets done: its handler returns, or its timer fires.\<close>

lemma worker_ends:
  assumes "at_rest s" "\<And>h. \<exists>e. returns h e"
  shows "\<exists>s' e. (own_run returns)\<^sup>*\<^sup>* s s' \<and> s_worker s' = Finished e \<and> at_rest s'"
proof (cases "s_worker s")
  case Selecting
  let ?t = "s\<lparr>s_clock := s_clock s + max 0 (s_timeout s - s_clock s)\<rparr>"
  let ?u = "?t\<lparr>s_worker := Finished (Some ErrSessionTimeout)\<rparr>"
  have "(own_run returns)\<^sup>*\<^sup>* s ?t"
    using assms(1) by (intro own_runI session_act.tick) (auto simp: alive_def at_rest_def)
  moreover have "(own_run returns)\<^sup>*\<^sup>* ?t ?u"
    using assms(1) Selecting by (intro own_runI session_act.worker_timeout) (auto simp: alive_def at_rest_def)
  ultimately have "(own_run returns)\<^sup>*\<^sup>* s ?u" by (rule rtranclp_trans)
  then show ?thesis using assms(1) by (intro exI [of _ ?u] exI [of _ "Some ErrSessionTimeout"]) (simp add: at_rest_def)
next
  case (Running h)
  obtain e where "returns h e" using assms(2) by blast
  then have "own_run returns s (finish_handler h e None s)"
    using at_rest_alive [OF assms(1)] Running
    by (auto simp: own_run_def) (cases h; simp add: finish_handler_def alive_def)
  moreover have "at_rest (finish_handler h e None s)" "\<exists>e'. s_worker (finish_handler h e None s) = Finished e'"
    using assms(1) by (cases h; simp add: finish_handler_def at_rest_def)+
  ultimately show ?thesis by (blast intro: r_into_rtranclp)
qed (use assms(1) in \<open>intro exI [of _ s], simp\<close>)

text \<open>
  A send nobody will ever receive: the terminal sizes of a session that has no reader of them and
  will have none, as its worker cannot start a shell any more or no shell was granted; or a command
  after the worker has left its \<open>select\<close>.
\<close>

definition stuck :: "session \<Rightarrow> bool" where
  "stuck s \<longleftrightarrow>
     (case s_main s of
        SendingResize ev r \<Rightarrow>
          resize_cap \<le> length (s_resize s) \<and> \<not> s_reader s \<and> (s_worker s = Selecting \<longrightarrow> \<not> s_shell s)
      | SendingExec cmd r \<Rightarrow> exec_cap \<le> length (s_exec s) \<and> s_worker s \<noteq> Selecting
      | _ \<Rightarrow> False)"

lemma act_stuck: "session_act s s' \<Longrightarrow> stuck s \<Longrightarrow> stuck s' \<and> s_main s' = s_main s"
proof (induction rule: session_act.induct)
  case (finish s h e se)
  then show ?case
    by (cases h; cases "s_main s") (simp_all add: stuck_def finish_handler_def)
next
  case (shell_resize s ev evs)
  then show ?case by (cases "s_main s") (simp_all add: stuck_def)
qed (auto simp: stuck_def session_op_defs split: main_phase.splits)

text \<open>Every other send goes through.\<close>

lemma resize_goes_through:
  assumes "s_main s = SendingResize ev r" "bounded s" "s_reader s \<or> length (s_resize s) < resize_cap"
  shows "\<exists>s'. (own_run returns)\<^sup>*\<^sup>* s s' \<and> at_rest s'"
proof -
  have sent: "\<exists>s'. (own_run returns)\<^sup>*\<^sup>* t s' \<and> at_rest s'"
    if "s_main t = SendingResize ev r" "length (s_resize t) < resize_cap" for t
    using own_runI [OF session_act.resize_sent [OF that]] that
    by (intro exI [of _ "send_resize ev r t"]) (simp add: alive_def at_rest_def send_resize_def reply_def)
  show ?thesis
  proof (cases "length (s_resize s) < resize_cap")
    case False
    then obtain ev' evs where e: "s_resize s = ev' # evs" by (cases "s_resize s") (simp_all add: resize_cap_def)
    let ?t = "s\<lparr>s_resize := evs\<rparr>"
    have "(own_run returns)\<^sup>*\<^sup>* s ?t"
      using assms False e by (intro own_runI session_act.shell_resize) (simp_all add: alive_def)
    moreover have "length (s_resize ?t) < resize_cap" using assms(2) e by (simp add: bounded_def)
    ultimately show ?thesis using sent [of ?t] assms(1) by (auto intro: rtranclp_trans)
  qed (use sent assms(1) in blast)
qed

lemma unblocks:
  assumes "alive s" "bounded s" "\<not> stuck s"
  shows "\<exists>s'. (own_run returns)\<^sup>*\<^sup>* s s' \<and> at_rest s'"
proof (cases "s_main s")
  case (SendingResize ev r)
  show ?thesis
  proof (cases "s_reader s \<or> length (s_resize s) < resize_cap")
    case False
    with assms(3) SendingResize have w: "s_worker s = Selecting" "s_shell s" by (auto simp: stuck_def)
    let ?t = "start_handler ShellRun s"
    have "(own_run returns)\<^sup>*\<^sup>* s ?t"
      using SendingResize w by (intro own_runI session_act.start_shell) (simp_all add: alive_def start_handler_def)
    moreover have "\<exists>s'. (own_run returns)\<^sup>*\<^sup>* ?t s' \<and> at_rest s'"
      using SendingResize assms(2)
      by (intro resize_goes_through [of ?t ev r]) (simp_all add: start_handler_def bounded_def)
    ultimately show ?thesis by (blast intro: rtranclp_trans)
  qed (use resize_goes_through [OF SendingResize assms(2)] in blast)
next
  case (SendingExec cmd r)
  have sent: "\<exists>s'. (own_run returns)\<^sup>*\<^sup>* t s' \<and> at_rest s'"
    if "s_main t = SendingExec cmd r" "length (s_exec t) < exec_cap" for t
    using own_runI [OF session_act.exec_sent [OF that]] that
    by (intro exI [of _ "send_exec cmd r t"]) (simp add: alive_def at_rest_def send_exec_def reply_def)
  show ?thesis
  proof (cases "length (s_exec s) < exec_cap")
    case False
    then obtain c cs where e: "s_exec s = c # cs" by (cases "s_exec s") (simp_all add: exec_cap_def)
    let ?t = "start_handler (ExecRun c) (s\<lparr>s_exec := cs\<rparr>)"
    have "s_worker s = Selecting" using assms(3) SendingExec False by (simp add: stuck_def)
    with SendingExec e have "(own_run returns)\<^sup>*\<^sup>* s ?t"
      by (intro own_runI session_act.start_exec) (simp_all add: alive_def start_handler_def)
    moreover have "\<exists>s'. (own_run returns)\<^sup>*\<^sup>* ?t s' \<and> at_rest s'"
      using SendingExec assms(2) e by (intro sent) (simp_all add: start_handler_def bounded_def)
    ultimately show ?thesis by (blast intro: rtranclp_trans)
  qed (use sent SendingExec in blast)
qed (use assms(1) in \<open>auto simp: at_rest_def alive_def\<close>)

text \<open>So a session that is not stuck gets to its end, if every handler can return.\<close>

lemma unstuck_ends:
  assumes "session_reach s" "alive s" "\<not> stuck s" "\<And>h. \<exists>e. returns h e"
  shows "\<exists>s' r. (own_run returns)\<^sup>*\<^sup>* s s' \<and> s_main s' = Reported r"
proof -
  have "bounded s" using session_inv_reach [OF assms(1)] by (simp add: session_inv_def)
  then obtain t where t: "(own_run returns)\<^sup>*\<^sup>* s t" "at_rest t" using unblocks [OF assms(2) _ assms(3)] by blast
  obtain u e where u: "(own_run returns)\<^sup>*\<^sup>* t u" "s_worker u = Finished e" "at_rest u"
    using worker_ends [OF t(2), of returns] assms(4) by blast
  from finished_ends [OF u(2,3)] t(1) u(1) show ?thesis by (meson rtranclp_trans)
qed

lemma stuck_stays: "session_step\<^sup>*\<^sup>* s s' \<Longrightarrow> stuck s \<Longrightarrow> stuck s' \<and> s_main s' = s_main s"
  by (induction rule: rtranclp_induct) (auto simp: session_step_def dest: act_stuck)

text \<open>After its \<open>select\<close> the worker starts nothing.\<close>

lemma act_started_same:
  "session_act s s' \<Longrightarrow> s_worker s \<noteq> Selecting \<Longrightarrow> s_worker s' \<noteq> Selecting \<and> s_started s' = s_started s"
proof (induction rule: session_act.induct)
  case (request s r)
  then show ?case by (cases "(r, s)" rule: handle_request.cases) (simp_all add: session_op_defs)
next
  case (finish s h e se)
  then show ?case by (cases h) (simp_all add: finish_handler_def)
qed (simp_all add: session_op_defs)

section \<open>Exit statuses\<close>

definition status_of :: "gerror option \<Rightarrow> nat" where
  "status_of e = (if e = None then 0 else 1)"

text \<open>Nothing is reported before the worker is done, and the loop's result is the worker's.\<close>

definition result_inv :: "session \<Rightarrow> bool" where
  "result_inv s \<longleftrightarrow>
     ((\<forall>e. s_worker s \<noteq> Finished e) \<longrightarrow> s_status s = [] \<and> (\<forall>r. s_main s \<noteq> Returned r \<and> s_main s \<noteq> Reported r))"

lemma act_result_inv: "session_act s s' \<Longrightarrow> result_inv s \<Longrightarrow> result_inv s'"
proof (induction rule: session_act.induct)
  case (request s r)
  then show ?case by (cases "(r, s)" rule: handle_request.cases) (auto simp: result_inv_def session_op_defs)
next
  case (finish s h e se)
  then show ?case by (cases h) (simp_all add: result_inv_def finish_handler_def)
qed (auto simp: result_inv_def session_op_defs)

lemma result_inv_reach: "session_reach s \<Longrightarrow> result_inv s"
  by (erule session_reach_invariant) (simp add: result_inv_def NewSession_def, rule act_result_inv)

definition status_after :: "nat list \<Rightarrow> session \<Rightarrow> bool" where
  "status_after xs s \<longleftrightarrow>
     (\<exists>e. s_worker s = Finished e)
     \<and> s_status s = (case s_main s of Reported r \<Rightarrow> status_of r # xs | _ \<Rightarrow> xs)"

lemma act_status_after: "session_act s s' \<Longrightarrow> status_after xs s \<Longrightarrow> status_after xs s'"
proof (induction rule: session_act.induct)
  case (request s r)
  then show ?case by (cases "(r, s)" rule: handle_request.cases) (auto simp: status_after_def session_op_defs)
qed (auto simp: status_after_def session_op_defs status_of_def)

lemma steps_status_after: "session_step\<^sup>*\<^sup>* s s' \<Longrightarrow> status_after xs s \<Longrightarrow> status_after xs s'"
  by (induction rule: rtranclp_induct) (auto simp: session_step_def intro: act_status_after)

section \<open>Properties\<close>

text \<open>C17. A session runs at most one handler, and only one the client was granted: the shell and
  the SFTP subsystem are granted at most once each, a command that runs was granted as it is, and no
  more than two commands are ever granted. The two channels stay within their capacities.\<close>

theorem session_safe:
  assumes "session_reach s"
  shows "length (s_started s) \<le> 1
    \<and> (ShellRun \<in> set (s_started s) \<longrightarrow> granted (\<lambda>r. r = ReqShell) (s_replies s) = 1)
    \<and> (SftpRun \<in> set (s_started s) \<longrightarrow> granted sftp_request (s_replies s) = 1)
    \<and> (\<forall>c. ExecRun c \<in> set (s_started s) \<longrightarrow> c \<in> set (exec_granted (s_replies s)))
    \<and> granted (\<lambda>r. r = ReqShell) (s_replies s) \<le> 1 \<and> granted sftp_request (s_replies s) \<le> 1
    \<and> length (exec_granted (s_replies s)) \<le> 2
    \<and> length (s_exec s) \<le> exec_cap \<and> length (s_resize s) \<le> resize_cap \<and> list_all resize_ok (s_resize s)"
proof -
  note inv = session_inv_reach [OF assms, unfolded session_inv_def]
  then have "exec_granted (s_replies s) = rev (s_exec s) @ exec_runs (s_started s)"
    and "length (s_exec s) \<le> 1" "length (s_started s) \<le> 1"
    by (simp_all add: exec_queue_def bounded_def one_handler_def exec_cap_def)
  then have "length (exec_granted (s_replies s)) \<le> 2
      \<and> (\<forall>c. ExecRun c \<in> set (s_started s) \<longrightarrow> c \<in> set (exec_granted (s_replies s)))"
    using exec_runs_length [of "s_started s"] by (simp add: exec_runs_set)
  with inv show ?thesis by (auto simp: granted_once_def one_handler_def bounded_def)
qed

text \<open>A session that was asked for a shell and runs it.\<close>

definition shell_session :: session where
  "shell_session = start_handler ShellRun (receive_request ReqShell (NewSession 0))"

lemma shell_session_reach: "session_reach shell_session"
proof -
  have "session_reach (receive_request ReqShell (NewSession 0))"
    using session_act.request [of "NewSession 0" ReqShell]
    by (intro session_reach_act [OF session_reach_new [of 0]]) (simp_all add: alive_def NewSession_def)
  then show ?thesis
    unfolding shell_session_def
    using session_act.start_shell [of "receive_request ReqShell (NewSession 0)"]
    by (elim session_reach_act) (simp_all add: alive_def NewSession_def receive_request_def reply_def)
qed

theorem session_safe_witness:
  "length (s_started shell_session) \<le> 1 \<and> ShellRun \<in> set (s_started shell_session)
    \<and> granted (\<lambda>r. r = ReqShell) (s_replies shell_session) = 1"
proof -
  have "ShellRun \<in> set (s_started shell_session)" by (simp add: shell_session_def start_handler_def)
  with session_safe [OF shell_session_reach] show ?thesis by simp
qed

text \<open>C29. Requests are answered in order and once each: at any time the received requests are the
  answered ones, followed by at most one that the loop is busy with.\<close>

theorem session_answers:
  assumes "session_reach s"
  shows "s_received s = pending s @ map fst (s_replies s) \<and> length (pending s) \<le> 1"
  using session_inv_reach [OF assms]
  by (auto simp: session_inv_def answered_def pending_def split: main_phase.split)

theorem session_answers_witness: "s_received shell_session = map fst (s_replies shell_session)
    \<and> s_received shell_session = [ReqShell]"
  using session_answers [OF shell_session_reach]
  by (simp add: pending_def shell_session_def NewSession_def session_op_defs)

text \<open>A session can come to its end, with its status reported, exactly when it is not stuck: the handler may
  return, and without one the two seconds run out; but from a send nobody will receive there is no way on.\<close>

theorem session_ends_iff:
  assumes "session_reach s" "alive s"
  shows "(\<exists>s' r. session_step\<^sup>*\<^sup>* s s' \<and> s_main s' = Reported r) \<longleftrightarrow> \<not> stuck s"
proof
  assume "\<exists>s' r. session_step\<^sup>*\<^sup>* s s' \<and> s_main s' = Reported r"
  then show "\<not> stuck s" using stuck_stays by (fastforce simp: stuck_def)
next
  assume "\<not> stuck s"
  from unstuck_ends [OF assms this, of "\<lambda>_ _. True"] own_run_steps
  show "\<exists>s' r. session_step\<^sup>*\<^sup>* s s' \<and> s_main s' = Reported r" by blast
qed

theorem session_ends_iff_witness: "\<exists>s' r. session_step\<^sup>*\<^sup>* (NewSession 0) s' \<and> s_main s' = Reported r"
  using session_ends_iff [OF session_reach_new [of 0]] by (simp add: alive_def NewSession_def stuck_def)

text \<open>Dead end: when the channel of terminal sizes is full and nothing reads it or will, the loop stays in its send for good, whatever else happens, the cancellation of the
  connection among it. Nine window changes on a channel that runs no shell bring this about.\<close>

theorem session_stuck:
  assumes "stuck s" "session_step\<^sup>*\<^sup>* s s'"
  shows "s_main s' = s_main s \<and> (\<forall>r. s_main s' \<noteq> Returned r \<and> s_main s' \<noteq> Reported r)"
  using stuck_stays [OF assms(2,1)] by (auto simp: stuck_def)

definition plain_change :: session_request where
  "plain_change = ReqWindowChange (Some \<lparr>wc_Cols = 80, wc_Rows = 24, wc_WidthPixels = 0, wc_HeightPixels = 0\<rparr>)"

lemma receive_change:
  "s_worker (receive_request plain_change s) = s_worker s" "s_reader (receive_request plain_change s) = s_reader s"
  "s_ctx (receive_request plain_change s) = s_ctx s"
  "length (s_resize s) < resize_cap \<Longrightarrow> s_main (receive_request plain_change s) = InLoop
     \<and> length (s_resize (receive_request plain_change s)) = Suc (length (s_resize s))"
  "\<not> length (s_resize s) < resize_cap \<Longrightarrow>
     (\<exists>ev. s_main (receive_request plain_change s) = SendingResize ev plain_change)
     \<and> s_resize (receive_request plain_change s) = s_resize s"
  by (simp_all add: plain_change_def session_op_defs)

lemma changes_reach:
  assumes "session_reach s" "s_main s = InLoop" "length (s_resize s) + n \<le> resize_cap"
  shows "session_reach ((receive_request plain_change ^^ n) s)
    \<and> s_main ((receive_request plain_change ^^ n) s) = InLoop
    \<and> length (s_resize ((receive_request plain_change ^^ n) s)) = length (s_resize s) + n
    \<and> s_worker ((receive_request plain_change ^^ n) s) = s_worker s
    \<and> s_reader ((receive_request plain_change ^^ n) s) = s_reader s
    \<and> s_ctx ((receive_request plain_change ^^ n) s) = s_ctx s"
  using assms(3)
proof (induction n)
  case (Suc n)
  let ?t = "(receive_request plain_change ^^ n) s"
  from Suc have t: "session_reach ?t" "s_main ?t = InLoop" "length (s_resize ?t) = length (s_resize s) + n"
    "s_worker ?t = s_worker s" "s_reader ?t = s_reader s" "s_ctx ?t = s_ctx s" by simp_all
  have "session_reach (receive_request plain_change ?t)"
    by (rule session_reach_act [OF t(1) _ session_act.request [OF t(2)]]) (simp add: alive_def t)
  with t Suc.prems receive_change [of ?t] show ?case by simp
qed (simp add: assms)

theorem session_stuck_witness:
  "\<exists>s. session_reach s \<and> s_started s = [] \<and>
     (\<forall>s'. session_step\<^sup>*\<^sup>* s s' \<longrightarrow> (\<forall>r. s_main s' \<noteq> Returned r))"
proof -
  define s where "s = (receive_request plain_change ^^ 8) (NewSession 0)"
  have s: "session_reach s" "s_main s = InLoop" "length (s_resize s) = resize_cap" "s_worker s = Selecting"
    "\<not> s_reader s" "s_ctx s = None"
    using changes_reach [OF session_reach_new [of 0], of 8]
    by (simp_all add: s_def NewSession_def resize_cap_def)
  define t where "t = receive_request plain_change s"
  have t: "session_reach t" unfolding t_def
    by (rule session_reach_act [OF s(1) _ session_act.request [OF s(2)]]) (simp add: alive_def s)
  obtain ev where t_main: "s_main t = SendingResize ev plain_change"
    and t_fields: "length (s_resize t) = resize_cap" "s_worker t = Selecting" "s_ctx t = None" "\<not> s_reader t"
    using receive_change [of s] s by (auto simp: t_def)
  define u where "u = t\<lparr>s_ctx := Some (Dynamic ''cancelled'')\<rparr>"
  have u: "session_reach u" unfolding u_def
    by (rule session_reach_act [OF t _ session_act.cancel [OF t_fields(3)]]) (simp add: alive_def t_main)
  let ?v = "u\<lparr>s_worker := Finished (Some (Dynamic ''cancelled''))\<rparr>"
  have v: "session_reach ?v"
    by (intro session_reach_act [OF u] session_act.worker_cancelled) (simp_all add: alive_def u_def t_main t_fields)
  have "stuck ?v" by (simp add: stuck_def u_def t_main t_fields)
  moreover have "s_started ?v = []"
    using session_inv_reach [OF u] t_fields(2) by (simp add: session_inv_def one_handler_def u_def)
  ultimately show ?thesis using v session_stuck by blast
qed

text \<open>A second request for the SFTP subsystem on a channel closes the closed channel \<open>sftp\<close>: the
  process panics and nothing runs any more.\<close>

theorem second_sftp_crashes:
  assumes "s_main s = InLoop" "s_sftp s" "sftp_request r"
  shows "session_step s (receive_request r s) \<and> (\<forall>s'. \<not> session_step (receive_request r s) s')"
proof
  show "session_step s (receive_request r s)"
    using assms(1) by (simp add: session_step_def alive_def session_act.request)
  show "\<forall>s'. \<not> session_step (receive_request r s) s'"
    using assms by (cases r rule: sftp_request.cases) (auto simp: session_step_def alive_def receive_request_def)
qed

definition ask_sftp :: session_request where
  "ask_sftp = ReqSubsystem (Some \<lparr>SubsystemName = ''sftp''\<rparr>)"

theorem second_sftp_crashes_witness:
  "\<forall>s'. \<not> session_step (receive_request ask_sftp (receive_request ask_sftp (NewSession 0))) s'"
  by (rule second_sftp_crashes [THEN conjunct2])
     (simp_all add: ask_sftp_def session_op_defs NewSession_def sftp_name_def)

text \<open>After a command whose status was sent, the channel reports a second exit status when it
  ends: first the command's own, then the session's.\<close>

theorem exec_status_twice:
  assumes "session_reach s" "s_worker s = Running (ExecRun c)"
    and "session_step\<^sup>*\<^sup>* (finish_handler (ExecRun c) e None s) s'" "s_main s' = Reported r"
  shows "s_status s' = [status_of r, status_of e]"
proof -
  have "s_status s = []" "\<forall>r. s_main s \<noteq> Reported r"
    using result_inv_reach [OF assms(1)] assms(2) by (auto simp: result_inv_def)
  then have "status_after [status_of e] (finish_handler (ExecRun c) e None s)"
    by (cases "s_main s") (simp_all add: status_after_def finish_handler_def status_of_def)
  from steps_status_after [OF assms(3) this] assms(4) show ?thesis by (simp add: status_after_def)
qed

definition exec_session :: session where
  "exec_session = start_handler (ExecRun ''ls'')
     ((receive_request (ReqExec (Some \<lparr>Command = ''ls''\<rparr>)) (NewSession 0))\<lparr>s_exec := []\<rparr>)"

theorem exec_status_twice_witness:
  "\<exists>s' r. session_step\<^sup>*\<^sup>* (finish_handler (ExecRun ''ls'') None None exec_session) s' \<and>
     s_main s' = Reported r \<and> s_status s' = [status_of r, 0]"
proof -
  let ?s = "receive_request (ReqExec (Some \<lparr>Command = ''ls''\<rparr>)) (NewSession 0)"
  have "session_reach ?s"
    by (rule session_reach_act [OF session_reach_new _ session_act.request]) (simp_all add: NewSession_def alive_def)
  then have e: "session_reach exec_session" unfolding exec_session_def
    by (rule session_reach_act [OF _ _ session_act.start_exec [of _ "''ls''" "[]"]])
       (simp_all add: alive_def session_op_defs NewSession_def exec_cap_def)
  have w: "s_worker exec_session = Running (ExecRun ''ls'')" by (simp add: exec_session_def start_handler_def)
  have f: "s_worker (finish_handler (ExecRun ''ls'') None None exec_session) = Finished None"
    "at_rest (finish_handler (ExecRun ''ls'') None None exec_session)"
    by (simp_all add: finish_handler_def exec_session_def session_op_defs NewSession_def exec_cap_def at_rest_def)
  obtain s' r where s': "session_step\<^sup>*\<^sup>* (finish_handler (ExecRun ''ls'') None None exec_session) s'"
    "s_main s' = Reported r"
    using finished_ends [OF f, of "\<lambda>_ _. True"] own_run_steps by blast
  moreover have "status_of None = 0" by (simp add: status_of_def)
  ultimately show ?thesis using exec_status_twice [OF e w s'] by auto
qed

text \<open>Only the first command of a session runs: once the worker has left its \<open>select\<close>, no
  handler is started any more, though one more exec request is granted.\<close>

theorem second_exec_never_runs:
  assumes "s_worker s \<noteq> Selecting" "session_step\<^sup>*\<^sup>* (receive_request r s) s'"
  shows "s_started s' = s_started s"
proof -
  have "s_worker (receive_request r s) \<noteq> Selecting \<and> s_started (receive_request r s) = s_started s"
    using assms(1) by (cases "(r, s)" rule: handle_request.cases) (simp_all add: session_op_defs)
  then have "s_worker s' \<noteq> Selecting \<and> s_started s' = s_started s"
    by (rule steps_invariant [OF assms(2)])
      (auto simp: session_step_def dest: act_started_same)
  then show ?thesis by simp
qed

theorem second_exec_never_runs_witness:
  "(ReqExec (Some \<lparr>Command = ''id''\<rparr>), True) \<in>
      set (s_replies (receive_request (ReqExec (Some \<lparr>Command = ''id''\<rparr>)) exec_session))
    \<and> (\<forall>s'. session_step\<^sup>*\<^sup>* (receive_request (ReqExec (Some \<lparr>Command = ''id''\<rparr>)) exec_session) s' \<longrightarrow>
        s_started s' = [ExecRun ''ls''])"
  using second_exec_never_runs [of exec_session "ReqExec (Some \<lparr>Command = ''id''\<rparr>)"]
  by (auto simp: exec_session_def session_op_defs NewSession_def exec_cap_def)

end
