(* ===== verification/Connector.thy ===== *)
theory Connector
  imports Transition Requests Identity_Codec "HOL-Library.Multiset"
begin

text \<open>
  One client connection: \<open>ConnectorImpl.Handle\<close> and \<open>handleGlobalReqs\<close> of
  \<open>internal/sshd/connector.go\<close>.

  What happens up to the login is a function of what the SSH library answers. The channel loop is a
  state with the running goroutines (\<open>errgroup\<close> with a limit), the map of open tunnels and a record
  of what was done to each channel; channels are numbered as they arrive. The handling of a channel
  is a function; the answers of the library (a payload that decodes, \<open>Accept\<close>, \<open>OpenTunnel\<close>) are
  part of the channel given to it.

  This is the loop alone: when a goroutine ends, and with which error, is left open here, so that only
  what holds for every behaviour of the goroutines is shown of it. When they do end is the matter of
  theory \<open>Client_Conn\<close>, where the end of a goroutine is that of its session or of its call of \<open>Forward\<close>.
\<close>

section \<open>Login\<close>

definition ErrNotPermitted :: gerror where
  "ErrNotPermitted = Sentinel ''connection is not permitted''"

definition ErrGoroutinesExceeded :: gerror where
  "ErrGoroutinesExceeded = Sentinel ''goroutine count (per connection) exeeded for connection''"

record auth_counters =
  PodshFailedAuth :: nat
  PodshSuccessfulAuth :: nat

text \<open>The identity packed into the permissions by \<open>publicKeyCallback\<close>.\<close>

definition permissions_identity :: "extensions option \<Rightarrow> identity" where
  "permissions_identity perms =
     (case perms of
        None \<Rightarrow> no_identity
      | Some ext \<Rightarrow>
          let ident = (case map_of ext ''identity'' of None \<Rightarrow> no_identity | Some raw \<Rightarrow> decodeIdentity raw)
          in (case map_of ext ''requested-host'' of None \<Rightarrow> ident
              | Some raw \<Rightarrow> ident\<lparr>RequestedHostname := raw\<rparr>))"

text \<open>
  \<open>Handle\<close> up to the channel loop, from the answers of \<open>SetDeadline\<close> and \<open>NewServerConn\<close>. The
  errgroup is empty when \<open>handleGlobalReqs\<close> is started, so that start cannot fail.
\<close>

definition login ::
    "gerror option \<Rightarrow> gerror + extensions option \<Rightarrow> auth_counters \<Rightarrow> (gerror + identity) \<times> auth_counters" where
  "login deadline_err server_conn m =
     (case deadline_err of
        Some err \<Rightarrow> (Inl (Wrapped ''failed to set handshake deadline'' err), m)
      | None \<Rightarrow>
          (case server_conn of
             Inl err \<Rightarrow>
               (Inl (Joined [err, ErrNotPermitted]), m\<lparr>PodshFailedAuth := Suc (PodshFailedAuth m)\<rparr>)
           | Inr perms \<Rightarrow>
               let identity = permissions_identity perms
               in if UserID identity = [] then
                    (Inl ErrNotPermitted, m\<lparr>PodshFailedAuth := Suc (PodshFailedAuth m)\<rparr>)
                  else if RequestedHostname identity = [] then
                    (Inl ErrNotPermitted, m\<lparr>PodshFailedAuth := Suc (PodshFailedAuth m)\<rparr>)
                  else (Inr identity, m\<lparr>PodshSuccessfulAuth := Suc (PodshSuccessfulAuth m)\<rparr>)))"

section \<open>Global requests\<close>

datatype global_event = GlobalDone gerror | GlobalRequest string | GlobalClosed

text \<open>The answers given, and the result once the loop is left (\<open>None\<close> while it waits).\<close>

fun handleGlobalReqs :: "global_event list \<Rightarrow> (string \<times> bool) list \<times> gerror option option" where
  "handleGlobalReqs [] = ([], None)"
| "handleGlobalReqs (GlobalDone err # es) = ([], Some (Some err))"
| "handleGlobalReqs (GlobalClosed # es) = ([], Some None)"
| "handleGlobalReqs (GlobalRequest t # es) =
     (let (replies, r) = handleGlobalReqs es in ((t, t = ''keepalive@openssh.com'') # replies, r))"

section \<open>The channel loop\<close>

type_synonym forwarder = nat

datatype task = GlobalTask | SessionTask nat | ForwardTask nat string forwarder

datatype phase = Serving | Closing "string list" | Draining | Over "gerror option" | Panicked

record conn_state =
  k_tasks :: "task list"
  k_err :: "gerror option"
  k_forwarded :: "(string \<times> forwarder option) list"
  k_phase :: phase
  k_next :: nat
  k_accepted :: "nat list"
  k_rejected :: "(nat \<times> string) list"
  k_failed :: "nat list"
  k_closed :: "nat list"
  k_status :: "(nat \<times> nat) list"
  k_opened :: "(string \<times> DirectTCPIP \<times> forwarder option) list"
  k_fwclosed :: "string list"

definition perConnGoroutineCap :: nat where
  "perConnGoroutineCap = 10"

definition conn_start :: conn_state where
  "conn_start =
     \<lparr>k_tasks = [GlobalTask], k_err = None, k_forwarded = [], k_phase = Serving, k_next = 0,
      k_accepted = [], k_rejected = [], k_failed = [], k_closed = [], k_status = [], k_opened = [],
      k_fwclosed = []\<rparr>"

text \<open>A channel the client opens, with the answers of the library and of the handler.\<close>

datatype new_channel =
    SessionChannel bool
  | DirectChannel "DirectTCPIP option" "gerror + forwarder option" bool
  | OtherChannel string

definition direct_key :: "DirectTCPIP \<Rightarrow> string" where
  "direct_key fwRq = DestAddr fwRq @ '':'' @ nat_str (unat (DestPort fwRq))"

definition reject_ch :: "string \<Rightarrow> conn_state \<Rightarrow> conn_state" where
  "reject_ch why s = s\<lparr>k_rejected := (k_next s, why) # k_rejected s, k_next := Suc (k_next s)\<rparr>"

definition accept_failed :: "conn_state \<Rightarrow> conn_state" where
  "accept_failed s = s\<lparr>k_failed := k_next s # k_failed s, k_next := Suc (k_next s)\<rparr>"

text \<open>
  After \<open>Accept\<close>: \<open>TryGo\<close> starts the goroutine unless as many run as the limit allows; then the
  channel is told status 1 and closed.
\<close>

definition accept_run :: "(nat \<Rightarrow> task) \<Rightarrow> conn_state \<Rightarrow> conn_state" where
  "accept_run mk s =
     (let c = k_next s; s' = s\<lparr>k_accepted := c # k_accepted s, k_next := Suc c\<rparr>
      in if length (k_tasks s) < perConnGoroutineCap then s'\<lparr>k_tasks := mk c # k_tasks s\<rparr>
         else s'\<lparr>k_status := (c, 1) # k_status s, k_closed := c # k_closed s\<rparr>)"

definition handle_session :: "bool \<Rightarrow> conn_state \<Rightarrow> conn_state" where
  "handle_session accepted s = (if accepted then accept_run SessionTask s else accept_failed s)"

text \<open>The last part of the forwarding case, once the tunnel is known.\<close>

definition run_forward :: "string \<Rightarrow> forwarder option \<Rightarrow> bool \<Rightarrow> conn_state \<Rightarrow> conn_state" where
  "run_forward key fw accepted s =
     (case fw of
        None \<Rightarrow> reject_ch ''idk'' s
      | Some f \<Rightarrow>
          if accepted then accept_run (\<lambda>c. ForwardTask c key f) s else accept_failed s)"

definition handle_direct ::
    "DirectTCPIP option \<Rightarrow> gerror + forwarder option \<Rightarrow> bool \<Rightarrow> conn_state \<Rightarrow> conn_state" where
  "handle_direct payload open_tunnel accepted s =
     (case payload of
        None \<Rightarrow> reject_ch ''Bad Request'' s
      | Some fwRq \<Rightarrow>
          let key = direct_key fwRq
          in (case map_of (k_forwarded s) key of
                Some fw \<Rightarrow> run_forward key fw accepted s
              | None \<Rightarrow>
                  (case open_tunnel of
                     Inl err \<Rightarrow> reject_ch (error_text err) s
                   | Inr fm \<Rightarrow>
                       run_forward key fm accepted
                         (s\<lparr>k_forwarded := (key, fm) # k_forwarded s,
                            k_opened := (key, fwRq, fm) # k_opened s\<rparr>))))"

definition handle_channel :: "new_channel \<Rightarrow> conn_state \<Rightarrow> conn_state" where
  "handle_channel ch s =
     (case ch of
        SessionChannel accepted \<Rightarrow> handle_session accepted s
      | DirectChannel payload open_tunnel accepted \<Rightarrow> handle_direct payload open_tunnel accepted s
      | OtherChannel t \<Rightarrow> reject_ch ''Unsupported SSH channel'' s)"

text \<open>The end of a goroutine: the errgroup keeps the first error; a channel gets its status and is closed.\<close>

definition task_channel :: "task \<Rightarrow> nat option" where
  "task_channel t = (case t of GlobalTask \<Rightarrow> None | SessionTask c \<Rightarrow> Some c | ForwardTask c _ _ \<Rightarrow> Some c)"

definition task_end :: "task \<Rightarrow> gerror option \<Rightarrow> conn_state \<Rightarrow> conn_state" where
  "task_end t e s =
     (let s' = s\<lparr>k_tasks := remove1 t (k_tasks s), k_err := (if k_err s = None then e else k_err s)\<rparr>
      in case task_channel t of
           None \<Rightarrow> s'
         | Some c \<Rightarrow> s'\<lparr>k_status := (c, if e = None then 0 else 1) # k_status s, k_closed := c # k_closed s\<rparr>)"

text \<open>
  After the loop the tunnels of the map are closed one by one, in any order; \<open>Close\<close> on a nil interface
  panics. Then \<open>Handle\<close> waits for the goroutines.
\<close>

definition leave_loop :: "conn_state \<Rightarrow> conn_state" where
  "leave_loop s = s\<lparr>k_phase := Closing (map fst (k_forwarded s))\<rparr>"

definition close_tunnel :: "string list \<Rightarrow> string \<Rightarrow> conn_state \<Rightarrow> conn_state" where
  "close_tunnel keys key s =
     (case map_of (k_forwarded s) key of
        Some (Some f) \<Rightarrow> s\<lparr>k_fwclosed := key # k_fwclosed s, k_phase := Closing (remove1 key keys)\<rparr>
      | _ \<Rightarrow> s\<lparr>k_phase := Panicked\<rparr>)"

inductive conn_step :: "conn_state \<Rightarrow> conn_state \<Rightarrow> bool" where
  channel: "k_phase s = Serving \<Longrightarrow> conn_step s (handle_channel ch s)"
| leave: "k_phase s = Serving \<Longrightarrow> conn_step s (leave_loop s)"
| close: "k_phase s = Closing keys \<Longrightarrow> key \<in> set keys \<Longrightarrow> conn_step s (close_tunnel keys key s)"
| drain: "k_phase s = Closing [] \<Longrightarrow> conn_step s (s\<lparr>k_phase := Draining\<rparr>)"
| task: "k_phase s \<noteq> Panicked \<Longrightarrow> t \<in> set (k_tasks s) \<Longrightarrow> conn_step s (task_end t e s)"
| wait: "k_phase s = Draining \<Longrightarrow> k_tasks s = [] \<Longrightarrow> conn_step s (s\<lparr>k_phase := Over (k_err s)\<rparr>)"

definition conn_reach :: "conn_state \<Rightarrow> bool" where
  "conn_reach = reach (\<lambda>s. s = conn_start) conn_step"

lemma conn_reach_invariant:
  assumes "conn_reach s" "I conn_start" "\<And>s s'. I s \<Longrightarrow> conn_step s s' \<Longrightarrow> I s'"
  shows "I s"
  using assms(1) unfolding conn_reach_def
  by (induction rule: reach_invariant) (auto intro: assms(2,3))

lemmas conn_op_defs =
  handle_channel_def handle_session_def handle_direct_def run_forward_def accept_run_def accept_failed_def
  reject_ch_def leave_loop_def Let_def

section \<open>Invariants\<close>

definition task_channels :: "task list \<Rightarrow> nat list" where
  "task_channels ts = List.map_filter task_channel ts"

lemma task_channels_simps [simp]:
  "task_channels [] = []"
  "task_channels (t # ts) = (case task_channel t of None \<Rightarrow> task_channels ts | Some c \<Rightarrow> c # task_channels ts)"
  by (simp_all add: task_channels_def map_filter_simps split: option.split)

lemma task_channels_remove1:
  "t \<in> set ts \<Longrightarrow> mset (task_channels ts) =
     (case task_channel t of None \<Rightarrow> {#} | Some c \<Rightarrow> {#c#}) + mset (task_channels (remove1 t ts))"
  by (induction ts) (auto split: option.split)

text \<open>The numbers of the channels so far.\<close>

definition numbers :: "nat \<Rightarrow> nat multiset" where
  "numbers n = mset [0..<n]"

lemma numbers_simps [simp]: "numbers 0 = {#}" "numbers (Suc n) = add_mset n (numbers n)"
  by (simp_all add: numbers_def flip: mset_upt)

text \<open>Every channel is accepted, rejected or failed; what was accepted runs or is closed.\<close>

definition channels_ok :: "conn_state \<Rightarrow> bool" where
  "channels_ok s \<longleftrightarrow>
     length (k_tasks s) \<le> perConnGoroutineCap
     \<and> numbers (k_next s) = mset (k_accepted s) + mset (map fst (k_rejected s)) + mset (k_failed s)
     \<and> mset (k_accepted s) = mset (task_channels (k_tasks s)) + mset (k_closed s)
     \<and> map fst (k_status s) = k_closed s"

lemma accept_run_ok:
  "channels_ok s \<Longrightarrow> (\<And>c. task_channel (mk c) = Some c) \<Longrightarrow> channels_ok (accept_run mk s)"
  by (simp add: channels_ok_def accept_run_def Let_def)

lemma reject_ok: "channels_ok s \<Longrightarrow> channels_ok (reject_ch why s)"
  by (simp add: channels_ok_def reject_ch_def)

lemma failed_ok: "channels_ok s \<Longrightarrow> channels_ok (accept_failed s)"
  by (simp add: channels_ok_def accept_failed_def)

lemma run_forward_ok: "channels_ok s \<Longrightarrow> channels_ok (run_forward key fw accepted s)"
  by (auto simp: run_forward_def task_channel_def split: option.split intro!: accept_run_ok reject_ok failed_ok)

lemma handle_channel_ok: "channels_ok s \<Longrightarrow> channels_ok (handle_channel ch s)"
proof (cases ch)
  case (DirectChannel payload ot acc)
  assume s: "channels_ok s"
  then have "channels_ok (s\<lparr>k_forwarded := fs, k_opened := os\<rparr>)" for fs os by (simp add: channels_ok_def)
  with s show ?thesis
    by (auto simp: DirectChannel handle_channel_def handle_direct_def Let_def split: option.split sum.split
        intro!: reject_ok run_forward_ok)
qed (auto simp: handle_channel_def handle_session_def task_channel_def intro!: accept_run_ok reject_ok failed_ok)

lemma step_channels_ok: "conn_step s s' \<Longrightarrow> channels_ok s \<Longrightarrow> channels_ok s'"
proof (induction rule: conn_step.induct)
  case (channel s ch)
  then show ?case by (simp add: handle_channel_ok)
next
  case (leave s)
  then show ?case by (simp add: channels_ok_def leave_loop_def)
next
  case (close s keys key)
  then show ?case by (simp add: channels_ok_def close_tunnel_def split: option.split)
next
  case (drain s)
  then show ?case by (simp add: channels_ok_def)
next
  case (task s t e)
  then show ?case
    using task_channels_remove1 [OF task.hyps(2)]
    by (cases "task_channel t") (auto simp: channels_ok_def task_end_def length_remove1 Let_def)
next
  case (wait s)
  then show ?case by (simp add: channels_ok_def)
qed

text \<open>The tunnels: one per destination, opened for it, in use only by channels to it.\<close>

definition tunnels_ok :: "conn_state \<Rightarrow> bool" where
  "tunnels_ok s \<longleftrightarrow>
     distinct (map fst (k_forwarded s))
     \<and> map (\<lambda>(k, r, f). (k, f)) (k_opened s) = k_forwarded s
     \<and> (\<forall>(k, r, f) \<in> set (k_opened s). k = direct_key r)
     \<and> (\<forall>c k f. ForwardTask c k f \<in> set (k_tasks s) \<longrightarrow> (k, Some f) \<in> set (k_forwarded s))
     \<and> (case k_phase s of Serving \<Rightarrow> k_fwclosed s = []
        | Closing keys \<Rightarrow> mset (k_fwclosed s) + mset keys = mset (map fst (k_forwarded s))
        | Draining \<Rightarrow> mset (k_fwclosed s) = mset (map fst (k_forwarded s))
        | Over e \<Rightarrow> mset (k_fwclosed s) = mset (map fst (k_forwarded s)) \<and> k_tasks s = []
        | Panicked \<Rightarrow> \<exists>k. (k, None) \<in> set (k_forwarded s))"

lemma run_forward_tunnels:
  assumes "tunnels_ok s" "(key, fw) \<in> set (k_forwarded s)" "k_phase s = Serving"
  shows "tunnels_ok (run_forward key fw accepted s)"
  using assms
  by (cases fw) (auto simp: tunnels_ok_def conn_op_defs)

lemma step_tunnels_ok: "conn_step s s' \<Longrightarrow> tunnels_ok s \<Longrightarrow> tunnels_ok s'"
proof (induction rule: conn_step.induct)
  case (channel s ch)
  show ?case
  proof (cases ch)
    case (SessionChannel accepted)
    with channel show ?thesis by (auto simp: tunnels_ok_def conn_op_defs)
  next
    case (OtherChannel t)
    with channel show ?thesis by (auto simp: tunnels_ok_def conn_op_defs)
  next
    case (DirectChannel payload ot accepted)
    have rej: "tunnels_ok (reject_ch why s)" for why using channel by (simp add: tunnels_ok_def reject_ch_def)
    show ?thesis
    proof (cases payload)
      case None
      with rej show ?thesis by (simp add: DirectChannel handle_channel_def handle_direct_def)
    next
      case (Some q)
      show ?thesis
      proof (cases "map_of (k_forwarded s) (direct_key q)")
        case None
        have add: "tunnels_ok (s\<lparr>k_forwarded := (direct_key q, fm) # k_forwarded s,
            k_opened := (direct_key q, q, fm) # k_opened s\<rparr>)" for fm
          using channel None by (auto simp: tunnels_ok_def map_of_eq_None_iff)
        show ?thesis
        proof (cases ot)
          case (Inl err)
          with rej Some None show ?thesis
            by (simp add: DirectChannel handle_channel_def handle_direct_def Let_def)
        next
          case (Inr fm)
          with run_forward_tunnels [OF add] channel.hyps Some None show ?thesis
            by (simp add: DirectChannel handle_channel_def handle_direct_def Let_def)
        qed
      next
        case (Some fw)
        with run_forward_tunnels [OF channel(2) map_of_SomeD [OF Some] channel(1)] \<open>payload = Some q\<close> show ?thesis
          by (simp add: DirectChannel handle_channel_def handle_direct_def Let_def)
      qed
    qed
  qed
next
  case (leave s)
  then show ?case by (simp add: tunnels_ok_def leave_loop_def)
next
  case (close s keys key)
  then have m: "mset (k_fwclosed s) + mset keys = mset (map fst (k_forwarded s))" by (simp add: tunnels_ok_def)
  from close(2) have k: "mset keys = add_mset key (mset (remove1 key keys))" by simp
  have "key \<in> set (map fst (k_forwarded s))"
    using arg_cong [OF m, of set_mset] close(2) by auto
  then obtain fw where fw: "map_of (k_forwarded s) key = Some fw" "(key, fw) \<in> set (k_forwarded s)"
    using map_of_SomeD weak_map_of_SomeI by fastforce
  show ?case
  proof (cases fw)
    case None
    with close fw show ?thesis by (auto simp: tunnels_ok_def close_tunnel_def)
  next
    case (Some f)
    have "mset (key # k_fwclosed s) + mset (remove1 key keys) = mset (map fst (k_forwarded s))"
      using m unfolding k by simp
    with close Some fw show ?thesis by (simp add: tunnels_ok_def close_tunnel_def)
  qed
next
  case (drain s)
  then show ?case by (simp add: tunnels_ok_def)
next
  case (task s t e)
  then have "set (remove1 t (k_tasks s)) \<subseteq> set (k_tasks s)" by (simp add: set_remove1_subset)
  with task show ?case
    by (cases "k_phase s"; cases "task_channel t") (auto simp: tunnels_ok_def task_end_def Let_def)
next
  case (wait s)
  then show ?case by (simp add: tunnels_ok_def)
qed

lemma conn_start_ok: "channels_ok conn_start" "tunnels_ok conn_start"
  by (simp_all add: channels_ok_def tunnels_ok_def conn_start_def perConnGoroutineCap_def task_channel_def)

lemma conn_reach_ok:
  assumes "conn_reach s"
  shows "channels_ok s" "tunnels_ok s"
  using assms by (auto intro: conn_reach_invariant conn_start_ok step_channels_ok step_tunnels_ok)

text \<open>A key stands for one destination: the port has digits only.\<close>

lemma direct_key_inj:
  assumes "direct_key q = direct_key r"
  shows "DestAddr q = DestAddr r \<and> DestPort q = DestPort r"
proof -
  have colon: "CHR '':'' \<notin> set (nat_str n)" for n using nat_digits_chars [of "CHR '':''" n] by auto
  have split: "takeWhile (\<lambda>c. c \<noteq> CHR '':'') (rev (direct_key x)) = rev (nat_str (unat (DestPort x)))"
    "dropWhile (\<lambda>c. c \<noteq> CHR '':'') (rev (direct_key x)) = CHR '':'' # rev (DestAddr x)" for x :: DirectTCPIP
    using colon [of "unat (DestPort x)"]
    by (auto simp: direct_key_def takeWhile_append dropWhile_append takeWhile_eq_all_conv)
  from assms split [of q] split [of r] have "rev (nat_str (unat (DestPort q))) = rev (nat_str (unat (DestPort r)))"
    "rev (DestAddr q) = rev (DestAddr r)" by auto
  then have "unat (DestPort q) = unat (DestPort r)" "DestAddr q = DestAddr r"
    using nat_str_inj by (auto simp: rev_is_rev_conv)
  then show ?thesis by (simp add: word_unat_eq_iff)
qed

lemma tasks_end:
  "k_phase s \<noteq> Panicked \<Longrightarrow>
     \<exists>s'. conn_step\<^sup>*\<^sup>* s s' \<and> k_tasks s' = [] \<and> k_phase s' = k_phase s"
proof (induction "length (k_tasks s)" arbitrary: s)
  case 0
  then show ?case by (intro exI [of _ s]) simp
next
  case (Suc n)
  then obtain t ts where ts: "k_tasks s = t # ts" by (cases "k_tasks s") auto
  let ?s = "task_end t None s"
  have step: "conn_step s ?s" using Suc.prems by (intro conn_step.task) (simp_all add: ts)
  have "length (k_tasks ?s) = n" "k_phase ?s = k_phase s"
    using Suc.hyps(2) by (cases "task_channel t"; simp add: task_end_def Let_def ts)+
  with Suc.hyps(1) [of ?s] Suc.prems obtain s' where
    "conn_step\<^sup>*\<^sup>* ?s s'" "k_tasks s' = []" "k_phase s' = k_phase s" by auto
  with step show ?case by (meson converse_rtranclp_into_rtranclp)
qed

lemma tunnels_close:
  "k_phase s = Closing keys \<Longrightarrow> set keys \<subseteq> fst ` set (k_forwarded s) \<Longrightarrow> (\<And>k. (k, None) \<notin> set (k_forwarded s)) \<Longrightarrow>
     \<exists>s'. conn_step\<^sup>*\<^sup>* s s' \<and> k_phase s' = Draining"
proof (induction keys arbitrary: s)
  case Nil
  then show ?case using conn_step.drain [of s] by (intro exI [of _ "s\<lparr>k_phase := Draining\<rparr>"]) auto
next
  case (Cons key keys)
  from Cons.prems(2) have "key \<in> fst ` set (k_forwarded s)" by simp
  then obtain fw where fw: "map_of (k_forwarded s) key = Some fw" by (auto dest: weak_map_of_SomeI)
  from map_of_SomeD [OF fw] Cons.prems(3) [of key] obtain f where f: "fw = Some f" by (cases fw) auto
  let ?s = "close_tunnel (key # keys) key s"
  have "k_phase ?s = Closing keys" "k_forwarded ?s = k_forwarded s" using fw f by (simp_all add: close_tunnel_def)
  with Cons.IH [of ?s] Cons.prems(2,3) obtain s' where "conn_step\<^sup>*\<^sup>* ?s s'" "k_phase s' = Draining" by auto
  with conn_step.close [OF Cons.prems(1), of key] show ?case by (meson converse_rtranclp_into_rtranclp list.set_intros(1))
qed

text \<open>What a forwarding goroutine is piped into, and what is left when all goroutines have returned.\<close>

lemma task_tunnel:
  assumes "conn_reach s" "ForwardTask c (direct_key q) f \<in> set (k_tasks s)"
  shows "\<exists>r. (direct_key q, r, Some f) \<in> set (k_opened s) \<and> DestAddr r = DestAddr q \<and> DestPort r = DestPort q"
proof -
  note ok = conn_reach_ok(2) [OF assms(1), unfolded tunnels_ok_def]
  then have "(direct_key q, Some f) \<in> set (map (\<lambda>(k, r, f). (k, f)) (k_opened s))" using assms(2) by auto
  then obtain r where "(direct_key q, r, Some f) \<in> set (k_opened s)" by auto
  moreover from this ok have "direct_key r = direct_key q" by fastforce
  ultimately show ?thesis using direct_key_inj by blast
qed

lemma all_closed: "conn_reach s \<Longrightarrow> k_tasks s = [] \<Longrightarrow> mset (k_closed s) = mset (k_accepted s)"
  using conn_reach_ok(1) [of s] by (simp add: channels_ok_def)

section \<open>Properties\<close>

lemma login_accepted:
  assumes "publicKeyCallback (Some authenticate) user addr key = Ret (Inr perms)"
    and "authenticate \<lparr>cm_Deployment = user, cm_RemoteAddr = addr\<rparr> key = Inr (Some ident)"
    and "metadata_ok (Metadata ident)"
  shows "login None (Inr (Some perms)) m =
    (if UserID ident \<noteq> [] \<and> user \<noteq> []
     then (Inr ((identity_valid ident)\<lparr>RequestedHostname := user\<rparr>), m\<lparr>PodshSuccessfulAuth := Suc (PodshSuccessfulAuth m)\<rparr>)
     else (Inl ErrNotPermitted, m\<lparr>PodshFailedAuth := Suc (PodshFailedAuth m)\<rparr>))"
proof -
  have "perms = [(''identity'', encodeIdentity (Some ident)), (''requested-host'', user)]"
    using assms(1,2) by (simp add: publicKeyCallback_def)
  then have "permissions_identity (Some perms) = (identity_valid ident)\<lparr>RequestedHostname := user\<rparr>"
    by (simp add: permissions_identity_def decode_encode [OF assms(3)])
  then show ?thesis by (simp add: login_def Let_def identity_valid_def)
qed

text \<open>C22. Login: a connection is served exactly when the key was accepted for an identity with a user
  id and the client named a host, and it is served as that identity, bound to the host it named: the
  identity survives its trip through the permissions, its strings made valid UTF-8. Exactly one of the two
  counters moves, once.\<close>

theorem login_identity:
  assumes "publicKeyCallback (Some authenticate) user addr key = Ret (Inr perms)"
    and "authenticate \<lparr>cm_Deployment = user, cm_RemoteAddr = addr\<rparr> key = Inr (Some ident)"
    and "metadata_ok (Metadata ident)"
  shows "login None (Inr (Some perms)) m =
    (if UserID ident \<noteq> [] \<and> user \<noteq> []
     then (Inr ((identity_valid ident)\<lparr>RequestedHostname := user\<rparr>), m\<lparr>PodshSuccessfulAuth := Suc (PodshSuccessfulAuth m)\<rparr>)
     else (Inl ErrNotPermitted, m\<lparr>PodshFailedAuth := Suc (PodshFailedAuth m)\<rparr>))"
  using assms by (rule login_accepted)

definition ann_identity :: identity where
  "ann_identity = no_identity\<lparr>UserID := ''ann-id'', Metadata := [(''a'', ''1''), (''b'', ''<2>'')]\<rparr>"

theorem login_identity_witness:
  "\<exists>perms. publicKeyCallback (Some (map_Authenticate [[7] \<mapsto> ann_identity])) ''web'' ''10.0.0.1:5'' [7] = Ret (Inr perms)
    \<and> fst (login None (Inr (Some perms)) \<lparr>PodshFailedAuth = 0, PodshSuccessfulAuth = 0\<rparr>)
      = Inr (ann_identity\<lparr>RemoteAddr := ''10.0.0.1:5'', RequestedHostname := ''web''\<rparr>)"
proof -
  let ?auth = "map_Authenticate [[7] \<mapsto> ann_identity]"
  have a: "?auth \<lparr>cm_Deployment = ''web'', cm_RemoteAddr = ''10.0.0.1:5''\<rparr> [7]
      = Inr (Some (ann_identity\<lparr>RemoteAddr := ''10.0.0.1:5''\<rparr>))" by (simp add: map_Authenticate_def)
  then obtain perms where p: "publicKeyCallback (Some ?auth) ''web'' ''10.0.0.1:5'' [7] = Ret (Inr perms)"
    by (simp add: publicKeyCallback_def)
  from login_identity [OF p a] p show ?thesis
    by (simp add: ann_identity_def map_sorted_def metadata_ok_def identity_valid_def no_identity_def)
qed

text \<open>C18. Channels: at most ten goroutines run for a connection; each channel is accepted, rejected or
  fails to be accepted, exactly once; an accepted channel runs or is closed, once, and it is closed
  with a status. When the connection is over, every accepted channel has been closed.\<close>

theorem conn_channels:
  assumes "conn_reach s"
  shows "length (k_tasks s) \<le> 10
    \<and> mset [0..<k_next s] = mset (k_accepted s) + mset (map fst (k_rejected s)) + mset (k_failed s)
    \<and> mset (k_accepted s) = mset (task_channels (k_tasks s)) + mset (k_closed s)
    \<and> map fst (k_status s) = k_closed s
    \<and> (\<forall>e. k_phase s = Over e \<longrightarrow> mset (k_closed s) = mset (k_accepted s))"
proof -
  have "k_phase s = Over e \<Longrightarrow> k_tasks s = []" for e
    using conn_reach_ok(2) [OF assms] by (simp add: tunnels_ok_def)
  with conn_reach_ok(1) [OF assms] show ?thesis
    by (auto simp: channels_ok_def perConnGoroutineCap_def numbers_def simp del: mset_upt)
qed

lemma conn_reach_start: "conn_reach conn_start"
  by (simp add: conn_reach_def reach_init)

theorem conn_channels_witness: "length (k_tasks (handle_channel (SessionChannel True) conn_start)) \<le> 10"
proof -
  have "conn_reach (handle_channel (SessionChannel True) conn_start)"
    using conn_reach_start conn_step.channel [of conn_start "SessionChannel True"]
    by (auto simp: conn_reach_def conn_start_def intro: reach_step)
  from conn_channels [OF this] show ?thesis by simp
qed

text \<open>C19. Tunnels: no destination is opened twice; a channel is piped into a tunnel that was opened
  for the very address and port it asked for; and once the loop is left every tunnel that was opened
  has been closed, once.\<close>

theorem conn_tunnels:
  assumes "conn_reach s"
  shows "distinct (map fst (k_opened s))
    \<and> (\<forall>c q f. ForwardTask c (direct_key q) f \<in> set (k_tasks s) \<longrightarrow>
        (\<exists>r. (direct_key q, r, Some f) \<in> set (k_opened s) \<and> DestAddr r = DestAddr q \<and> DestPort r = DestPort q))
    \<and> (k_phase s = Draining \<or> (\<exists>e. k_phase s = Over e) \<longrightarrow> mset (k_fwclosed s) = mset (map fst (k_opened s)))"
proof -
  note ok = conn_reach_ok(2) [OF assms, unfolded tunnels_ok_def]
  then have fwd: "k_forwarded s = map (\<lambda>(k, r, f). (k, f)) (k_opened s)" by simp
  have fst: "map fst (k_opened s) = map fst (k_forwarded s)"
    unfolding fwd by (simp add: case_prod_unfold)
  with ok fst task_tunnel [OF assms] show ?thesis by auto
qed

definition web_request :: DirectTCPIP where
  "web_request = \<lparr>DestAddr = ''localhost'', DestPort = 8080, OriginAddr = ''127.0.0.1'', OriginPort = 4\<rparr>"

theorem conn_tunnels_witness:
  "\<exists>s. conn_reach s \<and> ForwardTask 0 (direct_key web_request) 3 \<in> set (k_tasks s)
     \<and> distinct (map fst (k_opened s))"
proof -
  let ?s = "handle_channel (DirectChannel (Some web_request) (Inr (Some 3)) True) conn_start"
  have "conn_reach ?s"
    using conn_reach_start conn_step.channel [of conn_start]
    by (auto simp: conn_reach_def conn_start_def intro: reach_step)
  moreover have "ForwardTask 0 (direct_key web_request) 3 \<in> set (k_tasks ?s)"
    by (simp add: conn_op_defs conn_start_def perConnGoroutineCap_def)
  ultimately show ?thesis using conn_tunnels by blast
qed

lemma handle_channel_phase [simp]: "k_phase (handle_channel ch s) = k_phase s"
  by (auto simp: conn_op_defs split: new_channel.split option.split sum.split)

text \<open>A connection is over with the first error of its goroutines, and none of them is left.\<close>

lemma over_result:
  assumes "conn_reach s"
  shows "k_phase s = Over e \<Longrightarrow> e = k_err s \<and> k_tasks s = []"
proof -
  have "\<forall>e. k_phase s = Over e \<longrightarrow> e = k_err s \<and> k_tasks s = []"
    using assms
  proof (rule conn_reach_invariant)
    fix s s' assume I: "\<forall>e. k_phase s = Over e \<longrightarrow> e = k_err s \<and> k_tasks s = []" and "conn_step s s'"
    from this(2) show "\<forall>e. k_phase s' = Over e \<longrightarrow> e = k_err s' \<and> k_tasks s' = []"
    proof cases
      case (task t e)
      with I have "\<forall>e. k_phase s \<noteq> Over e" by auto
      with task show ?thesis by (auto simp: task_end_def Let_def split: option.split)
    qed (auto simp: leave_loop_def close_tunnel_def split: option.splits)
  qed (simp add: conn_start_def)
  then show "k_phase s = Over e \<Longrightarrow> e = k_err s \<and> k_tasks s = []" by blast
qed

text \<open>How many steps a connection that has left its loop can still make.\<close>

definition steps_left :: "conn_state \<Rightarrow> nat" where
  "steps_left s =
     length (k_tasks s) + (case k_phase s of Closing keys \<Rightarrow> length keys + 2 | Draining \<Rightarrow> 1 | _ \<Rightarrow> 0)"

lemma step_left:
  "conn_step s s' \<Longrightarrow> k_phase s \<noteq> Serving \<Longrightarrow> k_phase s' \<noteq> Serving \<and> steps_left s' < steps_left s"
proof (induction rule: conn_step.induct)
  case (close s keys key)
  then have "length (remove1 key keys) < length keys" by (metis length_remove1 length_pos_if_in_set diff_less zero_less_one)
  with close show ?case by (auto simp: steps_left_def close_tunnel_def split: option.split)
next
  case (task s t e)
  then have "length (remove1 t (k_tasks s)) < length (k_tasks s)"
    by (metis length_remove1 length_pos_if_in_set diff_less zero_less_one)
  with task show ?case by (auto simp: steps_left_def task_end_def Let_def split: option.split phase.split)
qed (simp_all add: steps_left_def)

text \<open>Nothing new is begun after the loop.\<close>

lemma step_begins_nothing:
  "conn_step s s' \<Longrightarrow> k_phase s \<noteq> Serving \<Longrightarrow> k_forwarded s' = k_forwarded s \<and> k_next s' = k_next s
     \<and> k_accepted s' = k_accepted s \<and> k_opened s' = k_opened s \<and> set (k_tasks s') \<subseteq> set (k_tasks s)"
  by (induction rule: conn_step.induct)
     (auto simp: close_tunnel_def task_end_def Let_def dest: set_remove1_subset [THEN subsetD] split: option.split)

lemma steps_left_bound:
  assumes "conn_reach s"
  shows "steps_left s \<le> length (k_forwarded s) + 12"
proof -
  have t: "length (k_tasks s) \<le> 10"
    using conn_reach_ok(1) [OF assms(1)] by (simp add: channels_ok_def perConnGoroutineCap_def)
  have "length keys \<le> length (k_forwarded s)" if "k_phase s = Closing keys" for keys
  proof -
    have "mset (k_fwclosed s) + mset keys = mset (map fst (k_forwarded s))"
      using conn_reach_ok(2) [OF assms(1)] that by (simp add: tunnels_ok_def)
    from arg_cong [OF this, of size] show ?thesis by simp
  qed
  with t show ?thesis by (auto simp: steps_left_def split: phase.split)
qed

end
