(* ===== verification/K8s_Resolver.thy ===== *)
theory K8s_Resolver
  imports Identity_Codec
begin

text \<open>
  \<open>internal/k8s/k8s.go\<close>, \<open>errors.go\<close> and \<open>label_resolver.go\<close>: which pod a client is taken to.

  The Kubernetes API is not part of the repository. Listing pods is a parameter, a function of the
  namespace and the label selector; the locale \<open>pod_lister\<close> states what the resolver relies on, the
  documented meaning of a selector: its requirements are joined by "and". Nothing is assumed of a selector
  into which a client has put a host name that is no label value, but that the first requirement holds,
  which is the one on the owner. \<open>ref_list\<close> is a small list of pods with this behaviour, on which the
  theorems are instantiated.
\<close>

record pod =
  pod_Name :: string
  pod_Namespace :: string
  pod_Labels :: "(string \<times> string) list"
  pod_Phase :: string
  pod_Conditions :: "(string \<times> string) list"
  pod_Containers :: "string list"

record target =
  t_Pod :: string
  t_Namespace :: string
  t_Container :: string
  t_Command :: "string list"

type_synonym pod_list = "string \<Rightarrow> string \<Rightarrow> gerror + pod list"

definition ErrBadRequest :: gerror where
  "ErrBadRequest = Sentinel ''bad request''"

definition ErrBadResolveRequest :: gerror where
  "ErrBadResolveRequest =
     Joined [ErrBadRequest, Dynamic ''invalid resolve request, missing required input'']"

definition label_selector :: "identity \<Rightarrow> string" where
  "label_selector identity =
     ''owner-id='' @ UserID identity @ '',app.kubernetes.io/deploy-name='' @ RequestedHostname identity"

definition pod_ready :: "pod \<Rightarrow> bool" where
  "pod_ready p \<longleftrightarrow> list_ex (\<lambda>(t, s). t = ''Ready'' \<and> s = ''True'') (pod_Conditions p)"

text \<open>The loop over the listed pods. A pod without containers panics.\<close>

fun pick_pod :: "identity \<Rightarrow> pod list \<Rightarrow> (gerror + target option) go" where
  "pick_pod identity [] =
     Ret (Inl (Dynamic (''user '' @ User identity @ '' cannot access pod '' @ RequestedHostname identity)))"
| "pick_pod identity (pod # pods) =
     (if pod_Phase pod \<noteq> ''Running'' then pick_pod identity pods
      else if \<not> pod_ready pod then pick_pod identity pods
      else
        (case pod_Containers pod of
           [] \<Rightarrow> Panic ''index out of range''
         | containerName # _ \<Rightarrow>
             Ret (Inr (Some \<lparr>t_Pod = pod_Name pod, t_Namespace = pod_Namespace pod,
                             t_Container = containerName, t_Command = [''/bin/sh'']\<rparr>))))"

definition label_Resolve :: "pod_list \<Rightarrow> string \<Rightarrow> identity \<Rightarrow> (gerror + target option) go" where
  "label_Resolve list_pods namespace identity =
     (if RequestedHostname identity = [] \<or> UserID identity = [] then Ret (Inl ErrBadResolveRequest)
      else
        (case list_pods namespace (label_selector identity) of
           Inl err \<Rightarrow> Ret (Inl err)
         | Inr pods \<Rightarrow> pick_pod identity pods))"

section \<open>What listing pods promises\<close>

text \<open>
  The documented syntax of label values: up to 63 letters, digits, dashes, underscores and dots, the first
  and the last a letter or a digit, or nothing; a key may have a prefix before a slash.
\<close>

definition alnum :: "char \<Rightarrow> bool" where
  "alnum c \<longleftrightarrow> byte_in 0x30 0x39 c \<or> byte_in 0x41 0x5A c \<or> byte_in 0x61 0x7A c"

definition label_char :: "char \<Rightarrow> bool" where
  "label_char c \<longleftrightarrow> alnum c \<or> c \<in> set ''-_.''"

definition label_value :: "string \<Rightarrow> bool" where
  "label_value s \<longleftrightarrow>
     length s \<le> 63 \<and> list_all label_char s \<and> (s \<noteq> [] \<longrightarrow> alnum (hd s) \<and> alnum (last s))"

definition label_key :: "string \<Rightarrow> bool" where
  "label_key s \<longleftrightarrow> s \<noteq> [] \<and> list_all (\<lambda>c. label_char c \<or> c = CHR ''/'') s"

definition has_label :: "pod \<Rightarrow> string \<Rightarrow> string \<Rightarrow> bool" where
  "has_label p k v \<longleftrightarrow> map_of (pod_Labels p) k = Some v"

definition requirement :: "string \<Rightarrow> string \<Rightarrow> string" where
  "requirement k v = k @ ''='' @ v"

text \<open>
  The pods listed are among those of the cluster and of the namespace; whatever follows the comma after a
  requirement of a key and a value, the requirement holds; and so does such a requirement after it that
  ends the selector.
\<close>

locale pod_lister =
  fixes cluster_pods :: "pod set"
    and list_pods :: pod_list
  assumes in_cluster: "list_pods ns sel = Inr pods \<Longrightarrow> set pods \<subseteq> cluster_pods"
    and in_namespace: "list_pods ns sel = Inr pods \<Longrightarrow> p \<in> set pods \<Longrightarrow> pod_Namespace p = ns"
    and first_requirement: "label_key k \<Longrightarrow> label_value v \<Longrightarrow> list_pods ns (requirement k v @ '','' @ rest) = Inr pods \<Longrightarrow>
           p \<in> set pods \<Longrightarrow> has_label p k v"
    and second_requirement: "label_key k \<Longrightarrow> label_value v \<Longrightarrow> label_key k' \<Longrightarrow> label_value v' \<Longrightarrow>
           list_pods ns (requirement k v @ '','' @ requirement k' v') = Inr pods \<Longrightarrow>
           p \<in> set pods \<Longrightarrow> has_label p k' v'"

lemma pick_pod_found:
  assumes "pick_pod identity pods = Ret (Inr (Some t))"
  obtains p where "p \<in> set pods" "pod_Phase p = ''Running''" "pod_ready p" "t_Pod t = pod_Name p"
    "t_Namespace t = pod_Namespace p" "t_Container t = hd (pod_Containers p)" "pod_Containers p \<noteq> []"
    "t_Command t = [''/bin/sh'']"
proof -
  have "\<exists>p \<in> set pods. pod_Phase p = ''Running'' \<and> pod_ready p \<and> t_Pod t = pod_Name p
    \<and> t_Namespace t = pod_Namespace p \<and> t_Container t = hd (pod_Containers p) \<and> pod_Containers p \<noteq> []
    \<and> t_Command t = [''/bin/sh'']"
    using assms by (induction identity pods rule: pick_pod.induct) (auto split: if_splits list.splits)
  with that show thesis by blast
qed

lemma pick_pod_not_nil: "pick_pod identity pods \<noteq> Ret (Inr None)"
  by (induction identity pods rule: pick_pod.induct) (auto split: list.split)

lemma label_keys: "label_key ''owner-id''" "label_key ''app.kubernetes.io/deploy-name''"
  by (simp_all add: label_key_def label_char_def alnum_def)

text \<open>Label values are ASCII, so JSON carries them as they are.\<close>

lemma label_value_valid: "label_value s \<Longrightarrow> to_valid s = s"
  by (rule to_valid_all_ascii) (auto simp: label_value_def label_char_def alnum_def byte_in_def list_all_iff)

lemma label_selector_first:
  "label_selector identity =
     requirement ''owner-id'' (UserID identity) @ '','' @
     requirement ''app.kubernetes.io/deploy-name'' (RequestedHostname identity)"
  by (simp add: label_selector_def requirement_def)

text \<open>
  A client's own pods: those of the cluster in the namespace that run and are ready, carry the client's
  user id as owner and, when the host name is a label value, were deployed under that name.
\<close>

definition own_pod :: "pod set \<Rightarrow> string \<Rightarrow> identity \<Rightarrow> string \<Rightarrow> string \<Rightarrow> bool" where
  "own_pod cluster_pods ns identity namespace name \<longleftrightarrow>
     (\<exists>p \<in> cluster_pods. namespace = ns \<and> name = pod_Name p \<and> pod_Namespace p = ns
        \<and> pod_Phase p = ''Running'' \<and> pod_ready p \<and> has_label p ''owner-id'' (UserID identity)
        \<and> (label_value (RequestedHostname identity) \<longrightarrow>
             has_label p ''app.kubernetes.io/deploy-name'' (RequestedHostname identity)))"

text \<open>The pods a target may stand for.\<close>

definition target_of :: "target \<Rightarrow> pod \<Rightarrow> bool" where
  "target_of t p \<longleftrightarrow> t_Pod t = pod_Name p \<and> t_Namespace t = pod_Namespace p \<and>
     pod_Containers p \<noteq> [] \<and> t_Container t = hd (pod_Containers p)"

context pod_lister
begin

lemma resolved_pod:
  assumes "label_Resolve list_pods ns identity = Ret (Inr (Some t))" "label_value (UserID identity)"
  obtains p where "p \<in> cluster_pods" "target_of t p" "pod_Namespace p = ns" "pod_Phase p = ''Running''" "pod_ready p"
    "has_label p ''owner-id'' (UserID identity)"
    "label_value (RequestedHostname identity) \<Longrightarrow>
       has_label p ''app.kubernetes.io/deploy-name'' (RequestedHostname identity)"
    "t_Command t = [''/bin/sh'']"
proof -
  from assms(1) obtain pods where l: "list_pods ns (label_selector identity) = Inr pods"
    and pick: "pick_pod identity pods = Ret (Inr (Some t))"
    by (auto simp: label_Resolve_def split: if_splits sum.splits)
  from pick obtain p where p: "p \<in> set pods" "pod_Phase p = ''Running''" "pod_ready p" "t_Pod t = pod_Name p"
    "t_Namespace t = pod_Namespace p" "t_Container t = hd (pod_Containers p)" "pod_Containers p \<noteq> []"
    "t_Command t = [''/bin/sh'']"
    by (rule pick_pod_found)
  show thesis
  proof (rule that [of p])
    show "has_label p ''owner-id'' (UserID identity)"
      using first_requirement [OF label_keys(1) assms(2) l [unfolded label_selector_first] p(1)] .
    show "has_label p ''app.kubernetes.io/deploy-name'' (RequestedHostname identity)"
      if "label_value (RequestedHostname identity)"
      using second_requirement [OF label_keys(1) assms(2) label_keys(2) that l [unfolded label_selector_first] p(1)] .
    show "pod_Namespace p = ns" using in_namespace [OF l p(1)] .
    show "p \<in> cluster_pods" using in_cluster [OF l] p(1) by blast
  qed (use p in \<open>simp_all add: target_of_def\<close>)
qed

lemma resolved_own_pod:
  assumes "label_Resolve list_pods ns identity = Ret (Inr (Some t))" "label_value (UserID identity)"
  shows "own_pod cluster_pods ns identity (t_Namespace t) (t_Pod t)"
  by (rule resolved_pod [OF assms]) (auto simp: own_pod_def target_of_def)

end

section \<open>A reference cluster\<close>

text \<open>Selectors of requirements joined by commas; anything else is an error.\<close>

definition term_holds :: "pod \<Rightarrow> string \<Rightarrow> bool" where
  "term_holds p s \<longleftrightarrow>
     (let k = takeWhile (\<lambda>c. c \<noteq> CHR ''='') s; v = tl (dropWhile (\<lambda>c. c \<noteq> CHR ''='') s)
      in has_label p k v)"

definition ref_list :: "pod list \<Rightarrow> pod_list" where
  "ref_list cluster ns sel =
     Inr (filter (\<lambda>p. pod_Namespace p = ns \<and> list_all (term_holds p) (str_split CHR '','' sel)) cluster)"

lemma str_split_prefix:
  "CHR '','' \<notin> set s \<Longrightarrow> str_split CHR '','' (s @ CHR '','' # t) = s # str_split CHR '','' t"
  by (induction s) auto

lemma str_split_whole: "c \<notin> set s \<Longrightarrow> str_split c s = [s]"
  by (induction s) auto

lemma key_chars: "label_key s \<Longrightarrow> CHR '','' \<notin> set s \<and> CHR ''='' \<notin> set s"
  by (auto simp: label_key_def label_char_def alnum_def list_all_iff)

lemma value_chars: "label_value s \<Longrightarrow> CHR '','' \<notin> set s"
  by (auto simp: label_value_def label_char_def alnum_def list_all_iff)

lemma term_holds_requirement: "label_key k \<Longrightarrow> term_holds p (requirement k v) \<longleftrightarrow> has_label p k v"
proof -
  assume "label_key k"
  then have "\<forall>c \<in> set k. c \<noteq> CHR ''=''" using key_chars by fastforce
  then have "takeWhile (\<lambda>c. c \<noteq> CHR ''='') (k @ CHR ''='' # v) = k"
    "dropWhile (\<lambda>c. c \<noteq> CHR ''='') (k @ CHR ''='' # v) = CHR ''='' # v"
    by (simp_all add: takeWhile_append dropWhile_append)
  then show ?thesis by (simp add: term_holds_def requirement_def)
qed

lemma requirement_chars: "label_key k \<Longrightarrow> label_value v \<Longrightarrow> CHR '','' \<notin> set (requirement k v)"
  using key_chars value_chars by (auto simp: requirement_def)

interpretation ref_cluster: pod_lister "set cluster" "ref_list cluster" for cluster
proof unfold_locales
  fix ns sel pods
  assume "ref_list cluster ns sel = Inr pods"
  then show "set pods \<subseteq> set cluster" by (auto simp: ref_list_def)
next
  fix ns sel pods p
  assume "ref_list cluster ns sel = Inr pods" "p \<in> set pods"
  then show "pod_Namespace p = ns" by (auto simp: ref_list_def)
next
  fix k v ns rest pods p
  assume "label_key k" "label_value v" "ref_list cluster ns (requirement k v @ '','' @ rest) = Inr pods" "p \<in> set pods"
  then show "has_label p k v"
    by (auto simp: ref_list_def str_split_prefix requirement_chars term_holds_requirement)
next
  fix k v k' v' ns pods p
  assume "label_key k" "label_value v" "label_key k'" "label_value v'"
    "ref_list cluster ns (requirement k v @ '','' @ requirement k' v') = Inr pods" "p \<in> set pods"
  then show "has_label p k' v'"
    by (auto simp: ref_list_def str_split_prefix requirement_chars term_holds_requirement str_split_whole)
qed

section \<open>Properties\<close>

text \<open>C16. Isolation: the resolver takes a client only to a running, ready pod of the cluster, in its
  namespace, that carries the client's user id as owner, whatever host name the client asked for, and to
  the first container of that pod. The pod was deployed under the host name when that is a label value; of
  other host names, which the code puts into the selector as they are, nothing is promised.\<close>

theorem resolve_isolation:
  assumes "pod_lister cluster_pods list_pods" "label_value (UserID identity)"
    and "label_Resolve list_pods ns identity = Ret (Inr (Some t))"
  shows "\<exists>p \<in> cluster_pods. target_of t p \<and> pod_Namespace p = ns \<and> pod_Phase p = ''Running'' \<and> pod_ready p
    \<and> has_label p ''owner-id'' (UserID identity)
    \<and> (label_value (RequestedHostname identity) \<longrightarrow>
        has_label p ''app.kubernetes.io/deploy-name'' (RequestedHostname identity))"
  using pod_lister.resolved_pod [OF assms(1,3,2)] by metis

definition web_pod :: pod where
  "web_pod = \<lparr>pod_Name = ''web-1'', pod_Namespace = ''apps'',
     pod_Labels = [(''owner-id'', ''ann-id''), (''app.kubernetes.io/deploy-name'', ''web'')],
     pod_Phase = ''Running'', pod_Conditions = [(''Initialized'', ''True''), (''Ready'', ''True'')],
     pod_Containers = [''main'', ''sidecar'']\<rparr>"

definition ann_web :: identity where
  "ann_web = no_identity\<lparr>UserID := ''ann-id'', RequestedHostname := ''web''\<rparr>"

lemma ann_resolves:
  "label_Resolve (ref_list [web_pod]) ''apps'' ann_web =
     Ret (Inr (Some \<lparr>t_Pod = ''web-1'', t_Namespace = ''apps'', t_Container = ''main'', t_Command = [''/bin/sh'']\<rparr>))"
  by code_simp

theorem resolve_isolation_witness:
  "\<exists>p \<in> set [web_pod]. target_of \<lparr>t_Pod = ''web-1'', t_Namespace = ''apps'', t_Container = ''main'', t_Command = [''/bin/sh'']\<rparr> p
     \<and> has_label p ''owner-id'' ''ann-id''"
  using resolve_isolation [OF ref_cluster.pod_lister_axioms _ ann_resolves]
  by (auto simp: ann_web_def no_identity_def label_value_def label_char_def alnum_def)

lemma pick_pod_find:
  assumes "\<forall>p \<in> set pods. pod_Containers p \<noteq> []"
  shows "pick_pod identity pods = Ret
    (case find (\<lambda>p. pod_Phase p = ''Running'' \<and> pod_ready p) pods of
       None \<Rightarrow> Inl (Dynamic (''user '' @ User identity @ '' cannot access pod '' @ RequestedHostname identity))
     | Some p \<Rightarrow> Inr (Some \<lparr>t_Pod = pod_Name p, t_Namespace = pod_Namespace p,
                             t_Container = hd (pod_Containers p), t_Command = [''/bin/sh'']\<rparr>))"
  using assms by (induction identity pods rule: pick_pod.induct) (auto split: list.split)

lemma resolves_to:
  assumes "RequestedHostname identity \<noteq> []" "UserID identity \<noteq> []"
    and "list_pods ns (label_selector identity) = Inr pods" "\<forall>p \<in> set pods. pod_Containers p \<noteq> []"
    and "find (\<lambda>p. pod_Phase p = ''Running'' \<and> pod_ready p) pods = Some p"
  shows "label_Resolve list_pods ns identity = Ret (Inr (Some
    \<lparr>t_Pod = pod_Name p, t_Namespace = pod_Namespace p, t_Container = hd (pod_Containers p),
     t_Command = [''/bin/sh'']\<rparr>))"
  using assms(1-3,5) pick_pod_find [OF assms(4)] by (simp add: label_Resolve_def)

text \<open>The first pod listed that is running and ready is taken, with its first container and a
  shell; without one the client is told that it cannot access the pod, with the user's name. The only
  panic is a pod without containers.\<close>

theorem resolve_first:
  assumes "RequestedHostname identity \<noteq> []" "UserID identity \<noteq> []"
    and "list_pods ns (label_selector identity) = Inr pods"
    and "\<forall>p \<in> set pods. pod_Containers p \<noteq> []"
  shows "label_Resolve list_pods ns identity = Ret
    (case find (\<lambda>p. pod_Phase p = ''Running'' \<and> pod_ready p) pods of
       None \<Rightarrow> Inl (Dynamic (''user '' @ User identity @ '' cannot access pod '' @ RequestedHostname identity))
     | Some p \<Rightarrow> Inr (Some \<lparr>t_Pod = pod_Name p, t_Namespace = pod_Namespace p,
                             t_Container = hd (pod_Containers p), t_Command = [''/bin/sh'']\<rparr>))"
  using assms(1-3) pick_pod_find [OF assms(4)] by (simp add: label_Resolve_def)

theorem resolve_first_witness:
  "label_Resolve (ref_list [web_pod]) ''apps'' (ann_web\<lparr>UserID := ''bob-id''\<rparr>)
    = Ret (Inl (Dynamic ''user  cannot access pod web''))"
proof -
  have "ref_list [web_pod] ''apps'' (label_selector (ann_web\<lparr>UserID := ''bob-id''\<rparr>)) = Inr []" by code_simp
  with resolve_first [of "ann_web\<lparr>UserID := ''bob-id''\<rparr>" "ref_list [web_pod]" "''apps''" "[]"]
  show ?thesis by (simp add: ann_web_def no_identity_def)
qed

end
