(* ===== verification/Forward_Manager.thy ===== *)
theory Forward_Manager
  imports Transition
begin

text \<open>
  \<open>internal/k8s/forward_manager.go\<close>: the port forwards of one tunnel over one SPDY connection to a
  pod. The state has the pod and the port, the closed flag, the request counter (64 bits), the keys of
  \<open>activeStreams\<close>, the calls of \<open>Forward\<close> by number and the headers of the streams asked of the
  connection. The two gauges are of the process and shared by all tunnels, so an operation that moves
  them takes them with the manager. Creating a stream is the business of the connection: it may fail
  at each of its two calls. A call that pipes ends with whatever its \<open>select\<close> takes first (an error or
  \<open>None\<close>); when the context is done its streams may be closed before it looks.
\<close>

record tunnel_gauges =
  ActiveTunnelForwards :: int
  ActiveTunnelStreams :: int

datatype call =
    Entered
  | Numbered "64 word"
  | Piping "64 word"
  | Torn "64 word"
  | CallDone "gerror option"

text \<open>The three headers of a stream (their names are brought to a canonical form by \<open>http.Header\<close>).\<close>

record stream_headers =
  StreamType :: string
  Port :: string
  PortForwardRequestID :: string

record forward_manager =
  fm_namespace :: string
  fm_pod :: string
  fm_port :: int
  fm_closed :: bool
  fm_reqID :: "64 word"
  fm_active :: "string list"
  fm_conn_open :: bool
  fm_ctx :: "gerror option"
  fm_calls :: "call list"
  fm_requested :: "stream_headers list"

type_synonym tunnel = "tunnel_gauges \<times> forward_manager"

text \<open>
  \<open>NewForwardManager\<close>, from the transport and the dialling of the pod's \<open>portforward\<close> resource.
\<close>

definition NewForwardManager ::
    "gerror option \<Rightarrow> (string \<Rightarrow> string \<Rightarrow> gerror option) \<Rightarrow> gerror option \<Rightarrow> string \<Rightarrow> string \<Rightarrow> int \<Rightarrow>
     tunnel_gauges \<Rightarrow> (gerror + forward_manager) \<times> tunnel_gauges" where
  "NewForwardManager transport_err dial ctx namespace pod port g =
     (case transport_err of
        Some err \<Rightarrow> (Inl (Wrapped ''spdy roundtripper'' err), g)
      | None \<Rightarrow>
          (case dial namespace pod of
             Some err \<Rightarrow> (Inl (Wrapped ''spdy dial'' err), g)
           | None \<Rightarrow>
               (Inr \<lparr>fm_namespace = namespace, fm_pod = pod, fm_port = port, fm_closed = False, fm_reqID = 0,
                     fm_active = [], fm_conn_open = True, fm_ctx = ctx, fm_calls = [], fm_requested = []\<rparr>,
                g\<lparr>ActiveTunnelForwards := ActiveTunnelForwards g + 1\<rparr>)))"

definition request_id :: "64 word \<Rightarrow> string" where
  "request_id n = nat_str (unat n)"

definition error_key :: "64 word \<Rightarrow> string" where
  "error_key n = request_id n @ ''-error''"

definition data_key :: "64 word \<Rightarrow> string" where
  "data_key n = request_id n @ ''-data''"

definition headers :: "string \<Rightarrow> int \<Rightarrow> 64 word \<Rightarrow> stream_headers" where
  "headers t port n = \<lparr>StreamType = t, Port = int_str port, PortForwardRequestID = request_id n\<rparr>"

text \<open>\<open>Forward\<close> up to its first unlock.\<close>

definition forward_enter :: "forward_manager \<Rightarrow> forward_manager" where
  "forward_enter fm =
     (if fm_closed fm
      then fm\<lparr>fm_calls := fm_calls fm @ [CallDone (Some (Dynamic ''forward manager is closed''))]\<rparr>
      else fm\<lparr>fm_calls := fm_calls fm @ [Entered]\<rparr>)"

text \<open>The atomic increment of the counter, outside the lock; it wraps around at 64 bits.\<close>

definition forward_number :: "nat \<Rightarrow> forward_manager \<Rightarrow> forward_manager" where
  "forward_number i fm =
     (let n = fm_reqID fm + 1 in fm\<lparr>fm_reqID := n, fm_calls := (fm_calls fm)[i := Numbered n]\<rparr>)"

text \<open>The section that creates the two streams under the lock, with the answers of the connection.\<close>

definition forward_create :: "nat \<Rightarrow> 64 word \<Rightarrow> gerror option \<Rightarrow> gerror option \<Rightarrow> tunnel \<Rightarrow> tunnel" where
  "forward_create i n error_stream data_stream = (\<lambda>(g, fm).
     let fm1 = fm\<lparr>fm_requested := headers ''error'' (fm_port fm) n # fm_requested fm\<rparr>
     in case error_stream of
          Some err \<Rightarrow>
            (g, fm1\<lparr>fm_calls := (fm_calls fm)[i := CallDone (Some (Wrapped ''create error stream'' err))]\<rparr>)
        | None \<Rightarrow>
            (let fm2 = fm1\<lparr>fm_active := error_key n # fm_active fm,
                           fm_requested := headers ''data'' (fm_port fm) n # fm_requested fm1\<rparr>
             in case data_stream of
                  Some err \<Rightarrow>
                    (g, fm2\<lparr>fm_active := filter (\<lambda>k. k \<noteq> error_key n) (fm_active fm2),
                            fm_calls := (fm_calls fm)[i := CallDone (Some (Wrapped ''create data stream'' err))]\<rparr>)
                | None \<Rightarrow>
                    (g\<lparr>ActiveTunnelStreams := ActiveTunnelStreams g + 1\<rparr>,
                     fm2\<lparr>fm_active := data_key n # fm_active fm2, fm_calls := (fm_calls fm)[i := Piping n]\<rparr>)))"

text \<open>\<open>closeAll\<close>, which runs once per call.\<close>

definition close_all :: "64 word \<Rightarrow> tunnel \<Rightarrow> tunnel" where
  "close_all n = (\<lambda>(g, fm).
     (g\<lparr>ActiveTunnelStreams := ActiveTunnelStreams g - 1\<rparr>,
      fm\<lparr>fm_active := filter (\<lambda>k. k \<noteq> data_key n \<and> k \<noteq> error_key n) (fm_active fm)\<rparr>))"

definition set_call :: "nat \<Rightarrow> call \<Rightarrow> tunnel \<Rightarrow> tunnel" where
  "set_call i c = (\<lambda>(g, fm). (g, fm\<lparr>fm_calls := (fm_calls fm)[i := c]\<rparr>))"

definition forward_finish :: "nat \<Rightarrow> 64 word \<Rightarrow> gerror option \<Rightarrow> tunnel \<Rightarrow> tunnel" where
  "forward_finish i n r t = set_call i (CallDone r) (close_all n t)"

text \<open>\<open>Close\<close>: the body runs once.\<close>

definition fm_Close :: "tunnel \<Rightarrow> tunnel" where
  "fm_Close = (\<lambda>(g, fm).
     if fm_closed fm then (g, fm)
     else (g\<lparr>ActiveTunnelForwards := ActiveTunnelForwards g - 1\<rparr>,
           fm\<lparr>fm_closed := True, fm_active := [], fm_conn_open := False\<rparr>))"

text \<open>What the calls of a manager do, one at a time.\<close>

inductive fm_call :: "tunnel \<Rightarrow> tunnel \<Rightarrow> bool" where
  number: "i < length (fm_calls fm) \<Longrightarrow> fm_calls fm ! i = Entered \<Longrightarrow> fm_call (g, fm) (g, forward_number i fm)"
| create: "i < length (fm_calls fm) \<Longrightarrow> fm_calls fm ! i = Numbered n \<Longrightarrow>
     fm_call (g, fm) (forward_create i n error_stream data_stream (g, fm))"
| finish: "i < length (fm_calls fm) \<Longrightarrow> fm_calls fm ! i = Piping n \<Longrightarrow>
     fm_call (g, fm) (forward_finish i n r (g, fm))"
| tear: "i < length (fm_calls fm) \<Longrightarrow> fm_calls fm ! i = Piping n \<Longrightarrow> fm_ctx fm = Some e \<Longrightarrow>
     fm_call (g, fm) (set_call i (Torn n) (close_all n (g, fm)))"
| torn: "i < length (fm_calls fm) \<Longrightarrow> fm_calls fm ! i = Torn n \<Longrightarrow>
     fm_call (g, fm) (set_call i (CallDone r) (g, fm))"

inductive fm_step :: "tunnel \<Rightarrow> tunnel \<Rightarrow> bool" where
  enter: "fm_step (g, fm) (g, forward_enter fm)"
| call: "fm_call t t' \<Longrightarrow> fm_step t t'"
| close: "fm_step t (fm_Close t)"
| cancel: "fm_ctx fm = None \<Longrightarrow> fm_step (g, fm) (g, fm\<lparr>fm_ctx := Some e\<rparr>)"

text \<open>The other tunnels of the process move the gauges too.\<close>

definition fm_init :: "tunnel_gauges \<Rightarrow> tunnel \<Rightarrow> bool" where
  "fm_init g0 = (\<lambda>(g, fm). \<exists>ns pod port ctx. NewForwardManager None (\<lambda>_ _. None) ctx ns pod port g0 = (Inr fm, g))"

definition fm_reach :: "tunnel_gauges \<Rightarrow> tunnel \<Rightarrow> bool" where
  "fm_reach g0 = reach (fm_init g0) fm_step"

lemmas fm_op_defs =
  forward_enter_def forward_number_def forward_create_def forward_finish_def set_call_def close_all_def fm_Close_def
  Let_def

section \<open>Calls and their streams\<close>

text \<open>The request numbers of the calls that have one, and of the calls that pipe.\<close>

definition numbered_of :: "call \<Rightarrow> 64 word list" where
  "numbered_of c = (case c of Numbered n \<Rightarrow> [n] | _ \<Rightarrow> [])"

definition piping_of :: "call \<Rightarrow> 64 word list" where
  "piping_of c = (case c of Piping n \<Rightarrow> [n] | _ \<Rightarrow> [])"

definition in_flight_of :: "call \<Rightarrow> 64 word list" where
  "in_flight_of c = numbered_of c @ piping_of c"

definition numbered :: "call list \<Rightarrow> 64 word list" where
  "numbered cs = concat (map numbered_of cs)"

definition piping :: "call list \<Rightarrow> 64 word list" where
  "piping cs = concat (map piping_of cs)"

definition in_flight :: "call list \<Rightarrow> 64 word list" where
  "in_flight cs = concat (map in_flight_of cs)"

lemma call_of_simps [simp]:
  "numbered_of Entered = []" "numbered_of (Numbered n) = [n]" "numbered_of (Piping n) = []"
  "numbered_of (Torn n) = []" "numbered_of (CallDone r) = []"
  "piping_of Entered = []" "piping_of (Numbered n) = []" "piping_of (Piping n) = [n]"
  "piping_of (Torn n) = []" "piping_of (CallDone r) = []"
  "in_flight_of Entered = []" "in_flight_of (Numbered n) = [n]" "in_flight_of (Piping n) = [n]"
  "in_flight_of (Torn n) = []" "in_flight_of (CallDone r) = []"
  by (simp_all add: numbered_of_def piping_of_def in_flight_of_def)

lemma calls_simps [simp]:
  "numbered [] = []" "numbered (c # cs) = numbered_of c @ numbered cs" "numbered (cs @ ds) = numbered cs @ numbered ds"
  "piping [] = []" "piping (c # cs) = piping_of c @ piping cs" "piping (cs @ ds) = piping cs @ piping ds"
  "in_flight [] = []" "in_flight (c # cs) = in_flight_of c @ in_flight cs" "in_flight (cs @ ds) = in_flight cs @ in_flight ds"
  by (simp_all add: numbered_def piping_def in_flight_def)

lemma in_flight_set: "set (in_flight cs) = set (numbered cs) \<union> set (piping cs)"
  by (induction cs) (auto simp: in_flight_of_def)

text \<open>How many calls have taken their number or been refused.\<close>

definition past_number :: "call list \<Rightarrow> nat" where
  "past_number cs = length (concat (map (\<lambda>c. if c = Entered then [] else [()]) cs))"

lemma past_number_le: "past_number cs \<le> length cs"
  unfolding past_number_def by (induction cs) auto

definition call_keys :: "64 word list \<Rightarrow> string set" where
  "call_keys ns = error_key ` set ns \<union> data_key ` set ns"

lemma request_id_inj [simp]: "request_id m = request_id n \<longleftrightarrow> m = n"
  using nat_str_inj by (auto simp: request_id_def word_unat_eq_iff)

lemma key_inj [simp]:
  "error_key m = error_key n \<longleftrightarrow> m = n" "data_key m = data_key n \<longleftrightarrow> m = n"
  "error_key m \<noteq> data_key n" "data_key m \<noteq> error_key n"
proof -
  show "error_key m = error_key n \<longleftrightarrow> m = n" "data_key m = data_key n \<longleftrightarrow> m = n"
    by (auto simp: error_key_def data_key_def)
  have "last (error_key m) \<noteq> last (data_key n)" by (simp add: error_key_def data_key_def)
  then show "error_key m \<noteq> data_key n" by metis
  have "last (data_key m) \<noteq> last (error_key n)" by (simp add: error_key_def data_key_def)
  then show "data_key m \<noteq> error_key n" by metis
qed

lemma call_keys_simps [simp]:
  "call_keys [] = {}" "call_keys (n # ns) = {error_key n, data_key n} \<union> call_keys ns"
  "call_keys (ns @ ms) = call_keys ns \<union> call_keys ms"
  by (auto simp: call_keys_def)

lemma call_keys_mem [simp]:
  "error_key n \<in> call_keys ns \<longleftrightarrow> n \<in> set ns" "data_key n \<in> call_keys ns \<longleftrightarrow> n \<in> set ns"
  by (auto simp: call_keys_def)

text \<open>While fewer than \<open>2 ^ 64\<close> calls have come, every call has a number of its own.\<close>

definition numbers_ok :: "forward_manager \<Rightarrow> bool" where
  "numbers_ok fm \<longleftrightarrow>
     unat (fm_reqID fm) \<le> past_number (fm_calls fm) \<and> distinct (in_flight (fm_calls fm))
     \<and> (\<forall>n \<in> set (in_flight (fm_calls fm)). n \<le> fm_reqID fm)
     \<and> distinct (fm_requested fm)
     \<and> (\<forall>h \<in> set (fm_requested fm). \<exists>t n. h = headers t (fm_port fm) n \<and> t \<in> {''error'', ''data''}
          \<and> n \<le> fm_reqID fm \<and> n \<notin> set (numbered (fm_calls fm)))
     \<and> set (fm_active fm) \<subseteq> call_keys (piping (fm_calls fm))
     \<and> (\<not> fm_closed fm \<longrightarrow> set (fm_active fm) = call_keys (piping (fm_calls fm)))"

lemma call_split:
  assumes "i < length cs" "cs ! i = c"
  obtains xs ys where "cs = xs @ c # ys" "\<forall>c'. cs[i := c'] = xs @ c' # ys"
  using assms id_take_nth_drop [OF assms(1)] upd_conv_take_nth_drop [OF assms(1)] by metis

lemma past_number_simps [simp]:
  "past_number [] = 0" "past_number (c # cs) = (if c = Entered then 0 else 1) + past_number cs"
  "past_number (cs @ ds) = past_number cs + past_number ds"
  by (simp_all add: past_number_def)

lemma headers_inj [simp]:
  "headers t p m = headers u p n \<longleftrightarrow> t = u \<and> m = n" "fm_port (forward_number i fm) = fm_port fm"
  by (auto simp: headers_def forward_number_def Let_def)

lemma number_ok:
  assumes "numbers_ok fm" "i < length (fm_calls fm)" "fm_calls fm ! i = Entered" "length (fm_calls fm) < 2 ^ 64"
  shows "numbers_ok (forward_number i fm)"
proof -
  obtain xs ys where cs: "fm_calls fm = xs @ Entered # ys" "\<forall>c. (fm_calls fm)[i := c] = xs @ c # ys"
    by (rule call_split [OF assms(2,3)])
  note inv = assms(1) [unfolded numbers_ok_def cs(1)]
  have "Suc (past_number xs + past_number ys) \<le> length (fm_calls fm)"
    using past_number_le [of xs] past_number_le [of ys] by (simp add: cs(1))
  with inv assms(4) have "unat (fm_reqID fm) + 1 < 2 ^ 64" by simp
  then have u: "unat (fm_reqID fm + 1) = Suc (unat (fm_reqID fm))"
    by (simp add: unat_word_ariths take_bit_nat_eq_self_iff)
  then have up: "n < fm_reqID fm + 1" if "n \<le> fm_reqID fm" for n
    using that by (simp add: word_less_nat_alt word_le_nat_alt)
  then have le: "n \<le> fm_reqID fm + 1" if "n \<le> fm_reqID fm" for n using that by (simp add: order.strict_implies_order)
  have new: "fm_reqID fm + 1 \<notin> set (in_flight xs) \<union> set (in_flight ys)" using inv up by (metis Un_iff less_irrefl set_append calls_simps(8,9) call_of_simps(11) append_Nil)
  let ?n = "fm_reqID fm + 1"
  have live: "distinct (in_flight (xs @ Numbered ?n # ys))" "\<forall>m \<in> set (in_flight (xs @ Numbered ?n # ys)). m \<le> ?n"
    using inv new le by auto
  have past: "unat ?n \<le> past_number (xs @ Numbered ?n # ys)" using inv u by simp
  have req: "\<exists>t m. h = headers t (fm_port fm) m \<and> t \<in> {''error'', ''data''} \<and> m \<le> ?n
      \<and> m \<notin> set (numbered (xs @ Numbered ?n # ys))" if "h \<in> set (fm_requested fm)" for h
  proof -
    from inv that obtain t m where "h = headers t (fm_port fm) m" "t \<in> {''error'', ''data''}" "m \<le> fm_reqID fm"
      "m \<notin> set (numbered (xs @ Entered # ys))" by blast
    with up [of m] le [of m] show ?thesis by (intro exI [of _ t] exI [of _ m]) auto
  qed
  have keys: "piping (xs @ Numbered ?n # ys) = piping (xs @ Entered # ys)" by simp
  have fields: "fm_reqID (forward_number i fm) = ?n" "fm_calls (forward_number i fm) = xs @ Numbered ?n # ys"
    "fm_requested (forward_number i fm) = fm_requested fm" "fm_active (forward_number i fm) = fm_active fm"
    "fm_closed (forward_number i fm) = fm_closed fm"
    by (simp_all add: forward_number_def Let_def cs(2))
  show ?thesis
    unfolding numbers_ok_def fields keys headers_inj(2)
    using inv live past req by blast
qed

lemma create_ok:
  assumes "numbers_ok fm" "i < length (fm_calls fm)" "fm_calls fm ! i = Numbered n"
  shows "numbers_ok (snd (forward_create i n es ds (g, fm)))"
proof -
  obtain xs ys where cs: "fm_calls fm = xs @ Numbered n # ys" "\<forall>c. (fm_calls fm)[i := c] = xs @ c # ys"
    by (rule call_split [OF assms(2,3)])
  note inv = assms(1) [unfolded numbers_ok_def cs(1)]
  have fresh: "n \<notin> set (in_flight xs) \<union> set (in_flight ys)" and n: "n \<le> fm_reqID fm" using inv by auto
  then have num: "n \<notin> set (numbered (xs @ ys))" "n \<notin> set (piping (xs @ ys))" by (auto simp: in_flight_set)
  have req: "headers t (fm_port fm) n \<notin> set (fm_requested fm)" for t
  proof
    assume "headers t (fm_port fm) n \<in> set (fm_requested fm)"
    with inv obtain u m where "headers t (fm_port fm) n = headers u (fm_port fm) m"
      "m \<notin> set (numbered (xs @ Numbered n # ys))" by blast
    then show False by simp
  qed
  have old: "\<exists>t m. h = headers t (fm_port fm) m \<and> t \<in> {''error'', ''data''} \<and> m \<le> fm_reqID fm
      \<and> m \<notin> set (numbered (xs @ ys))" if "h \<in> set (fm_requested fm)" for h
    using inv that by fastforce
  have new: "\<exists>t m. headers u (fm_port fm) n = headers t (fm_port fm) m \<and> t \<in> {''error'', ''data''} \<and> m \<le> fm_reqID fm
      \<and> m \<notin> set (numbered (xs @ ys))" if "u \<in> {''error'', ''data''}" for u
    using that n num(1) by blast
  have keys: "error_key n \<notin> set (fm_active fm)" "data_key n \<notin> set (fm_active fm)"
  proof -
    have "set (fm_active fm) \<subseteq> call_keys (piping (xs @ ys))" using inv by simp
    with num(2) show "error_key n \<notin> set (fm_active fm)" "data_key n \<notin> set (fm_active fm)"
      using call_keys_mem by blast+
  qed
  then have filt: "filter (\<lambda>k. k \<noteq> error_key n) (fm_active fm) = fm_active fm"
    by (metis (mono_tags, lifting) filter_True)
  have shape: "numbered (xs @ c # ys) = numbered (xs @ ys)" "piping (xs @ c # ys) = piping xs @ piping_of c @ piping ys"
    "past_number (xs @ c # ys) = past_number (xs @ Numbered n # ys)"
    if "numbered_of c = []" "c \<noteq> Entered" for c
    using that by simp_all
  show ?thesis
  proof (cases "es = None \<and> ds = None")
    case True
    let ?t = "snd (forward_create i n es ds (g, fm))"
    have fields: "fm_reqID ?t = fm_reqID fm" "fm_calls ?t = xs @ Piping n # ys" "fm_closed ?t = fm_closed fm"
      "fm_port ?t = fm_port fm" "fm_active ?t = data_key n # error_key n # fm_active fm"
      "fm_requested ?t = headers ''data'' (fm_port fm) n # headers ''error'' (fm_port fm) n # fm_requested fm"
      using True by (simp_all add: forward_create_def Let_def cs(2))
    have p: "distinct (in_flight (xs @ Piping n # ys))" "\<forall>m \<in> set (in_flight (xs @ Piping n # ys)). m \<le> fm_reqID fm"
      "unat (fm_reqID fm) \<le> past_number (xs @ Piping n # ys)" using inv by simp_all
    have a: "set (data_key n # error_key n # fm_active fm) \<subseteq> call_keys (piping (xs @ Piping n # ys))"
      "\<not> fm_closed fm \<longrightarrow> set (data_key n # error_key n # fm_active fm) = call_keys (piping (xs @ Piping n # ys))"
      using inv by auto
    have r: "distinct (fm_requested ?t)" using inv req by (simp add: fields)
    show ?thesis unfolding numbers_ok_def
      using p a r old num(1) by (simp add: fields shape)
  next
    case False
    define c where "c = (case es of Some err \<Rightarrow> CallDone (Some (Wrapped ''create error stream'' err))
      | None \<Rightarrow> CallDone (Some (Wrapped ''create data stream'' (the ds))))"
    let ?t = "snd (forward_create i n es ds (g, fm))"
    have c: "numbered_of c = []" "piping_of c = []" "in_flight_of c = []" "c \<noteq> Entered"
      by (cases es; simp add: c_def)+
    have fields: "fm_reqID ?t = fm_reqID fm" "fm_calls ?t = xs @ c # ys" "fm_closed ?t = fm_closed fm"
      "fm_port ?t = fm_port fm" "fm_active ?t = fm_active fm"
      using False by (cases es; auto simp: forward_create_def Let_def cs(2) c_def filt)+
    have reqs: "fm_requested ?t = headers ''error'' (fm_port fm) n # fm_requested fm
      \<or> fm_requested ?t = headers ''data'' (fm_port fm) n # headers ''error'' (fm_port fm) n # fm_requested fm"
      using False by (cases es) (auto simp: forward_create_def Let_def)
    have p: "distinct (in_flight (xs @ c # ys))" "\<forall>m \<in> set (in_flight (xs @ c # ys)). m \<le> fm_reqID fm"
      "unat (fm_reqID fm) \<le> past_number (xs @ c # ys)" using inv c by simp_all
    have a: "set (fm_active fm) \<subseteq> call_keys (piping (xs @ c # ys))"
      "\<not> fm_closed fm \<longrightarrow> set (fm_active fm) = call_keys (piping (xs @ c # ys))"
      using inv c by auto
    have r: "distinct (fm_requested ?t)" using inv req reqs by auto
    have all: "\<forall>h \<in> set (fm_requested ?t). \<exists>t m. h = headers t (fm_port fm) m \<and> t \<in> {''error'', ''data''}
      \<and> m \<le> fm_reqID fm \<and> m \<notin> set (numbered (xs @ ys))"
      using reqs
    proof
      assume "fm_requested ?t = headers ''error'' (fm_port fm) n # fm_requested fm"
      with old new [of "''error''"] show ?thesis by simp
    next
      assume "fm_requested ?t = headers ''data'' (fm_port fm) n # headers ''error'' (fm_port fm) n # fm_requested fm"
      with old new [of "''error''"] new [of "''data''"] show ?thesis by simp
    qed
    have num_eq: "numbered (xs @ c # ys) = numbered (xs @ ys)" using c by simp
    show ?thesis unfolding numbers_ok_def fields num_eq
      using p a r all by blast
  qed
qed

lemma close_ok:
  assumes "numbers_ok fm" "i < length (fm_calls fm)" "fm_calls fm ! i = Piping n" "in_flight_of c = []" "c \<noteq> Entered"
  shows "numbers_ok (snd (set_call i c (close_all n (g, fm))))"
proof -
  obtain xs ys where cs: "fm_calls fm = xs @ Piping n # ys" "\<forall>c. (fm_calls fm)[i := c] = xs @ c # ys"
    by (rule call_split [OF assms(2,3)])
  note inv = assms(1) [unfolded numbers_ok_def cs(1)]
  then have "n \<notin> set (in_flight xs) \<union> set (in_flight ys)" by auto
  then have num: "n \<notin> set (piping xs)" "n \<notin> set (piping ys)" by (auto simp: in_flight_set)
  have c: "numbered_of c = []" "piping_of c = []" using assms(4) by (simp_all add: in_flight_of_def)
  let ?t = "snd (set_call i c (close_all n (g, fm)))"
  have fields: "fm_reqID ?t = fm_reqID fm" "fm_calls ?t = xs @ c # ys" "fm_closed ?t = fm_closed fm"
    "fm_port ?t = fm_port fm" "fm_requested ?t = fm_requested fm"
    "set (fm_active ?t) = set (fm_active fm) - {data_key n, error_key n}"
    by (auto simp: set_call_def close_all_def cs(2))
  have p: "distinct (in_flight (xs @ c # ys))" "\<forall>m \<in> set (in_flight (xs @ c # ys)). m \<le> fm_reqID fm"
    "unat (fm_reqID fm) \<le> past_number (xs @ c # ys)" using inv assms(4,5) by auto
  have eq: "numbered (xs @ c # ys) = numbered (xs @ Piping n # ys)" "piping (xs @ c # ys) = piping xs @ piping ys"
    using c by simp_all
  have a: "call_keys (piping xs @ piping ys) = call_keys (piping (xs @ Piping n # ys)) - {data_key n, error_key n}"
    using num by auto
  show ?thesis unfolding numbers_ok_def fields eq a
    using inv p by blast
qed

text \<open>The states a manager can be in, whatever the other tunnels do to the gauges.\<close>

definition fm_inv :: "forward_manager \<Rightarrow> bool" where
  "fm_inv fm \<longleftrightarrow>
     fm_conn_open fm = (\<not> fm_closed fm) \<and> (length (fm_calls fm) < 2 ^ 64 \<longrightarrow> numbers_ok fm)"

lemma numbers_ok_cong:
  "numbers_ok fm \<Longrightarrow> fm_reqID fm' = fm_reqID fm \<Longrightarrow> fm_port fm' = fm_port fm \<Longrightarrow>
     fm_requested fm' = fm_requested fm \<Longrightarrow> fm_active fm' = fm_active fm \<Longrightarrow> fm_closed fm' = fm_closed fm \<Longrightarrow>
     in_flight (fm_calls fm') = in_flight (fm_calls fm) \<Longrightarrow> numbered (fm_calls fm') = numbered (fm_calls fm) \<Longrightarrow>
     piping (fm_calls fm') = piping (fm_calls fm) \<Longrightarrow> past_number (fm_calls fm) \<le> past_number (fm_calls fm') \<Longrightarrow>
     numbers_ok fm'"
  by (simp add: numbers_ok_def)

lemma fm_call_fields:
  "fm_call (g, fm) (g', fm') \<Longrightarrow> length (fm_calls fm') = length (fm_calls fm) \<and> fm_conn_open fm' = fm_conn_open fm
     \<and> fm_closed fm' = fm_closed fm \<and> fm_namespace fm' = fm_namespace fm \<and> fm_pod fm' = fm_pod fm
     \<and> fm_port fm' = fm_port fm \<and> fm_ctx fm' = fm_ctx fm \<and> ActiveTunnelForwards g' = ActiveTunnelForwards g"
  by (erule fm_call.cases) (auto simp: fm_op_defs split: option.splits)

lemma call_inv: "fm_call (g, fm) (g', fm') \<Longrightarrow> numbers_ok fm \<Longrightarrow> length (fm_calls fm) < 2 ^ 64 \<Longrightarrow> numbers_ok fm'"
proof (erule fm_call.cases, goal_cases)
  case (1 i fm1 g1)
  then show ?case by (simp add: number_ok)
next
  case (2 i fm1 n g1 es ds)
  then show ?case using create_ok [of fm1 i n es ds g1] by (metis Pair_inject snd_conv)
next
  case (3 i fm1 n g1 r)
  then show ?case using close_ok [of fm1 i n "CallDone r" g1]
    by (simp add: forward_finish_def) (metis snd_conv)
next
  case (4 i fm1 n e g1)
  then show ?case using close_ok [of fm1 i n "Torn n" g1] by simp (metis snd_conv)
next
  case (5 i fm1 n g1 r)
  obtain xs ys where cs: "fm_calls fm1 = xs @ Torn n # ys" "\<forall>c. (fm_calls fm1)[i := c] = xs @ c # ys"
    using 5 call_split by metis
  have "fm_calls fm' = xs @ CallDone r # ys" "fm_calls fm = xs @ Torn n # ys" using 5 cs by (simp_all add: set_call_def)
  moreover have "fm_reqID fm' = fm_reqID fm" "fm_port fm' = fm_port fm" "fm_requested fm' = fm_requested fm"
    "fm_active fm' = fm_active fm" "fm_closed fm' = fm_closed fm" using 5 by (simp_all add: set_call_def)
  ultimately show ?case using 5(1) by (simp add: numbers_ok_def)
qed

lemma close_numbers: "numbers_ok fm \<Longrightarrow> numbers_ok (snd (fm_Close (g, fm)))"
  by (auto simp: numbers_ok_def fm_Close_def)

lemma enter_numbers: "numbers_ok fm \<Longrightarrow> numbers_ok (forward_enter fm)"
  by (erule numbers_ok_cong) (auto simp: forward_enter_def)

lemma step_fm_inv: "fm_step (g, fm) (g', fm') \<Longrightarrow> fm_inv fm \<Longrightarrow> fm_inv fm'"
proof (erule fm_step.cases, goal_cases)
  case (1 g1 fm1)
  then have "length (fm_calls fm') = Suc (length (fm_calls fm))" "fm_conn_open fm' = fm_conn_open fm"
    "fm_closed fm' = fm_closed fm" by (auto simp: forward_enter_def)
  with 1 show ?case by (auto simp: fm_inv_def intro: enter_numbers)
next
  case (2 t t')
  with fm_call_fields [of g fm g' fm'] show ?case by (auto simp: fm_inv_def intro: call_inv)
next
  case (3 t)
  then have "fm' = snd (fm_Close (g, fm))" by (metis snd_conv)
  with 3 show ?case
    by (auto simp: fm_inv_def fm_Close_def numbers_ok_def split: if_splits)
next
  case (4 fm1 g1 e)
  then show ?case by (auto simp: fm_inv_def numbers_ok_def)
qed

text \<open>What a manager adds to the gauges, and that each step moves them by just the difference.\<close>

definition forwards_of :: "forward_manager \<Rightarrow> int" where
  "forwards_of fm = (if fm_closed fm then 0 else 1)"

definition streams_of :: "forward_manager \<Rightarrow> int" where
  "streams_of fm = int (length (piping (fm_calls fm)))"

lemma call_gauges:
  "fm_call (g, fm) (g', fm') \<Longrightarrow> ActiveTunnelStreams g' - streams_of fm' = ActiveTunnelStreams g - streams_of fm"
proof (erule fm_call.cases, goal_cases)
  case (1 i fm1 g1)
  then obtain xs ys where "fm_calls fm1 = xs @ Entered # ys" "\<forall>c. (fm_calls fm1)[i := c] = xs @ c # ys"
    using call_split by metis
  with 1 show ?case by (simp add: forward_number_def streams_of_def Let_def)
next
  case (2 i fm1 n g1 es ds)
  then obtain xs ys where "fm_calls fm1 = xs @ Numbered n # ys" "\<forall>c. (fm_calls fm1)[i := c] = xs @ c # ys"
    using call_split by metis
  with 2 show ?case by (auto simp: forward_create_def streams_of_def Let_def split: option.splits)
next
  case (3 i fm1 n g1 r)
  then obtain xs ys where "fm_calls fm1 = xs @ Piping n # ys" "\<forall>c. (fm_calls fm1)[i := c] = xs @ c # ys"
    using call_split by metis
  with 3 show ?case by (simp add: forward_finish_def set_call_def close_all_def streams_of_def)
next
  case (4 i fm1 n e g1)
  then obtain xs ys where "fm_calls fm1 = xs @ Piping n # ys" "\<forall>c. (fm_calls fm1)[i := c] = xs @ c # ys"
    using call_split by metis
  with 4 show ?case by (simp add: set_call_def close_all_def streams_of_def)
next
  case (5 i fm1 n g1 r)
  then obtain xs ys where "fm_calls fm1 = xs @ Torn n # ys" "\<forall>c. (fm_calls fm1)[i := c] = xs @ c # ys"
    using call_split by metis
  with 5 show ?case by (simp add: set_call_def streams_of_def)
qed

lemma step_gauges:
  assumes "fm_step (g, fm) (g', fm')"
  shows "ActiveTunnelStreams g' - streams_of fm' = ActiveTunnelStreams g - streams_of fm
    \<and> ActiveTunnelForwards g' - forwards_of fm' = ActiveTunnelForwards g - forwards_of fm"
  using assms
proof (cases rule: fm_step.cases)
  case call
  then show ?thesis using call_gauges fm_call_fields [of g fm g' fm'] by (simp add: forwards_of_def)
qed (auto simp: forward_enter_def fm_Close_def streams_of_def forwards_of_def split: if_splits)

lemma step_target:
  assumes "fm_step (g, fm) (g', fm')"
  shows "fm_namespace fm' = fm_namespace fm \<and> fm_pod fm' = fm_pod fm \<and> fm_port fm' = fm_port fm"
  using assms
proof (cases rule: fm_step.cases)
  case call
  then show ?thesis using fm_call_fields [of g fm g' fm'] by simp
qed (auto simp: forward_enter_def fm_Close_def split: if_splits)

text \<open>A manager as it is made.\<close>

lemma new_manager:
  assumes "NewForwardManager te dial ctx ns pod port g0 = (Inr fm, g)"
  shows "fm_inv fm \<and> fm_namespace fm = ns \<and> fm_pod fm = pod \<and> fm_port fm = port \<and> fm_calls fm = []
    \<and> streams_of fm = 0 \<and> forwards_of fm = 1 \<and> fm_closed fm = False \<and> fm_ctx fm = ctx
    \<and> ActiveTunnelStreams g = ActiveTunnelStreams g0 \<and> ActiveTunnelForwards g = ActiveTunnelForwards g0 + 1"
  using assms
  by (auto simp: NewForwardManager_def fm_inv_def numbers_ok_def streams_of_def forwards_of_def split: option.splits)

lemma fm_reach_inv:
  assumes "fm_reach g0 t"
  shows "fm_inv (snd t) \<and> ActiveTunnelStreams (fst t) - streams_of (snd t) = ActiveTunnelStreams g0
    \<and> ActiveTunnelForwards (fst t) - forwards_of (snd t) = ActiveTunnelForwards g0"
  using assms unfolding fm_reach_def
proof (induction rule: reach_invariant)
  case (init t)
  then show ?case by (cases t) (auto simp: fm_init_def dest!: new_manager)
next
  case (step t t')
  then show ?case by (cases t; cases t') (auto dest: step_fm_inv step_gauges)
qed

section \<open>Properties\<close>

text \<open>C25. The gauges tell the truth: open tunnels count one until \<open>Close\<close> and none after it, open
  streams count the calls that pipe, and when all calls have returned nothing is left of them. While
  fewer than \<open>2 ^ 64\<close> calls have come, the streams kept for closing are exactly those of the calls that
  pipe as long as the tunnel is open, and never others, and no stream is asked for twice: type and
  request number together are used once.\<close>

theorem forward_gauges:
  assumes "fm_reach g0 (g, fm)"
  shows "ActiveTunnelStreams g = ActiveTunnelStreams g0 + int (length (piping (fm_calls fm)))
    \<and> ActiveTunnelForwards g = ActiveTunnelForwards g0 + (if fm_closed fm then 0 else 1)
    \<and> (length (fm_calls fm) < 2 ^ 64 \<longrightarrow>
         set (fm_active fm) \<subseteq> call_keys (piping (fm_calls fm))
         \<and> (\<not> fm_closed fm \<longrightarrow> set (fm_active fm) = call_keys (piping (fm_calls fm)))
         \<and> distinct (fm_requested fm) \<and> distinct (piping (fm_calls fm)))
    \<and> (list_all (\<lambda>c. \<exists>r. c = CallDone r) (fm_calls fm) \<longrightarrow> ActiveTunnelStreams g = ActiveTunnelStreams g0)"
proof -
  have fin: "piping cs = []" if "list_all (\<lambda>c. \<exists>r. c = CallDone r) cs" for cs
    using that by (induction cs) auto
  have "distinct (in_flight cs) \<Longrightarrow> distinct (piping cs)" for cs
  proof (induction cs)
    case (Cons c cs)
    then show ?case by (cases c) (auto simp: in_flight_set)
  qed simp
  with fm_reach_inv [OF assms] fin show ?thesis
    by (auto simp: fm_inv_def numbers_ok_def streams_of_def forwards_of_def)
qed

definition no_tunnels :: tunnel_gauges where
  "no_tunnels = \<lparr>ActiveTunnelForwards = 0, ActiveTunnelStreams = 0\<rparr>"

definition new_fm :: forward_manager where
  "new_fm = \<lparr>fm_namespace = ''apps'', fm_pod = ''web-1'', fm_port = 8080, fm_closed = False, fm_reqID = 0,
     fm_active = [], fm_conn_open = True, fm_ctx = None, fm_calls = [], fm_requested = []\<rparr>"

definition one_tunnel :: tunnel where
  "one_tunnel = (no_tunnels\<lparr>ActiveTunnelForwards := 1\<rparr>, new_fm)"

lemma one_tunnel_reach: "fm_reach no_tunnels one_tunnel"
  unfolding fm_reach_def
  by (rule reach_init) (auto simp: fm_init_def NewForwardManager_def new_fm_def one_tunnel_def no_tunnels_def)

text \<open>One call, with its two streams.\<close>

definition one_call :: tunnel where
  "one_call = (\<lambda>(g, fm). forward_create 0 1 None None (g, forward_number 0 (forward_enter fm))) one_tunnel"

lemma one_call_reach: "fm_reach no_tunnels one_call"
proof -
  let ?g = "no_tunnels\<lparr>ActiveTunnelForwards := 1\<rparr>"
  have "fm_reach no_tunnels (?g, forward_enter new_fm)"
    using one_tunnel_reach fm_step.enter unfolding fm_reach_def one_tunnel_def by (rule reach_step)
  moreover have "fm_step (?g, forward_enter new_fm) (?g, forward_number 0 (forward_enter new_fm))"
    by (intro fm_step.call fm_call.number) (simp_all add: forward_enter_def new_fm_def)
  moreover have "fm_step (?g, forward_number 0 (forward_enter new_fm)) one_call"
    unfolding one_call_def one_tunnel_def prod.case
    by (intro fm_step.call fm_call.create) (simp_all add: forward_enter_def forward_number_def new_fm_def Let_def)
  ultimately show ?thesis unfolding fm_reach_def by (meson reach_step)
qed

theorem forward_gauges_witness:
  "ActiveTunnelStreams (fst one_call) = 1 \<and> set (fm_active (snd one_call)) = {''1-error'', ''1-data''}"
proof -
  have calls: "fm_calls (snd one_call) = [Piping 1]" "\<not> fm_closed (snd one_call)"
    by (simp_all add: one_call_def one_tunnel_def forward_create_def forward_number_def forward_enter_def new_fm_def Let_def)
  have keys: "error_key 1 = ''1-error''" "data_key 1 = ''1-data''" by code_simp+
  from forward_gauges [of no_tunnels "fst one_call" "snd one_call"] one_call_reach calls show ?thesis
    by (simp add: no_tunnels_def keys)
qed

text \<open>Closing: \<open>Close\<close> twice is \<open>Close\<close> once; a closed tunnel stays closed, its connection too,
  and a call that starts after it is refused at once.\<close>

theorem forward_close:
  assumes "fm_step\<^sup>*\<^sup>* (fm_Close t) (g', fm')"
  shows "fm_Close (fm_Close t) = fm_Close t \<and> fm_closed fm' \<and> fm_conn_open fm' = fm_conn_open (snd (fm_Close t))
    \<and> ActiveTunnelForwards g' = ActiveTunnelForwards (fst (fm_Close t))
    \<and> forward_enter fm' = fm'\<lparr>fm_calls := fm_calls fm' @ [CallDone (Some (Dynamic ''forward manager is closed''))]\<rparr>"
proof -
  have step: "fm_closed (snd s') \<and> fm_conn_open (snd s') = fm_conn_open (snd s)
      \<and> ActiveTunnelForwards (fst s') = ActiveTunnelForwards (fst s)"
    if "fm_step s s'" "fm_closed (snd s)" for s s'
    using that
  proof (cases rule: fm_step.cases)
    case call
    then show ?thesis using that fm_call_fields [of "fst s" "snd s" "fst s'" "snd s'"] by simp
  qed (auto simp: forward_enter_def fm_Close_def case_prod_beta)
  let ?I = "\<lambda>s. fm_closed (snd s) \<and> fm_conn_open (snd s) = fm_conn_open (snd (fm_Close t))
    \<and> ActiveTunnelForwards (fst s) = ActiveTunnelForwards (fst (fm_Close t))"
  have "?I (g', fm')"
    by (rule steps_invariant [OF assms]) (auto simp: fm_Close_def split: prod.splits dest: step)
  then show ?thesis by (auto simp: fm_Close_def forward_enter_def split: prod.splits)
qed

theorem forward_close_witness:
  "ActiveTunnelForwards (fst (fm_Close one_tunnel)) = 0 \<and> fm_closed (forward_enter (snd (fm_Close one_tunnel)))"
proof -
  have "fm_step (fm_Close one_tunnel) (fst (fm_Close one_tunnel), forward_enter (snd (fm_Close one_tunnel)))"
    using fm_step.enter by (metis surjective_pairing)
  with forward_close [of one_tunnel] show ?thesis
    by (auto simp: one_tunnel_def fm_Close_def new_fm_def no_tunnels_def)
qed

text \<open>Every stream of a tunnel carries its port, and the manager stays with its pod.\<close>

lemma tunnel_streams:
  assumes "fm_step\<^sup>*\<^sup>* (g, fm) (g', fm')" "list_all (\<lambda>h. Port h = int_str (fm_port fm)) (fm_requested fm)"
  shows "fm_namespace fm' = fm_namespace fm \<and> fm_pod fm' = fm_pod fm \<and> fm_port fm' = fm_port fm
    \<and> list_all (\<lambda>h. Port h = int_str (fm_port fm)) (fm_requested fm')"
proof -
  let ?P = "\<lambda>fm. list_all (\<lambda>h. Port h = int_str (fm_port fm)) (fm_requested fm)"
  have calls: "?P a \<Longrightarrow> ?P b" if "fm_call (ga, a) (gb, b)" for ga a gb b
    using that by (cases rule: fm_call.cases) (auto simp: fm_op_defs headers_def split: option.splits)
  have step: "?P a \<Longrightarrow> ?P b" if "fm_step (ga, a) (gb, b)" for ga a gb b
    using that
  proof (cases rule: fm_step.cases)
    case call
    then show "?P a \<Longrightarrow> ?P b" using calls by blast
  qed (auto simp: forward_enter_def fm_Close_def split: if_splits)
  let ?I = "\<lambda>(g', fm'). fm_namespace fm' = fm_namespace fm \<and> fm_pod fm' = fm_pod fm \<and> fm_port fm' = fm_port fm
    \<and> list_all (\<lambda>h. Port h = int_str (fm_port fm)) (fm_requested fm')"
  have "?I (g', fm')"
    using assms(1)
  proof (rule steps_invariant)
    show "?I (g, fm)" using assms(2) by simp
  next
    fix s s' assume "?I s" "fm_step s s'"
    then show "?I s'" using step [of "fst s" "snd s" "fst s'" "snd s'"] step_target [of "fst s" "snd s" "fst s'" "snd s'"]
      by (cases s; cases s') simp
  qed
  then show ?thesis by simp
qed

end
