(* ===== verification/K8s_Handler.thy ===== *)
theory K8s_Handler
  imports K8s_Resolver Split_Args Requests Forward_Manager
begin

text \<open>
  \<open>internal/k8s/shell.go\<close>, \<open>remote_exec.go\<close>, \<open>sftp.go\<close>, \<open>agent.go\<close> and \<open>handler.go\<close>: what a
  session does in the cluster. The Kubernetes client is a record of parameters: resolving an
  identity, making an executor for an exec request, running its stream, reading a pod and patching
  its ephemeral containers. A handler answers with an error, or \<open>None\<close>, and with what it did: gauge
  movements, streams and patches in their order.
\<close>

section \<open>Requests to the cluster\<close>

record remote_exec_options =
  opt_stdin :: bool
  opt_stdout :: bool
  opt_stderr :: bool
  opt_tty :: bool

record pod_exec =
  pe_Pod :: string
  pe_Namespace :: string
  pe_Container :: string
  pe_Command :: "string list"
  pe_Stdin :: bool
  pe_Stdout :: bool
  pe_Stderr :: bool
  pe_TTY :: bool

record ephemeral_container =
  ec_Name :: string
  ec_Image :: string
  ec_PullPolicy :: string
  ec_Command :: "string list"
  ec_Stdin :: bool
  ec_TTY :: bool
  ec_RunAsUser :: int
  ec_RunAsGroup :: int
  ec_AddCapabilities :: "string list"
  ec_Target :: string

datatype container_state = StateRunning | StateTerminated string | StateOther

text \<open>What the agent code reads of a pod.\<close>

record agent_pod =
  ap_Ephemeral :: "ephemeral_container list"
  ap_Statuses :: "(string \<times> container_state) list"

datatype k8s_effect =
    GaugeInc string
  | GaugeDec string
  | Stream pod_exec
  | Patch string string "ephemeral_container list"

record cluster =
  cl_executor :: "pod_exec \<Rightarrow> gerror option"
  cl_stream :: "pod_exec \<Rightarrow> gerror option"
  cl_patch :: "string \<Rightarrow> string \<Rightarrow> ephemeral_container list \<Rightarrow> gerror option"
  cl_image :: string
  cl_pull_policy :: string

definition remoteExec :: "cluster \<Rightarrow> target \<Rightarrow> remote_exec_options \<Rightarrow> gerror + pod_exec" where
  "remoteExec cl t opt =
     (let req = \<lparr>pe_Pod = t_Pod t, pe_Namespace = t_Namespace t, pe_Container = t_Container t,
                 pe_Command = t_Command t, pe_Stdin = opt_stdin opt, pe_Stdout = opt_stdout opt,
                 pe_Stderr = opt_stderr opt, pe_TTY = opt_tty opt\<rparr>
      in case cl_executor cl req of Some err \<Rightarrow> Inl err | None \<Rightarrow> Inr req)"

definition ErrTargetNil :: gerror where
  "ErrTargetNil = Sentinel ''nil target''"

definition exec_gauge :: string where
  "exec_gauge = ''podsh_k8s_active_exec_streams''"

definition sftp_gauge :: string where
  "sftp_gauge = ''podsh_k8s_active_sftp_streams''"

text \<open>Running a stream between the two movements of its gauge, the second deferred.\<close>

definition gauged_stream :: "cluster \<Rightarrow> string \<Rightarrow> pod_exec \<Rightarrow> gerror option \<times> k8s_effect list" where
  "gauged_stream cl gauge req = (cl_stream cl req, [GaugeInc gauge, Stream req, GaugeDec gauge])"

section \<open>Shells and commands\<close>

text \<open>
  The result of resolving comes first: a panic ends the process, an error and a nil target end the
  handler. The session's channel is always there, so that stdin, stdout and stderr are set.
\<close>

definition with_target ::
    "(gerror + target option) go \<Rightarrow> (target \<Rightarrow> gerror option \<times> k8s_effect list) \<Rightarrow>
     (gerror option \<times> k8s_effect list) go" where
  "with_target resolved body =
     (case resolved of
        Panic m \<Rightarrow> Panic m
      | Ret (Inl err) \<Rightarrow> Ret (Some err, [])
      | Ret (Inr None) \<Rightarrow> Ret (Some ErrTargetNil, [])
      | Ret (Inr (Some t)) \<Rightarrow> Ret (body t))"

definition exec_in :: "cluster \<Rightarrow> target \<Rightarrow> bool \<Rightarrow> gerror option \<times> k8s_effect list" where
  "exec_in cl t tty =
     (case remoteExec cl t \<lparr>opt_stdin = True, opt_stdout = True, opt_stderr = True, opt_tty = tty\<rparr> of
        Inl err \<Rightarrow> (Some err, [])
      | Inr req \<Rightarrow> gauged_stream cl exec_gauge req)"

definition HandleShell ::
    "cluster \<Rightarrow> (identity \<Rightarrow> (gerror + target option) go) \<Rightarrow> identity \<Rightarrow> (gerror option \<times> k8s_effect list) go" where
  "HandleShell cl resolve identity = with_target (resolve identity) (\<lambda>t. exec_in cl t True)"

definition HandleExec ::
    "cluster \<Rightarrow> (identity \<Rightarrow> (gerror + target option) go) \<Rightarrow> identity \<Rightarrow> string list \<Rightarrow>
     (gerror option \<times> k8s_effect list) go" where
  "HandleExec cl resolve identity command =
     with_target (resolve identity)
       (\<lambda>t. exec_in cl (t\<lparr>t_Command := concat (map splitArgs command)\<rparr>) False)"

text \<open>\<open>resizeQueue.Next\<close>: \<open>None\<close> when the channel is closed; the sizes are cut to 16 bits.\<close>

record terminal_size =
  ts_Width :: "16 word"
  ts_Height :: "16 word"

definition resize_Next :: "resize_event option \<Rightarrow> terminal_size option" where
  "resize_Next received =
     (case received of None \<Rightarrow> None
      | Some ev \<Rightarrow> Some \<lparr>ts_Width = word_of_int (Width ev), ts_Height = word_of_int (Height ev)\<rparr>)"

section \<open>The agent container\<close>

definition agent_name :: string where
  "agent_name = ''podsh-agent''"

definition agent_container :: "cluster \<Rightarrow> string \<Rightarrow> ephemeral_container" where
  "agent_container cl targetContainer =
     \<lparr>ec_Name = agent_name, ec_Image = cl_image cl, ec_PullPolicy = cl_pull_policy cl,
      ec_Command = [''/usr/bin/sleep'', ''infinity''], ec_Stdin = True, ec_TTY = False,
      ec_RunAsUser = 0, ec_RunAsGroup = 0, ec_AddCapabilities = [''SYS_PTRACE''],
      ec_Target = targetContainer\<rparr>"

text \<open>\<open>ensureAgentContainer\<close>, from the answer of \<open>Get\<close>.\<close>

definition ensureAgentContainer ::
    "cluster \<Rightarrow> gerror + agent_pod \<Rightarrow> string \<Rightarrow> string \<Rightarrow> string \<Rightarrow> gerror option \<times> k8s_effect list" where
  "ensureAgentContainer cl got namespace podName targetContainer =
     (case got of
        Inl err \<Rightarrow> (Some err, [])
      | Inr pod \<Rightarrow>
          (if list_ex (\<lambda>ec. ec_Name ec = agent_name) (ap_Ephemeral pod) then (None, [])
           else
             let ecs = ap_Ephemeral pod @ [agent_container cl targetContainer]
             in (cl_patch cl namespace podName ecs, [Patch namespace podName ecs])))"

text \<open>\<open>agentRunning\<close>: the first status of the agent that says running or terminated.\<close>

fun agentRunning_in :: "(string \<times> container_state) list \<Rightarrow> bool \<times> string" where
  "agentRunning_in [] = (False, [])"
| "agentRunning_in ((name, st) # statuses) =
     (if name = agent_name then
        (case st of
           StateRunning \<Rightarrow> (True, [])
         | StateTerminated reason \<Rightarrow> (False, reason)
         | StateOther \<Rightarrow> agentRunning_in statuses)
      else agentRunning_in statuses)"

definition agentRunning :: "agent_pod \<Rightarrow> bool \<times> string" where
  "agentRunning pod = agentRunning_in (ap_Statuses pod)"

text \<open>
  \<open>waitForAgentReady\<close>, on what its \<open>select\<close> takes: ticks with the answer of \<open>Get\<close>, or the end of the
  context. The outer \<open>None\<close> is a loop still waiting.
\<close>

datatype agent_event = AgentTick "gerror + agent_pod" | AgentDone gerror

fun waitForAgentReady :: "agent_event list \<Rightarrow> gerror option option" where
  "waitForAgentReady [] = None"
| "waitForAgentReady (AgentDone err # es) = Some (Some err)"
| "waitForAgentReady (AgentTick (Inl err) # es) = Some (Some err)"
| "waitForAgentReady (AgentTick (Inr pod) # es) =
     (let (running, terminatedReason) = agentRunning pod
      in if running then Some None
         else if terminatedReason \<noteq> [] then
           Some (Some (Dynamic (''ephemeral container exited: '' @ terminatedReason)))
         else waitForAgentReady es)"

section \<open>SFTP\<close>

definition sftp_exec :: "target \<Rightarrow> pod_exec" where
  "sftp_exec t =
     \<lparr>pe_Pod = t_Pod t, pe_Namespace = t_Namespace t, pe_Container = agent_name,
      pe_Command = [''/usr/bin/podsftp''], pe_Stdin = True, pe_Stdout = True, pe_Stderr = True, pe_TTY = False\<rparr>"

text \<open>
  \<open>HandleSFTP\<close>, from the pod as first read and the events of the wait. The result is \<open>None\<close> while it
  still waits for the agent.
\<close>

definition sftp_in ::
    "cluster \<Rightarrow> gerror + agent_pod \<Rightarrow> agent_event list \<Rightarrow> target \<Rightarrow> gerror option option \<times> k8s_effect list" where
  "sftp_in cl got events t =
     (case ensureAgentContainer cl got (t_Namespace t) (t_Pod t) (t_Container t) of
        (Some err, effs) \<Rightarrow> (Some (Some err), effs)
      | (None, effs) \<Rightarrow>
          (case waitForAgentReady events of
             None \<Rightarrow> (None, effs)
           | Some (Some err) \<Rightarrow> (Some (Some err), effs)
           | Some None \<Rightarrow>
               let req = sftp_exec t
               in case cl_executor cl req of
                    Some err \<Rightarrow> (Some (Some err), effs)
                  | None \<Rightarrow> let (r, effs') = gauged_stream cl sftp_gauge req in (Some r, effs @ effs')))"

definition HandleSFTP ::
    "cluster \<Rightarrow> (identity \<Rightarrow> (gerror + target option) go) \<Rightarrow> gerror + agent_pod \<Rightarrow> agent_event list \<Rightarrow>
     identity \<Rightarrow> (gerror option option \<times> k8s_effect list) go" where
  "HandleSFTP cl resolve got events identity =
     (case resolve identity of
        Panic m \<Rightarrow> Panic m
      | Ret (Inl err) \<Rightarrow> Ret (Some (Some err), [])
      | Ret (Inr None) \<Rightarrow> Ret (Some (Some ErrTargetNil), [])
      | Ret (Inr (Some t)) \<Rightarrow> Ret (sftp_in cl got events t))"

text \<open>
  \<open>OpenTunnel\<close> of \<open>forward.go\<close>: a forward manager for the client's pod and the port it asked for,
  from the answers of the SPDY library.
\<close>

definition OpenTunnel ::
    "(identity \<Rightarrow> (gerror + target option) go) \<Rightarrow> gerror option \<Rightarrow> (string \<Rightarrow> string \<Rightarrow> gerror option) \<Rightarrow>
     gerror option \<Rightarrow> identity \<Rightarrow> DirectTCPIP \<Rightarrow> tunnel_gauges \<Rightarrow> ((gerror + forward_manager) \<times> tunnel_gauges) go" where
  "OpenTunnel resolve transport_err dial ctx identity req g =
     (case resolve identity of
        Panic m \<Rightarrow> Panic m
      | Ret (Inl err) \<Rightarrow> Ret (Inl err, g)
      | Ret (Inr None) \<Rightarrow> Ret (Inl ErrTargetNil, g)
      | Ret (Inr (Some t)) \<Rightarrow>
          Ret (NewForwardManager transport_err dial ctx (t_Namespace t) (t_Pod t) (uint (DestPort req)) g))"

section \<open>Gauges\<close>

text \<open>The value of a gauge after a series of effects, and the streams among them.\<close>

fun gauge_value :: "string \<Rightarrow> k8s_effect list \<Rightarrow> int" where
  "gauge_value g [] = 0"
| "gauge_value g (GaugeInc h # es) = gauge_value g es + (if g = h then 1 else 0)"
| "gauge_value g (GaugeDec h # es) = gauge_value g es - (if g = h then 1 else 0)"
| "gauge_value g (_ # es) = gauge_value g es"

fun streams :: "k8s_effect list \<Rightarrow> pod_exec list" where
  "streams [] = []"
| "streams (Stream req # es) = req # streams es"
| "streams (_ # es) = streams es"

text \<open>The patches, and the one that brings the agent into a pod.\<close>

definition patches :: "k8s_effect list \<Rightarrow> k8s_effect list" where
  "patches effs = filter (\<lambda>e. \<exists>namespace name ecs. e = Patch namespace name ecs) effs"

definition agent_patch :: "cluster \<Rightarrow> agent_pod \<Rightarrow> target \<Rightarrow> k8s_effect" where
  "agent_patch cl pod t =
     Patch (t_Namespace t) (t_Pod t) (ap_Ephemeral pod @ [agent_container cl (t_Container t)])"

lemma gauge_value_append: "gauge_value g (xs @ ys) = gauge_value g xs + gauge_value g ys"
  by (induction g xs rule: gauge_value.induct) auto

lemma streams_append: "streams (xs @ ys) = streams xs @ streams ys"
  by (induction xs rule: streams.induct) auto

lemma exec_in_streams:
  "exec_in cl t tty = (r, effs) \<Longrightarrow> req \<in> set (streams effs) \<Longrightarrow>
     pe_Pod req = t_Pod t \<and> pe_Namespace req = t_Namespace t \<and> pe_Container req = t_Container t
     \<and> pe_Command req = t_Command t \<and> pe_TTY req = tty"
  by (auto simp: exec_in_def remoteExec_def gauged_stream_def Let_def split: option.splits)

lemma ensure_streams:
  "ensureAgentContainer cl got ns p c = (r, effs) \<Longrightarrow> streams effs = [] \<and> gauge_value g effs = 0"
  by (auto simp: ensureAgentContainer_def Let_def split: sum.splits if_splits)

lemma sftp_in_streams:
  "sftp_in cl got events t = (r, effs) \<Longrightarrow>
     (streams effs = [] \<or> streams effs = [sftp_exec t] \<and> waitForAgentReady events = Some None)
     \<and> gauge_value g effs = 0"
  using ensure_streams [where cl = cl and got = got]
  by (auto simp: sftp_in_def gauged_stream_def gauge_value_append streams_append Let_def
      split: prod.splits option.splits)

lemma with_target_Ret:
  assumes "with_target resolved body = Ret (r, effs)"
  shows "effs = [] \<or> (\<exists>t. resolved = Ret (Inr (Some t)) \<and> body t = (r, effs))"
  using assms by (auto simp: with_target_def split: go.splits sum.splits option.splits)

text \<open>When the wait succeeds, the agent was seen running.\<close>

lemma agentRunning_in_running: "agentRunning_in sts = (True, r) \<Longrightarrow> (agent_name, StateRunning) \<in> set sts"
  by (induction sts rule: agentRunning_in.induct) (auto split: if_splits container_state.splits)

lemma wait_ready:
  "waitForAgentReady es = Some None \<Longrightarrow>
     \<exists>pod. AgentTick (Inr pod) \<in> set es \<and> (agent_name, StateRunning) \<in> set (ap_Statuses pod)"
proof (induction es)
  case (Cons e es)
  show ?case
  proof (cases e)
    case (AgentTick got)
    with Cons show ?thesis
      by (cases got) (auto simp: agentRunning_def split: prod.splits if_splits dest: agentRunning_in_running)
  qed (use Cons in simp)
qed simp

text \<open>The pod an effect is on, and that each handler keeps to the pod its client was resolved to.\<close>

fun effect_target :: "k8s_effect \<Rightarrow> (string \<times> string) option" where
  "effect_target (Stream req) = Some (pe_Namespace req, pe_Pod req)"
| "effect_target (Patch namespace name ecs) = Some (namespace, name)"
| "effect_target _ = None"

lemma handler_effects:
  assumes "HandleShell cl resolve identity = Ret (r, effs) \<or> HandleExec cl resolve identity command = Ret (r, effs)
      \<or> HandleSFTP cl resolve got events identity = Ret (r', effs)"
    and "e \<in> set effs" "effect_target e = Some (namespace, name)"
  shows "\<exists>t. resolve identity = Ret (Inr (Some t)) \<and> namespace = t_Namespace t \<and> name = t_Pod t"
proof -
  have exec: "e \<in> set effs \<Longrightarrow> effect_target e = Some (namespace, name) \<Longrightarrow> namespace = t_Namespace t \<and> name = t_Pod t"
    if "exec_in cl t tty = (r, effs)" for t tty
    using that by (auto simp: exec_in_def remoteExec_def gauged_stream_def Let_def split: option.splits)
  have sftp: "e \<in> set effs \<Longrightarrow> effect_target e = Some (namespace, name) \<Longrightarrow> namespace = t_Namespace t \<and> name = t_Pod t"
    if "sftp_in cl got events t = (r', effs)" for t
    using that
    by (auto simp: sftp_in_def ensureAgentContainer_def gauged_stream_def sftp_exec_def Let_def
        split: prod.splits option.splits sum.splits if_splits)
  show ?thesis
    using assms
  proof (elim disjE)
    assume "HandleShell cl resolve identity = Ret (r, effs)"
    with exec assms(2,3) show ?thesis by (fastforce simp: HandleShell_def dest!: with_target_Ret)
  next
    assume "HandleExec cl resolve identity command = Ret (r, effs)"
    with exec assms(2,3) show ?thesis by (fastforce simp: HandleExec_def dest!: with_target_Ret)
  next
    assume "HandleSFTP cl resolve got events identity = Ret (r', effs)"
    with sftp assms(2,3) show ?thesis by (auto simp: HandleSFTP_def split: go.splits sum.splits option.splits)
  qed
qed

section \<open>Properties\<close>

lemma streams_in_own_pod:
  assumes "pod_lister cluster_pods list_pods" "label_value (UserID identity)"
    and "HandleShell cl (label_Resolve list_pods ns) identity = Ret (r, effs)
      \<or> HandleExec cl (label_Resolve list_pods ns) identity command = Ret (r, effs)
      \<or> HandleSFTP cl (label_Resolve list_pods ns) got events identity = Ret (r', effs)"
    and "req \<in> set (streams effs)"
  shows "\<exists>p \<in> cluster_pods. pe_Pod req = pod_Name p \<and> pe_Namespace req = ns \<and> pod_Namespace p = ns
    \<and> pod_Phase p = ''Running'' \<and> pod_ready p \<and> has_label p ''owner-id'' (UserID identity)
    \<and> (pe_Container req = hd (pod_Containers p) \<or> pe_Container req = agent_name)"
proof -
  have "\<exists>t. label_Resolve list_pods ns identity = Ret (Inr (Some t)) \<and> pe_Pod req = t_Pod t
      \<and> pe_Namespace req = t_Namespace t \<and> (pe_Container req = t_Container t \<or> pe_Container req = agent_name)"
    using assms(3)
  proof (elim disjE)
    assume "HandleShell cl (label_Resolve list_pods ns) identity = Ret (r, effs)"
    with assms(4) show ?thesis
      by (auto simp: HandleShell_def dest!: with_target_Ret dest: exec_in_streams)
  next
    assume "HandleExec cl (label_Resolve list_pods ns) identity command = Ret (r, effs)"
    with assms(4) show ?thesis
      by (auto simp: HandleExec_def dest!: with_target_Ret dest: exec_in_streams)
  next
    assume "HandleSFTP cl (label_Resolve list_pods ns) got events identity = Ret (r', effs)"
    with assms(4) show ?thesis
      by (auto simp: HandleSFTP_def sftp_exec_def split: go.splits sum.splits option.splits dest!: sftp_in_streams)
  qed
  then obtain t where t: "label_Resolve list_pods ns identity = Ret (Inr (Some t))" "pe_Pod req = t_Pod t"
    "pe_Namespace req = t_Namespace t" "pe_Container req = t_Container t \<or> pe_Container req = agent_name"
    by blast
  from pod_lister.resolved_pod [OF assms(1) t(1) assms(2)] obtain p where
    "p \<in> cluster_pods" "target_of t p" "pod_Namespace p = ns" "pod_Phase p = ''Running''" "pod_ready p"
    "has_label p ''owner-id'' (UserID identity)" by metis
  with t(2-4) show ?thesis by (auto simp: target_of_def)
qed

text \<open>Whatever a client asks for, every stream opened for it runs in a ready pod of the cluster, in the namespace,
  that carries the client's user id as owner: shells and commands in the pod's first container, SFTP
  in the agent's.\<close>

theorem streams_isolated:
  assumes "pod_lister cluster_pods list_pods" "label_value (UserID identity)"
    and "HandleShell cl (label_Resolve list_pods ns) identity = Ret (r, effs)
      \<or> HandleExec cl (label_Resolve list_pods ns) identity command = Ret (r, effs)
      \<or> HandleSFTP cl (label_Resolve list_pods ns) got events identity = Ret (r', effs)"
    and "req \<in> set (streams effs)"
  shows "\<exists>p \<in> cluster_pods. pe_Pod req = pod_Name p \<and> pe_Namespace req = ns \<and> pod_Namespace p = ns
    \<and> pod_Phase p = ''Running'' \<and> pod_ready p \<and> has_label p ''owner-id'' (UserID identity)
    \<and> (pe_Container req = hd (pod_Containers p) \<or> pe_Container req = agent_name)"
  using assms by (rule streams_in_own_pod)

definition calm_cluster :: cluster where
  "calm_cluster = \<lparr>cl_executor = (\<lambda>_. None), cl_stream = (\<lambda>_. None), cl_patch = (\<lambda>_ _ _. None),
     cl_image = ''agent'', cl_pull_policy = ''Always''\<rparr>"

definition ls_exec :: pod_exec where
  "ls_exec = \<lparr>pe_Pod = ''web-1'', pe_Namespace = ''apps'', pe_Container = ''main'', pe_Command = [''ls'', ''-l''],
     pe_Stdin = True, pe_Stdout = True, pe_Stderr = True, pe_TTY = False\<rparr>"

theorem streams_isolated_witness:
  "HandleExec calm_cluster (label_Resolve (ref_list [web_pod]) ''apps'') ann_web [''ls -l'']
     = Ret (None, [GaugeInc exec_gauge, Stream ls_exec, GaugeDec exec_gauge])
   \<and> (\<exists>p \<in> set [web_pod]. pod_Name p = ''web-1'' \<and> has_label p ''owner-id'' ''ann-id'')"
proof -
  have split: "splitArgs ''ls -l'' = [''ls'', ''-l'']" by code_simp
  have e: "HandleExec calm_cluster (label_Resolve (ref_list [web_pod]) ''apps'') ann_web [''ls -l'']
     = Ret (None, [GaugeInc exec_gauge, Stream ls_exec, GaugeDec exec_gauge])"
    by (simp add: HandleExec_def with_target_def ann_resolves exec_in_def remoteExec_def calm_cluster_def
        gauged_stream_def ls_exec_def split Let_def)
  have "\<exists>p \<in> set [web_pod]. pe_Pod ls_exec = pod_Name p \<and> has_label p ''owner-id'' (UserID ann_web)"
    using streams_isolated [OF ref_cluster.pod_lister_axioms _ disjI2 [OF disjI1 [OF e]], of ls_exec]
    by (auto simp: ann_web_def no_identity_def label_value_def label_char_def alnum_def byte_in_def)
  with e show ?thesis by (auto simp: ls_exec_def ann_web_def no_identity_def)
qed

text \<open>A tunnel is opened to the client's own pod and to the port it asked for.\<close>

lemma OpenTunnel_Inr:
  assumes "OpenTunnel resolve transport_err dial ctx identity req g = Ret (Inr fm, g')"
  obtains t where "resolve identity = Ret (Inr (Some t))" "fm_namespace fm = t_Namespace t" "fm_pod fm = t_Pod t"
    "fm_port fm = uint (DestPort req)" "dial (t_Namespace t) (t_Pod t) = None" "fm_inv fm" "fm_calls fm = []"
    "fm_requested fm = []" "fm_closed fm = False" "fm_ctx fm = ctx"
    "ActiveTunnelStreams g' = ActiveTunnelStreams g" "ActiveTunnelForwards g' = ActiveTunnelForwards g + 1"
proof -
  from assms obtain t where t: "resolve identity = Ret (Inr (Some t))"
    "NewForwardManager transport_err dial ctx (t_Namespace t) (t_Pod t) (uint (DestPort req)) g = (Inr fm, g')"
    by (auto simp: OpenTunnel_def split: go.splits sum.splits option.splits)
  moreover from t(2) have "fm_requested fm = []" "dial (t_Namespace t) (t_Pod t) = None"
    by (auto simp: NewForwardManager_def split: option.splits)
  ultimately show thesis using that new_manager [OF t(2)] by blast
qed

lemma OpenTunnel_Inl:
  "OpenTunnel resolve transport_err dial ctx identity req g = Ret (Inl err, g') \<Longrightarrow> g' = g"
  by (auto simp: OpenTunnel_def NewForwardManager_def split: go.splits sum.splits option.splits)

lemma tunnel_in_own_pod:
  assumes "pod_lister cluster_pods list_pods" "label_value (UserID identity)"
    and "OpenTunnel (label_Resolve list_pods ns) transport_err dial ctx identity req g = Ret (Inr fm, g')"
  shows "own_pod cluster_pods ns identity (fm_namespace fm) (fm_pod fm) \<and> fm_port fm = uint (DestPort req)"
proof -
  from assms(3) obtain t where t: "label_Resolve list_pods ns identity = Ret (Inr (Some t))"
    "fm_namespace fm = t_Namespace t" "fm_pod fm = t_Pod t" "fm_port fm = uint (DestPort req)"
    by (rule OpenTunnel_Inr)
  with pod_lister.resolved_own_pod [OF assms(1) t(1) assms(2)] show ?thesis by simp
qed

text \<open>A tunnel leads to the client's own pod: to a ready pod of the namespace with the client as its
  owner, and whatever its calls do, every stream asked of its connection carries the port the client
  named, in decimal.\<close>

theorem tunnels_isolated:
  assumes "pod_lister cluster_pods list_pods" "label_value (UserID identity)"
    and "OpenTunnel (label_Resolve list_pods ns) transport_err dial ctx identity req g = Ret (Inr fm, g')"
    and "fm_step\<^sup>*\<^sup>* (g', fm) (g'', fm')"
  shows "own_pod cluster_pods ns identity (fm_namespace fm') (fm_pod fm')
    \<and> (\<forall>h \<in> set (fm_requested fm'). Port h = nat_str (unat (DestPort req)))"
proof -
  from assms(3) have "fm_requested fm = []" by (rule OpenTunnel_Inr)
  with tunnel_streams [OF assms(4)] tunnel_in_own_pod [OF assms(1-3)] show ?thesis
    by (auto simp: list_all_iff int_str_def)
qed

theorem tunnels_isolated_witness:
  "\<exists>fm g'. OpenTunnel (label_Resolve (ref_list [web_pod]) ''apps'') None (\<lambda>_ _. None) None ann_web
      \<lparr>DestAddr = ''localhost'', DestPort = 8080, OriginAddr = ''127.0.0.1'', OriginPort = 4\<rparr> no_tunnels = Ret (Inr fm, g')
    \<and> own_pod (set [web_pod]) ''apps'' ann_web (fm_namespace fm) (fm_pod fm)"
proof -
  obtain fm g' where o: "OpenTunnel (label_Resolve (ref_list [web_pod]) ''apps'') None (\<lambda>_ _. None) None ann_web
      \<lparr>DestAddr = ''localhost'', DestPort = 8080, OriginAddr = ''127.0.0.1'', OriginPort = 4\<rparr> no_tunnels = Ret (Inr fm, g')"
    by (auto simp: OpenTunnel_def ann_resolves NewForwardManager_def)
  from tunnels_isolated [OF ref_cluster.pod_lister_axioms _ o rtranclp.rtrancl_refl] show ?thesis
    using o by (auto simp: ann_web_def no_identity_def label_value_def label_char_def alnum_def byte_in_def)
qed

text \<open>C34. Accounting: each handler opens at most one stream, and leaves every gauge as it found it,
  however it ends.\<close>

theorem gauges_balanced:
  shows "(HandleShell cl resolve identity = Ret (r, effs) \<longrightarrow> gauge_value g effs = 0 \<and> length (streams effs) \<le> 1)
    \<and> (HandleExec cl resolve identity command = Ret (r, effs) \<longrightarrow> gauge_value g effs = 0 \<and> length (streams effs) \<le> 1)
    \<and> (HandleSFTP cl resolve got events identity = Ret (r', effs) \<longrightarrow> gauge_value g effs = 0 \<and> length (streams effs) \<le> 1)"
proof -
  have exec: "gauge_value g effs = 0 \<and> length (streams effs) \<le> 1" if "exec_in cl t tty = (r, effs)" for t tty
    using that by (auto simp: exec_in_def gauged_stream_def split: sum.splits)
  have "gauge_value g effs = 0 \<and> length (streams effs) \<le> 1" if "sftp_in cl got events t = (r', effs)" for t
    using sftp_in_streams [OF that, of g] by auto
  with exec show ?thesis
    by (auto simp: HandleShell_def HandleExec_def HandleSFTP_def dest!: with_target_Ret
        split: go.splits sum.splits option.splits)
qed

theorem gauges_balanced_witness:
  "gauge_value exec_gauge [GaugeInc exec_gauge, Stream ls_exec, GaugeDec exec_gauge] = 0"
proof -
  have "splitArgs ''ls -l'' = [''ls'', ''-l'']" by code_simp
  then have e: "HandleExec calm_cluster (\<lambda>_. Ret (Inr (Some \<lparr>t_Pod = ''web-1'', t_Namespace = ''apps'',
      t_Container = ''main'', t_Command = [''/bin/sh'']\<rparr>))) ann_web [''ls -l'']
      = Ret (None, [GaugeInc exec_gauge, Stream ls_exec, GaugeDec exec_gauge])"
    by (simp add: HandleExec_def with_target_def exec_in_def remoteExec_def calm_cluster_def
        gauged_stream_def ls_exec_def Let_def)
  from gauges_balanced [of calm_cluster _ ann_web None _ exec_gauge "[''ls -l'']"] e show ?thesis by blast
qed

text \<open>C35. SFTP waits for its agent. Whatever happens, the pod that was resolved is patched at most once, only
  when it has no agent yet, and only with the agent appended to what it has. A file-transfer stream is only
  opened after a read of the pod that showed the agent running; and then what was done is exactly this: the
  patch, if there was no agent, and one stream to the agent between the two movements of its gauge.\<close>

theorem sftp_needs_agent:
  assumes "HandleSFTP cl resolve got events identity = Ret (r, effs)"
  shows "(patches effs = [] \<or> (\<exists>pod t. got = Inr pod \<and> resolve identity = Ret (Inr (Some t))
        \<and> \<not> list_ex (\<lambda>ec. ec_Name ec = agent_name) (ap_Ephemeral pod) \<and> patches effs = [agent_patch cl pod t]))
    \<and> (streams effs \<noteq> [] \<longrightarrow>
        (\<exists>pod. AgentTick (Inr pod) \<in> set events \<and> (agent_name, StateRunning) \<in> set (ap_Statuses pod))
        \<and> (\<exists>pod t. got = Inr pod \<and> resolve identity = Ret (Inr (Some t))
             \<and> effs = (if list_ex (\<lambda>ec. ec_Name ec = agent_name) (ap_Ephemeral pod) then []
                       else [agent_patch cl pod t])
                    @ [GaugeInc sftp_gauge, Stream (sftp_exec t), GaugeDec sftp_gauge]))"
proof -
  have none: ?thesis if "effs = []" using that by (simp add: patches_def)
  have some: ?thesis if t: "resolve identity = Ret (Inr (Some t))" "sftp_in cl got events t = (r, effs)" for t
  proof -
    have "streams effs \<noteq> [] \<longrightarrow> waitForAgentReady events = Some None"
      using sftp_in_streams [OF t(2)] by auto
    with wait_ready [of events] t show ?thesis
      by (cases got)
         (auto simp: sftp_in_def ensureAgentContainer_def gauged_stream_def agent_patch_def patches_def Let_def
           split: if_splits option.splits prod.splits)
  qed
  from assms none some show ?thesis
    by (auto simp: HandleSFTP_def split: go.splits sum.splits option.splits)
qed

definition agent_up :: agent_pod where
  "agent_up = \<lparr>ap_Ephemeral = [], ap_Statuses = [(agent_name, StateRunning)]\<rparr>"

theorem sftp_needs_agent_witness:
  "\<exists>r effs. HandleSFTP calm_cluster (label_Resolve (ref_list [web_pod]) ''apps'')
      (Inr \<lparr>ap_Ephemeral = [], ap_Statuses = []\<rparr>) [AgentTick (Inr agent_up)] ann_web = Ret (r, effs)
    \<and> streams effs \<noteq> [] \<and> patches effs = [Patch ''apps'' ''web-1'' [agent_container calm_cluster ''main'']]"
proof -
  let ?t = "\<lparr>t_Pod = ''web-1'', t_Namespace = ''apps'', t_Container = ''main'', t_Command = [''/bin/sh'']\<rparr>"
  have h: "HandleSFTP calm_cluster (label_Resolve (ref_list [web_pod]) ''apps'')
      (Inr \<lparr>ap_Ephemeral = [], ap_Statuses = []\<rparr>) [AgentTick (Inr agent_up)] ann_web
    = Ret (Some None, [Patch ''apps'' ''web-1'' [agent_container calm_cluster ''main''],
        GaugeInc sftp_gauge, Stream (sftp_exec ?t), GaugeDec sftp_gauge])"
    by (simp add: HandleSFTP_def ann_resolves sftp_in_def ensureAgentContainer_def calm_cluster_def agent_up_def
        agentRunning_def gauged_stream_def Let_def)
  from sftp_needs_agent [OF h] have "patches [Patch ''apps'' ''web-1'' [agent_container calm_cluster ''main''],
        GaugeInc sftp_gauge, Stream (sftp_exec ?t), GaugeDec sftp_gauge] \<noteq> [] \<longrightarrow>
      patches [Patch ''apps'' ''web-1'' [agent_container calm_cluster ''main''],
        GaugeInc sftp_gauge, Stream (sftp_exec ?t), GaugeDec sftp_gauge]
      = [Patch ''apps'' ''web-1'' [agent_container calm_cluster ''main'']]"
    by (auto simp: ann_resolves agent_patch_def)
  with h show ?thesis by (simp add: patches_def)
qed

text \<open>An agent that has terminated without giving a reason is waited for like one that has not
  started: the wait goes on until the context is done, though the agent will never run.\<close>

theorem silent_agent_waits:
  assumes "\<forall>e \<in> set es. e = AgentTick (Inr \<lparr>ap_Ephemeral = ecs, ap_Statuses = [(agent_name, StateTerminated [])]\<rparr>)"
  shows "waitForAgentReady es = None"
  using assms by (induction es) (auto simp: agentRunning_def)

theorem silent_agent_waits_witness:
  "waitForAgentReady (replicate 1000 (AgentTick (Inr \<lparr>ap_Ephemeral = [],
     ap_Statuses = [(agent_name, StateTerminated [])]\<rparr>))) = None"
  by (rule silent_agent_waits) simp

text \<open>C40. Terminal sizes reach the pod modulo 2 to the 16: exactly when they fit.\<close>

theorem resize_exact_iff:
  assumes "resize_ok ev"
  shows "(\<exists>ts. resize_Next (Some ev) = Some ts \<and> uint (ts_Width ts) = Width ev \<and> uint (ts_Height ts) = Height ev)
    \<longleftrightarrow> Width ev < 2 ^ 16 \<and> Height ev < 2 ^ 16"
proof -
  have "uint (word_of_int n :: 16 word) = n \<longleftrightarrow> n < 2 ^ 16" if "0 \<le> n" for n
    using that unsigned_less [of "word_of_int n :: 16 word", where 'a = int]
    by (auto simp: unsigned_of_int take_bit_int_eq_self_iff)
  with assms show ?thesis by (simp add: resize_Next_def resize_ok_def)
qed

theorem resize_exact_iff_witness:
  "\<exists>ts. resize_Next (Some \<lparr>Width = 80, Height = 24\<rparr>) = Some ts \<and> uint (ts_Width ts) = 80 \<and> uint (ts_Height ts) = 24"
  using resize_exact_iff [of "\<lparr>Width = 80, Height = 24\<rparr>"] by (simp add: resize_ok_def)

end
