(* ===== verification/Validate.thy ===== *)
theory Validate
  imports Prelude
begin

text \<open>
  \<open>internal/k8s/validate/validator.go\<close>: the check at start-up that the server has the permissions it
  needs. The access review of the cluster is a parameter.
\<close>

record permission =
  p_Verb :: string
  p_Resource :: string
  p_Subresource :: string
  p_Namespace :: string

definition perm :: "string \<Rightarrow> string \<Rightarrow> string \<Rightarrow> string \<Rightarrow> permission" where
  "perm verb resource sub ns =
     \<lparr>p_Verb = verb, p_Resource = resource, p_Subresource = sub, p_Namespace = ns\<rparr>"

definition required :: "string \<Rightarrow> permission list" where
  "required ns =
     [perm ''get'' ''pods'' [] ns, perm ''list'' ''pods'' [] ns, perm ''watch'' ''pods'' [] ns,
      perm ''create'' ''pods'' ''exec'' ns, perm ''create'' ''pods'' ''portforward'' ns,
      perm ''update'' ''pods'' ''ephemeralcontainers'' ns,
      perm ''patch'' ''pods'' ''ephemeralcontainers'' ns]"

definition canI :: "(permission \<Rightarrow> gerror + bool) \<Rightarrow> permission \<Rightarrow> gerror + bool" where
  "canI review p =
     (case review p of
        Inl err \<Rightarrow> Inl (Wrapped ''authorization check failed'' err)
      | Inr allowed \<Rightarrow> Inr allowed)"

definition missing :: "permission \<Rightarrow> gerror" where
  "missing p = Dynamic (''missing permission: '' @ p_Verb p @ '' '' @ p_Resource p @ ''/'' @
     p_Subresource p @ '' in namespace '' @ p_Namespace p)"

fun validate_all :: "(permission \<Rightarrow> gerror + bool) \<Rightarrow> permission list \<Rightarrow> gerror option" where
  "validate_all review [] = None"
| "validate_all review (p # ps) =
     (case canI review p of
        Inl err \<Rightarrow> Some err
      | Inr ok \<Rightarrow> if \<not> ok then Some (missing p) else validate_all review ps)"

definition ValidatePermissions :: "string \<Rightarrow> (permission \<Rightarrow> gerror + bool) \<Rightarrow> gerror option" where
  "ValidatePermissions ns review = validate_all review (required ns)"

lemma validate_all_None: "validate_all review ps = None \<longleftrightarrow> (\<forall>p \<in> set ps. review p = Inr True)"
  by (induction ps) (auto simp: canI_def split: sum.splits)

lemma validate_all_first:
  "validate_all review (ps @ p # qs) = Some (missing p)"
  if "\<forall>q \<in> set ps. review q = Inr True" "review p = Inr False"
  using that by (induction ps) (auto simp: canI_def)

text \<open>C38. The check passes exactly when every permission is allowed: reading, listing and watching
  pods, exec, port forwards, and updating and patching ephemeral containers; and where one is denied
  after others that are allowed, the error names it.\<close>

theorem validate_permissions:
  shows "(ValidatePermissions ns review = None \<longleftrightarrow>
      (\<forall>(v, s) \<in> set [(''get'', []), (''list'', []), (''watch'', []), (''create'', ''exec''),
          (''create'', ''portforward''), (''update'', ''ephemeralcontainers''), (''patch'', ''ephemeralcontainers'')].
        review (perm v ''pods'' s ns) = Inr True))
    \<and> (\<forall>ps p qs. required ns = ps @ p # qs \<longrightarrow> (\<forall>q \<in> set ps. review q = Inr True) \<longrightarrow> review p = Inr False \<longrightarrow>
        ValidatePermissions ns review = Some (missing p))"
proof
  show "ValidatePermissions ns review = None \<longleftrightarrow>
      (\<forall>(v, s) \<in> set [(''get'', []), (''list'', []), (''watch'', []), (''create'', ''exec''),
          (''create'', ''portforward''), (''update'', ''ephemeralcontainers''), (''patch'', ''ephemeralcontainers'')].
        review (perm v ''pods'' s ns) = Inr True)"
    unfolding ValidatePermissions_def validate_all_None by (simp add: required_def)
  show "\<forall>ps p qs. required ns = ps @ p # qs \<longrightarrow> (\<forall>q \<in> set ps. review q = Inr True) \<longrightarrow> review p = Inr False \<longrightarrow>
        ValidatePermissions ns review = Some (missing p)"
    using validate_all_first by (simp add: ValidatePermissions_def)
qed

theorem validate_permissions_witness:
  "ValidatePermissions ''apps'' (\<lambda>p. Inr (p_Subresource p \<noteq> ''exec''))
    = Some (Dynamic ''missing permission: create pods/exec in namespace apps'')"
proof -
  let ?review = "\<lambda>p. Inr (p_Subresource p \<noteq> ''exec'')"
  have "required ''apps'' = take 3 (required ''apps'') @ perm ''create'' ''pods'' ''exec'' ''apps'' # drop 4 (required ''apps'')"
    by (simp add: required_def)
  moreover have "?review q = Inr True" if "q \<in> set (take 3 (required ''apps''))" for q
    using that by (auto simp: required_def perm_def)
  moreover have "?review (perm ''create'' ''pods'' ''exec'' ''apps'') = Inr False" by (simp add: perm_def)
  ultimately have "ValidatePermissions ''apps'' ?review = Some (missing (perm ''create'' ''pods'' ''exec'' ''apps''))"
    by (rule validate_permissions [of "''apps''" ?review, THEN conjunct2, rule_format])
  then show ?thesis by (simp add: missing_def perm_def)
qed

end
