(* ===== verification/Metrics.thy ===== *)
theory Metrics
  imports Prelude Complex_Main
begin

text \<open>
  \<open>pkg/metrics\<close> and \<open>internal/metrics/register.go\<close>: the metrics interface with its two
  implementations, the registration of the server's metrics, the health handler and the probe server.

  The locale \<open>metrics\<close> is the interface as its clients use it: a name that was registered may be
  looked up from then on. It is interpreted on the Prometheus implementation and on the one that does
  nothing. The Prometheus registry itself is a parameter, its answer to each registration. Metric
  values are exact numbers.
\<close>

section \<open>Prometheus\<close>

record prom =
  pm_counters :: "string \<rightharpoonup> rat"
  pm_gauges :: "string \<rightharpoonup> rat"
  pm_histograms :: "string \<rightharpoonup> rat list"

definition NewPrometheus :: prom where
  "NewPrometheus = \<lparr>pm_counters = Map.empty, pm_gauges = Map.empty, pm_histograms = Map.empty\<rparr>"

type_synonym registry = "string \<Rightarrow> gerror option"

definition RegisterCounter :: "registry \<Rightarrow> string \<Rightarrow> prom \<Rightarrow> gerror option \<times> prom" where
  "RegisterCounter reg name m =
     (if pm_counters m name \<noteq> None then (Some (Dynamic (''counter exists: '' @ name)), m)
      else
        (case reg name of Some err \<Rightarrow> (Some err, m)
         | None \<Rightarrow> (None, m\<lparr>pm_counters := (pm_counters m)(name \<mapsto> 0)\<rparr>)))"

definition RegisterGauge :: "registry \<Rightarrow> string \<Rightarrow> prom \<Rightarrow> gerror option \<times> prom" where
  "RegisterGauge reg name m =
     (if pm_gauges m name \<noteq> None then (Some (Dynamic (''gauge exists: '' @ name)), m)
      else
        (case reg name of Some err \<Rightarrow> (Some err, m)
         | None \<Rightarrow> (None, m\<lparr>pm_gauges := (pm_gauges m)(name \<mapsto> 0)\<rparr>)))"

definition RegisterHistogram :: "registry \<Rightarrow> string \<Rightarrow> prom \<Rightarrow> gerror option \<times> prom" where
  "RegisterHistogram reg name m =
     (if pm_histograms m name \<noteq> None then (Some (Dynamic (''histogram exists: '' @ name)), m)
      else
        (case reg name of Some err \<Rightarrow> (Some err, m)
         | None \<Rightarrow> (None, m\<lparr>pm_histograms := (pm_histograms m)(name \<mapsto> [])\<rparr>)))"

text \<open>Looking a metric up and moving it; an unknown name panics.\<close>

definition counter_Add :: "string \<Rightarrow> rat \<Rightarrow> prom \<Rightarrow> prom go" where
  "counter_Add name v m =
     (case pm_counters m name of
        None \<Rightarrow> Panic (''counter not found: '' @ name)
      | Some x \<Rightarrow> Ret (m\<lparr>pm_counters := (pm_counters m)(name \<mapsto> x + v)\<rparr>))"

definition gauge_Set :: "string \<Rightarrow> rat \<Rightarrow> prom \<Rightarrow> prom go" where
  "gauge_Set name v m =
     (case pm_gauges m name of
        None \<Rightarrow> Panic (''gauge not found: '' @ name)
      | Some x \<Rightarrow> Ret (m\<lparr>pm_gauges := (pm_gauges m)(name \<mapsto> v)\<rparr>))"

definition gauge_Add :: "string \<Rightarrow> rat \<Rightarrow> prom \<Rightarrow> prom go" where
  "gauge_Add name v m =
     (case pm_gauges m name of
        None \<Rightarrow> Panic (''gauge not found: '' @ name)
      | Some x \<Rightarrow> Ret (m\<lparr>pm_gauges := (pm_gauges m)(name \<mapsto> x + v)\<rparr>))"

definition histogram_Observe :: "string \<Rightarrow> rat \<Rightarrow> prom \<Rightarrow> prom go" where
  "histogram_Observe name v m =
     (case pm_histograms m name of
        None \<Rightarrow> Panic (''histogram not found: '' @ name)
      | Some xs \<Rightarrow> Ret (m\<lparr>pm_histograms := (pm_histograms m)(name \<mapsto> xs @ [v])\<rparr>))"

definition counter_Inc :: "string \<Rightarrow> prom \<Rightarrow> prom go" where
  "counter_Inc name m = counter_Add name 1 m"

definition gauge_Inc :: "string \<Rightarrow> prom \<Rightarrow> prom go" where
  "gauge_Inc name m = gauge_Add name 1 m"

definition gauge_Dec :: "string \<Rightarrow> prom \<Rightarrow> prom go" where
  "gauge_Dec name m = gauge_Add name (- 1) m"

section \<open>The implementation that does nothing\<close>

definition noop_Register :: "string \<Rightarrow> unit \<Rightarrow> gerror option \<times> unit" where
  "noop_Register name m = (None, ())"

definition noop_Add :: "string \<Rightarrow> rat \<Rightarrow> unit \<Rightarrow> unit go" where
  "noop_Add name v m = Ret ()"

section \<open>The interface\<close>

text \<open>
  Registering a counter or a gauge and adding to one. A metric stays usable once it is, whatever
  happens to others, and is usable after it has been registered.
\<close>

locale metrics =
  fixes reg_counter :: "string \<Rightarrow> 'm \<Rightarrow> gerror option \<times> 'm"
    and reg_gauge :: "string \<Rightarrow> 'm \<Rightarrow> gerror option \<times> 'm"
    and add_counter :: "string \<Rightarrow> rat \<Rightarrow> 'm \<Rightarrow> 'm go"
    and add_gauge :: "string \<Rightarrow> rat \<Rightarrow> 'm \<Rightarrow> 'm go"
    and has_counter :: "'m \<Rightarrow> string \<Rightarrow> bool"
    and has_gauge :: "'m \<Rightarrow> string \<Rightarrow> bool"
  assumes counter_known: "has_counter m n \<Longrightarrow> \<exists>m'. add_counter n v m = Ret m'"
    and gauge_known: "has_gauge m n \<Longrightarrow> \<exists>m'. add_gauge n v m = Ret m'"
    and reg_counter_has: "has_counter (snd (reg_counter n m)) n"
    and reg_gauge_has: "has_gauge (snd (reg_gauge n m)) n"
    and reg_counter_keeps: "has_counter m k \<Longrightarrow> has_counter (snd (reg_counter n m)) k"
      "has_gauge m k \<Longrightarrow> has_gauge (snd (reg_counter n m)) k"
    and reg_gauge_keeps: "has_counter m k \<Longrightarrow> has_counter (snd (reg_gauge n m)) k"
      "has_gauge m k \<Longrightarrow> has_gauge (snd (reg_gauge n m)) k"
    and add_counter_keeps: "add_counter n v m = Ret m' \<Longrightarrow> has_counter m' k = has_counter m k"
      "add_counter n v m = Ret m' \<Longrightarrow> has_gauge m' k = has_gauge m k"
    and add_gauge_keeps: "add_gauge n v m = Ret m' \<Longrightarrow> has_counter m' k = has_counter m k"
      "add_gauge n v m = Ret m' \<Longrightarrow> has_gauge m' k = has_gauge m k"

text \<open>Moving a series of metrics: a counter or a gauge by name, by an amount.\<close>

datatype move = MoveCounter string rat | MoveGauge string rat

fun moves :: "(string \<Rightarrow> rat \<Rightarrow> 'm \<Rightarrow> 'm go) \<Rightarrow> (string \<Rightarrow> rat \<Rightarrow> 'm \<Rightarrow> 'm go) \<Rightarrow> move list \<Rightarrow> 'm \<Rightarrow> 'm go" where
  "moves add_c add_g [] m = Ret m"
| "moves add_c add_g (MoveCounter n v # ms) m = go_bind (add_c n v m) (moves add_c add_g ms)"
| "moves add_c add_g (MoveGauge n v # ms) m = go_bind (add_g n v m) (moves add_c add_g ms)"

fun move_known :: "string set \<Rightarrow> string set \<Rightarrow> move \<Rightarrow> bool" where
  "move_known cs gs (MoveCounter n v) = (n \<in> cs)"
| "move_known cs gs (MoveGauge n v) = (n \<in> gs)"

text \<open>Registering all of a list of names, errors ignored.\<close>

fun register_all :: "(string \<Rightarrow> 'm \<Rightarrow> gerror option \<times> 'm) \<Rightarrow> string list \<Rightarrow> 'm \<Rightarrow> 'm" where
  "register_all reg [] m = m"
| "register_all reg (n # ns) m = register_all reg ns (snd (reg n m))"

context metrics
begin

lemma register_counters:
  "(n \<in> set ns \<or> has_counter m n) \<Longrightarrow> has_counter (register_all reg_counter ns m) n"
  by (induction ns arbitrary: m) (auto intro: reg_counter_has reg_counter_keeps)

lemma register_counters_gauge: "has_gauge m n \<Longrightarrow> has_gauge (register_all reg_counter ns m) n"
  by (induction ns arbitrary: m) (auto intro: reg_counter_keeps)

lemma register_gauges:
  "(n \<in> set ns \<or> has_gauge m n) \<Longrightarrow> has_gauge (register_all reg_gauge ns m) n"
  by (induction ns arbitrary: m) (auto intro: reg_gauge_has reg_gauge_keeps)

lemma register_gauges_counter: "has_counter m n \<Longrightarrow> has_counter (register_all reg_gauge ns m) n"
  by (induction ns arbitrary: m) (auto intro: reg_gauge_keeps)

lemma moves_safe:
  assumes "\<forall>n \<in> cs. has_counter m n" "\<forall>n \<in> gs. has_gauge m n" "list_all (move_known cs gs) ms"
  shows "\<exists>m'. moves add_counter add_gauge ms m = Ret m'"
  using assms
proof (induction ms arbitrary: m)
  case (Cons x ms)
  show ?case
  proof (cases x)
    case (MoveCounter n v)
    with Cons.prems obtain m1 where m1: "add_counter n v m = Ret m1" using counter_known by fastforce
    with Cons.IH [of m1] Cons.prems MoveCounter add_counter_keeps [OF m1] show ?thesis by auto
  next
    case (MoveGauge n v)
    with Cons.prems obtain m1 where m1: "add_gauge n v m = Ret m1" using gauge_known by fastforce
    with Cons.IH [of m1] Cons.prems MoveGauge add_gauge_keeps [OF m1] show ?thesis by auto
  qed
qed simp

end

definition prom_has_counter :: "prom \<Rightarrow> string \<Rightarrow> bool" where
  "prom_has_counter m n \<longleftrightarrow> n \<in> dom (pm_counters m)"

definition prom_has_gauge :: "prom \<Rightarrow> string \<Rightarrow> bool" where
  "prom_has_gauge m n \<longleftrightarrow> n \<in> dom (pm_gauges m)"

interpretation prometheus: metrics "RegisterCounter (\<lambda>_. None)" "RegisterGauge (\<lambda>_. None)"
  counter_Add gauge_Add prom_has_counter prom_has_gauge
  by unfold_locales
     (auto simp: RegisterCounter_def RegisterGauge_def counter_Add_def gauge_Add_def prom_has_counter_def
        prom_has_gauge_def split: option.splits if_splits)

interpretation noop: metrics noop_Register noop_Register noop_Add noop_Add "\<lambda>_ _. True" "\<lambda>_ _. True"
  by unfold_locales (simp_all add: noop_Add_def)

section \<open>The server's metrics\<close>

definition sshd_counters :: "string list" where
  "sshd_counters = [''podsh_successful_auth'', ''podsh_failed_auth'']"

definition k8s_gauges :: "string list" where
  "k8s_gauges = [''podsh_k8s_active_exec_streams'', ''podsh_k8s_active_tunnel_forwards'',
     ''podsh_k8s_active_tunnel_streams'', ''podsh_k8s_active_sftp_streams'']"

definition RegisterSSHdMetrics :: "registry \<Rightarrow> prom \<Rightarrow> prom" where
  "RegisterSSHdMetrics reg m = register_all (RegisterCounter reg) sshd_counters m"

definition RegisterK8sMetrics :: "registry \<Rightarrow> prom \<Rightarrow> prom" where
  "RegisterK8sMetrics reg m = register_all (RegisterGauge reg) k8s_gauges m"

section \<open>Health\<close>

text \<open>
  The status and body the health handler writes: the first failing check, or "ok". \<open>http.Error\<close> ends
  the message with a newline.
\<close>

fun Health_Handler :: "gerror option list \<Rightarrow> nat \<times> string" where
  "Health_Handler [] = (200, ''ok'')"
| "Health_Handler (Some err # cs) = (503, error_text err @ [CHR 0x0A])"
| "Health_Handler (None # cs) = Health_Handler cs"

text \<open>The routes of the probe server; an option without its part adds none.\<close>

datatype 'h probe_option = WithMetrics "'h option" | WithHealth "'h option" | WithReadiness "'h option" | WithLiveness "'h option"

fun apply_option :: "'h probe_option \<Rightarrow> (string \<times> 'h) list \<Rightarrow> (string \<times> 'h) list" where
  "apply_option (WithMetrics p) rs = (case p of None \<Rightarrow> rs | Some h \<Rightarrow> rs @ [(''/metrics'', h)])"
| "apply_option (WithHealth p) rs = (case p of None \<Rightarrow> rs | Some h \<Rightarrow> rs @ [(''/healthz'', h)])"
| "apply_option (WithReadiness p) rs = (case p of None \<Rightarrow> rs | Some h \<Rightarrow> rs @ [(''/readyz'', h)])"
| "apply_option (WithLiveness p) rs = (case p of None \<Rightarrow> rs | Some h \<Rightarrow> rs @ [(''/livez'', h)])"

definition NewServer :: "'h probe_option list \<Rightarrow> (string \<times> 'h) list" where
  "NewServer opts = fold apply_option opts []"

text \<open>\<open>ListenAndServe\<close> of the probe server: the end of the context, or the end of the listener.\<close>

datatype probe_event = ProbeCtxDone gerror | ProbeExit gerror

definition probe_ListenAndServe :: "probe_event \<Rightarrow> gerror" where
  "probe_ListenAndServe ev = (case ev of ProbeCtxDone err \<Rightarrow> err | ProbeExit err \<Rightarrow> err)"

section \<open>Properties\<close>

text \<open>No panic on a metric: once both registrations have been made (twice or more, as the profiles
  and the server do), moving any of the six metrics the server uses returns, any number of times.\<close>

theorem metrics_ready:
  assumes "m = RegisterK8sMetrics (\<lambda>_. None) (RegisterSSHdMetrics (\<lambda>_. None) m0)
      \<or> m = RegisterSSHdMetrics (\<lambda>_. None) (RegisterK8sMetrics (\<lambda>_. None) (RegisterSSHdMetrics (\<lambda>_. None) m0))"
    and "list_all (move_known (set sshd_counters) (set k8s_gauges)) ms"
  shows "\<exists>m'. moves counter_Add gauge_Add ms m = Ret m'"
proof (rule prometheus.moves_safe [OF _ _ assms(2)])
  show "\<forall>n \<in> set sshd_counters. prom_has_counter m n" "\<forall>n \<in> set k8s_gauges. prom_has_gauge m n"
    using assms(1) prometheus.register_counters prometheus.register_gauges
      prometheus.register_counters_gauge prometheus.register_gauges_counter
    unfolding RegisterK8sMetrics_def RegisterSSHdMetrics_def by blast+
qed

theorem metrics_ready_witness:
  "\<exists>m'. moves counter_Add gauge_Add
      [MoveCounter ''podsh_failed_auth'' 1, MoveGauge ''podsh_k8s_active_exec_streams'' 1]
      (RegisterK8sMetrics (\<lambda>_. None) (RegisterSSHdMetrics (\<lambda>_. None) NewPrometheus)) = Ret m'"
  using metrics_ready [of _ NewPrometheus "[MoveCounter ''podsh_failed_auth'' 1, MoveGauge ''podsh_k8s_active_exec_streams'' 1]"]
  by (simp add: sshd_counters_def k8s_gauges_def)

text \<open>Registering again changes nothing, so that counts survive it; a metric that was never
  registered panics when it is looked up, as the gauges of the pods do if only the SSH metrics were
  registered.\<close>

theorem metrics_register_again:
  shows "RegisterSSHdMetrics (\<lambda>_. None) (RegisterSSHdMetrics (\<lambda>_. None) m) = RegisterSSHdMetrics (\<lambda>_. None) m
    \<and> gauge_Inc ''podsh_k8s_active_exec_streams'' (RegisterSSHdMetrics (\<lambda>_. None) NewPrometheus)
        = Panic ''gauge not found: podsh_k8s_active_exec_streams''"
proof
  have known: "RegisterCounter r n m = (Some (Dynamic (''counter exists: '' @ n)), m)" if "prom_has_counter m n" for r n m
    using that by (auto simp: RegisterCounter_def prom_has_counter_def)
  have "register_all (RegisterCounter r) ns m = m" if "\<forall>n \<in> set ns. prom_has_counter m n" for r ns m
    using that by (induction ns) (simp_all add: known)
  then show "RegisterSSHdMetrics (\<lambda>_. None) (RegisterSSHdMetrics (\<lambda>_. None) m) = RegisterSSHdMetrics (\<lambda>_. None) m"
    using prometheus.register_counters [of _ sshd_counters m]
    by (auto simp: RegisterSSHdMetrics_def)
  show "gauge_Inc ''podsh_k8s_active_exec_streams'' (RegisterSSHdMetrics (\<lambda>_. None) NewPrometheus)
      = Panic ''gauge not found: podsh_k8s_active_exec_streams''"
    by (simp add: RegisterSSHdMetrics_def sshd_counters_def RegisterCounter_def NewPrometheus_def
        gauge_Inc_def gauge_Add_def)
qed

text \<open>A probe answers 200 exactly when all its checks pass, and else 503 with the first failure.\<close>

theorem health_status:
  shows "fst (Health_Handler cs) = (if list_all (\<lambda>c. c = None) cs then 200 else 503)
    \<and> snd (Health_Handler cs) = (case find (\<lambda>c. c \<noteq> None) cs of Some (Some e) \<Rightarrow> error_text e @ [CHR 0x0A] | _ \<Rightarrow> ''ok'')"
  by (induction cs rule: Health_Handler.induct) auto

end
