(* ===== verification/Listen.thy ===== *)
theory Listen
  imports Redis_Limiter Mono_Limiter Tarpit
begin

text \<open>
  The accept loop, \<open>ListenAndServe\<close> of \<open>internal/sshd/listen.go\<close>: each accepted connection is closed,
  put into the tarpit or served, as its key and the limiter have it. The limiter is any function of
  the interface of \<open>Limiter\<close>; the key of a connection is the answer of the hasher (\<open>Key_Hash\<close>). The
  errgroup has no limit, so \<open>TryGo\<close> does not fail; the waiting loop around it is \<open>next_backoff\<close>.
\<close>

definition context_Canceled :: gerror where
  "context_Canceled = Sentinel ''context canceled''"

text \<open>What \<open>Accept\<close> answers: an error, with the context's error at that time, or a connection with its key.\<close>

datatype accept = AcceptError "gerror option" | NewConn conn "string option"

datatype outcome = Served conn "string option" | ClosedNow conn | Tarpitted conn int

definition listen_conn ::
    "'s allow_fun option \<Rightarrow> int \<Rightarrow> conn \<Rightarrow> string option \<Rightarrow> 's \<times> tarpit \<Rightarrow> outcome \<times> 's \<times> tarpit" where
  "listen_conn rlim now c hashed st =
     (case rlim of
        None \<Rightarrow> (Served c hashed, st)
      | Some allow \<Rightarrow>
          (case hashed of
             None \<Rightarrow> (ClosedNow c, st)
           | Some key \<Rightarrow>
               let (res, s') = allow now key (fst st)
               in if Decision res = DecisionDeny then
                    (if RetryAfter res > 0 then (Tarpitted c (RetryAfter res), s', Add c (RetryAfter res) (snd st))
                     else (ClosedNow c, s', snd st))
                  else (Served c hashed, s', snd st)))"

text \<open>The loop: what became of each connection, and the result once \<open>Accept\<close> fails for the context.\<close>

fun accept_loop ::
    "'s allow_fun option \<Rightarrow> (int \<times> accept) list \<Rightarrow> 's \<times> tarpit \<Rightarrow>
     outcome list \<times> gerror option \<times> 's \<times> tarpit" where
  "accept_loop rlim [] st = ([], None, st)"
| "accept_loop rlim ((now, AcceptError (Some err)) # es) st = ([], Some err, st)"
| "accept_loop rlim ((now, AcceptError None) # es) st = accept_loop rlim es st"
| "accept_loop rlim ((now, NewConn c hashed) # es) st =
     (let (o1, st1) = listen_conn rlim now c hashed st;
          (os, r, st2) = accept_loop rlim es st1
      in (o1 # os, r, st2))"

text \<open>The wait between two attempts to start a goroutine, in milliseconds.\<close>

definition next_backoff :: "int \<Rightarrow> int" where
  "next_backoff ms = max (ms * 2) 500"

text \<open>
  The group: what the goroutines of the connections and of the loop return, in the order in which
  they do; \<open>Wait\<close> gives the first error.
\<close>

datatype completion = HandleDone "gerror option" | AcceptDone "gerror option"

definition completion_error :: "completion \<Rightarrow> gerror option" where
  "completion_error d =
     (case d of
        AcceptDone err \<Rightarrow> err
      | HandleDone err \<Rightarrow> (if opt_is err context_Canceled then None else err))"

definition eg_wait :: "gerror option list \<Rightarrow> gerror option" where
  "eg_wait rs = (case filter (\<lambda>r. r \<noteq> None) rs of [] \<Rightarrow> None | r # _ \<Rightarrow> r)"

definition sshd_ListenAndServe :: "gerror option \<Rightarrow> completion list \<Rightarrow> gerror option" where
  "sshd_ListenAndServe listen_err done =
     (case listen_err of Some err \<Rightarrow> Some err | None \<Rightarrow> eg_wait (map completion_error done))"

section \<open>Accounting\<close>

fun outcome_conn :: "outcome \<Rightarrow> conn" where
  "outcome_conn (Served c k) = c"
| "outcome_conn (ClosedNow c) = c"
| "outcome_conn (Tarpitted c d) = c"

text \<open>The connections accepted before the loop ends, and the calls of the limiter they make.\<close>

fun accepted :: "(int \<times> accept) list \<Rightarrow> conn list" where
  "accepted [] = []"
| "accepted ((now, AcceptError (Some err)) # es) = []"
| "accepted ((now, AcceptError None) # es) = accepted es"
| "accepted ((now, NewConn c hashed) # es) = c # accepted es"

fun limiter_calls :: "(int \<times> accept) list \<Rightarrow> (int \<times> string) list" where
  "limiter_calls [] = []"
| "limiter_calls ((now, AcceptError (Some err)) # es) = []"
| "limiter_calls ((now, AcceptError None) # es) = limiter_calls es"
| "limiter_calls ((now, NewConn c None) # es) = limiter_calls es"
| "limiter_calls ((now, NewConn c (Some key)) # es) = (now, key) # limiter_calls es"

definition served_count :: "string \<Rightarrow> outcome list \<Rightarrow> nat" where
  "served_count key os = length (filter (\<lambda>r. \<exists>c. r = Served c (Some key)) os)"

lemma served_count_simps [simp]:
  "served_count key [] = 0"
  "served_count key (Served c k # os) = of_bool (k = Some key) + served_count key os"
  "served_count key (ClosedNow c # os) = served_count key os"
  "served_count key (Tarpitted c d # os) = served_count key os"
  by (simp_all add: served_count_def)

lemma decision_cases: "d \<noteq> DecisionDeny \<longleftrightarrow> d = DecisionAllow"
  by (cases d) simp_all

text \<open>The loop is the limiter run on its calls.\<close>

lemma served_is_allowed:
  "served_count key (fst (accept_loop (Some allow) es (s, tp))) = count_allowed allow s key (limiter_calls es)
   \<and> fst (snd (snd (accept_loop (Some allow) es (s, tp)))) = snd (run_calls allow s (limiter_calls es))"
proof (induction es arbitrary: s tp)
  case (Cons e es)
  obtain now a where e: "e = (now, a)" by (cases e)
  show ?case
  proof (cases a)
    case (AcceptError err)
    with Cons e show ?thesis by (cases err) simp_all
  next
    case (NewConn c hashed)
    show ?thesis
    proof (cases hashed)
      case None
      with Cons.IH [of s tp] NewConn e show ?thesis
        by (simp add: listen_conn_def case_prod_unfold Let_def)
    next
      case (Some k)
      obtain res s' where r: "allow now k s = (res, s')" by (cases "allow now k s")
      from Cons.IH [of s'] r show ?thesis
        by (auto simp: e NewConn Some listen_conn_def case_prod_unfold Let_def decision_cases
            count_allowed_Cons [where allow = allow, OF r])
    qed
  qed
qed simp

section \<open>Properties\<close>

text \<open>Every connection accepted meets exactly one fate, in order. With a limiter, a connection is
  served only if it was hashed; and one is put into the tarpit with the limiter's delay, which is
  positive.\<close>

theorem listen_accounts:
  assumes "accept_loop rlim es (s, tp) = (os, r, s', tp')"
  shows "map outcome_conn os = accepted es
    \<and> list_all (\<lambda>x. case x of Tarpitted c d \<Rightarrow> 0 < d \<and> rlim \<noteq> None
        | Served c k \<Rightarrow> rlim = None \<or> k \<noteq> None | ClosedNow c \<Rightarrow> rlim \<noteq> None) os"
  using assms
proof (induction es arbitrary: s tp os)
  case (Cons e es)
  obtain now a where e: "e = (now, a)" by (cases e)
  show ?case
  proof (cases a)
    case (AcceptError err)
    with Cons e show ?thesis by (cases err) auto
  next
    case (NewConn c hashed)
    obtain o1 s1 tp1 where l: "listen_conn rlim now c hashed (s, tp) = (o1, s1, tp1)" by (metis surj_pair)
    obtain os1 r1 st1 where a: "accept_loop rlim es (s1, tp1) = (os1, r1, st1)" by (metis surj_pair)
    have "outcome_conn o1 = c \<and> (case o1 of Tarpitted c d \<Rightarrow> 0 < d \<and> rlim \<noteq> None
        | Served c k \<Rightarrow> rlim = None \<or> k \<noteq> None | ClosedNow c \<Rightarrow> rlim \<noteq> None)"
      using l by (auto simp: listen_conn_def Let_def split: option.splits prod.splits if_splits)
    with Cons.prems Cons.IH [of s1 tp1 os1] show ?thesis
      by (auto simp: e NewConn l a)
  qed
qed simp

theorem listen_accounts_witness:
  "\<exists>os r s' tp'. accept_loop (Some (\<lambda>now key s. (deny_result 7, s))) [(0, NewConn 1 None), (0, NewConn 2 (Some ''k''))]
      ((), NewTarpit 0) = (os, r, s', tp') \<and> map outcome_conn os = [1, 2]"
proof -
  obtain os r s' tp' where a: "accept_loop (Some (\<lambda>now key s. (deny_result 7, s)))
      [(0, NewConn 1 None), (0, NewConn 2 (Some ''k''))] ((), NewTarpit 0) = (os, r, s', tp')"
    by (metis surj_pair)
  from listen_accounts [OF a] a show ?thesis by auto
qed

lemma served_after:
  assumes "accept_loop (Some allow) past (s, tp) = (os0, r0, s', tp')"
    and "accept_loop (Some allow) es (s', tp') = (os, r, s'', tp'')"
  shows "served_count key os = count_allowed allow (snd (run_calls allow s (limiter_calls past))) key (limiter_calls es)"
  using served_is_allowed [of key allow past s tp] served_is_allowed [of key allow es s' tp'] assms by simp

text \<open>In the arithmetic of the script's doubles.\<close>

lemma served_bound_float:
  fixes kv_get :: "'s \<Rightarrow> int \<Rightarrow> string \<Rightarrow> rat option"
  assumes "kv_store kv_get kv_set"
    and "512 < gcra_interval f64 rate" "0 \<le> gcra_offset f64 rate (f64 (of_int burst))" "0 < dur_millis ttl"
    and "gcra_offset f64 rate (f64 (of_int burst)) + 512 \<le> of_int (dur_millis ttl * nanos_per_milli)"
    and "of_int t1 + gcra_offset f64 rate (f64 (of_int burst)) + gcra_interval f64 rate + 1024 < 2 ^ 62"
    and "\<And>k. kv_get s s0 k = None" "- t1 \<le> s0"
    and "allow = redis_Allow kv_get kv_set f64 (redis_new f64 rate burst ttl) True"
    and "calls_within s0 t0 (limiter_calls past)" "calls_within t0 t1 (limiter_calls es)"
    and "accept_loop (Some allow) past (s, tp) = (os0, r0, s', tp')"
    and "accept_loop (Some allow) es (s', tp') = (os, r, s'', tp'')"
  shows "of_nat (served_count key os)
    \<le> (gcra_offset f64 rate (f64 (of_int burst)) + 512 + of_int (t1 - t0)) / (gcra_interval f64 rate - 512)"
  using gcra_window_float [OF assms(1-8,10,11), of key] served_after [OF assms(12,13), of key] assms(9) by simp

text \<open>The server's rate bound on exact numbers: behind the Redis limiter, in any window of time the accept loop
  serves a client key at most the burst plus the rate times the length of the window connections,
  whatever went on before.\<close>

theorem served_rate_bound:
  fixes kv_get :: "'s \<Rightarrow> int \<Rightarrow> string \<Rightarrow> rat option"
  assumes "kv_store kv_get kv_set"
    and "0 < rate" "0 \<le> burst" "0 < dur_millis ttl"
    and "1000000000 / rate * of_int burst \<le> of_int (dur_millis ttl * nanos_per_milli)"
    and "\<And>k. kv_get s s0 k = None"
    and "allow = redis_Allow kv_get kv_set exact (redis_new exact rate burst ttl) True"
    and "calls_within s0 t0 (limiter_calls past)" "calls_within t0 t1 (limiter_calls es)"
    and "accept_loop (Some allow) past (s, tp) = (os0, r0, s', tp')"
    and "accept_loop (Some allow) es (s', tp') = (os, r, s'', tp'')"
  shows "of_nat (served_count key os) \<le> of_int burst + rate / 1000000000 * of_int (t1 - t0)"
  using gcra_window [OF assms(1-6,8,9), of key] served_after [OF assms(10,11), of key] assms(7) by simp

theorem served_rate_bound_witness:
  "served_count ''a'' (fst (accept_loop (Some (redis_Allow ref_get ref_set exact (redis_new exact (6/5) 12 30000000000) True))
     (replicate 40 (1000000000, NewConn 5 (Some ''a''))) (Map.empty, NewTarpit 0))) \<le> 12"
proof -
  let ?allow = "redis_Allow ref_get ref_set exact (redis_new exact (6/5) 12 30000000000) True"
  have calls: "limiter_calls (replicate n (t, NewConn c (Some k))) = replicate n (t, k)" for n t c k
    by (induction n) auto
  have within: "calls_within t t (replicate n (t, k))" for t n and k :: string by (induction n) auto
  obtain os r s'' tp'' where run: "accept_loop (Some ?allow) (replicate 40 (1000000000, NewConn 5 (Some ''a'')))
      (Map.empty, NewTarpit 0) = (os, r, s'', tp'')" by (metis surj_pair)
  have "of_nat (served_count ''a'' os) \<le> (12 :: rat)"
    using served_rate_bound [OF ref.kv_store_axioms _ _ _ _ _ refl _ _ _ run, where s = Map.empty and tp = "NewTarpit 0"
        and ?s0.0 = 0 and ?t0.0 = 1000000000 and ?t1.0 = 1000000000 and past = "[]" and ?os0.0 = "[]" and ?r0.0 = None
        and key = "''a''"] within
    by (simp add: dur_millis_def nanos_per_milli_def ref_get_def calls)
  then have "served_count ''a'' os \<le> 12" by (metis of_nat_le_iff of_nat_numeral)
  with run show ?thesis by simp
qed

text \<open>What a client's failure does to the shutdown: the first error any connection ended with,
  unless it is the cancellation, is what \<open>ListenAndServe\<close> returns when the server is stopped, however
  long ago it was; a clean shutdown needs every connection to have ended without one.\<close>

theorem shutdown_result:
  shows "sshd_ListenAndServe None (map HandleDone hs @ [AcceptDone (Some context_Canceled)]) =
    (case filter (\<lambda>h. h \<noteq> None \<and> \<not> opt_is h context_Canceled) hs of
       [] \<Rightarrow> Some context_Canceled | h # _ \<Rightarrow> h)"
  by (induction hs) (auto simp: sshd_ListenAndServe_def eg_wait_def completion_error_def)

text \<open>The wait grows without bound: from one millisecond to half a second, then twice as long each time.\<close>

lemma backoff_grows: "(next_backoff ^^ Suc n) 1 = 500 * 2 ^ n"
  by (induction n) (simp_all add: next_backoff_def)

end
