(* ===== verification/Logging.thy ===== *)
theory Logging
  imports Prelude
begin

text \<open>
  The log levels of \<open>log/slog\<close> and \<open>internal/profiles/logging.go\<close>.
\<close>

datatype level = LevelDebug | LevelInfo | LevelWarn | LevelError

text \<open>The levels in the order of their slog numbers.\<close>

fun level_number :: "level \<Rightarrow> int" where
  "level_number LevelDebug = - 4"
| "level_number LevelInfo = 0"
| "level_number LevelWarn = 4"
| "level_number LevelError = 8"

instantiation level :: linorder
begin

definition less_eq_level :: "level \<Rightarrow> level \<Rightarrow> bool" where
  "less_eq_level a b \<longleftrightarrow> level_number a \<le> level_number b"

definition less_level :: "level \<Rightarrow> level \<Rightarrow> bool" where
  "less_level a b \<longleftrightarrow> level_number a < level_number b"

instance
proof
  fix x y z :: level
  show "x < y \<longleftrightarrow> x \<le> y \<and> \<not> y \<le> x" "x \<le> x" "x \<le> y \<or> y \<le> x"
    by (auto simp: less_eq_level_def less_level_def)
  show "x \<le> y \<Longrightarrow> y \<le> z \<Longrightarrow> x \<le> z" by (simp add: less_eq_level_def)
  show "x \<le> y \<Longrightarrow> y \<le> x \<Longrightarrow> x = y" by (cases x; cases y) (simp_all add: less_eq_level_def)
qed

end

definition ParseLevel :: "string \<Rightarrow> level \<times> gerror option" where
  "ParseLevel s =
     (let l = str_lower s
      in if l = ''debug'' then (LevelDebug, None)
         else if l = ''info'' then (LevelInfo, None)
         else if l = ''warn'' \<or> l = ''warning'' then (LevelWarn, None)
         else if l = ''error'' then (LevelError, None)
         else (LevelInfo, Some (Dynamic (''invalid slog level: '' @ s))))"

definition MustParseLevel :: "string \<Rightarrow> level go" where
  "MustParseLevel s = (case ParseLevel s of (lvl, None) \<Rightarrow> Ret lvl | (lvl, Some err) \<Rightarrow> Panic ''invalid slog level'')"

end
