(* ===== verification/Server.thy ===== *)
theory Server
  imports Metrics Logging Identity_Codec
begin

text \<open>
  How the server is put together: the configuration and options of \<open>internal/sshd/options.go\<close>,
  \<open>New\<close> and \<open>Validate\<close> of \<open>internal/sshd/sshd.go\<close>, the same of \<open>internal/server\<close>, and \<open>Start\<close>.
  The parts that are only passed on are values of \<open>obj\<close>, one constructor for each way the program
  makes one (contexts, loggers, metrics, authenticators, limiters, hashers, resolvers, handlers); \<open>Given\<close> stands
  for what the libraries make. A nil interface is \<open>None\<close>.
\<close>

datatype obj =
    Background
  | DiscardLogger | TextLogger level | JSONLogger level
  | NoopMetrics | PrometheusMetrics
  | MapAuth bytes identity | RedisAuth
  | MonoLim rat int int | RedisLim rat int int
  | HasherOf string
  | LabelResolver obj string
  | PodHandler obj obj obj obj
  | Given nat

text \<open>\<open>NewLabelResolver\<close> and \<open>New\<close> of \<open>internal/k8s\<close>; the handler keeps client, config, resolver, metrics.\<close>

definition NewLabelResolver :: "obj \<Rightarrow> string \<Rightarrow> obj" where
  "NewLabelResolver kc ns = LabelResolver kc ns"

definition k8s_New :: "obj \<Rightarrow> obj \<Rightarrow> obj \<Rightarrow> obj \<Rightarrow> obj" where
  "k8s_New client config resolver m = PodHandler client config resolver m"

section \<open>The SSH server\<close>

record sshd_config =
  sc_Ctx :: "obj option"
  sc_Signer :: "obj option"
  sc_Auth :: "obj option"
  sc_Limiter :: "obj option"
  sc_Hasher :: "obj option"
  sc_Metrics :: "obj option"
  sc_Handler2 :: "obj option"
  sc_Logger :: "obj option"

definition sshd_DefaultConfig :: sshd_config where
  "sshd_DefaultConfig =
     \<lparr>sc_Ctx = Some Background, sc_Signer = None, sc_Auth = None, sc_Limiter = None, sc_Hasher = None,
      sc_Metrics = Some NoopMetrics, sc_Handler2 = None, sc_Logger = Some DiscardLogger\<rparr>"

type_synonym sshd_option = "sshd_config \<Rightarrow> sshd_config"

definition sshd_WithContext :: "obj option \<Rightarrow> sshd_option" where
  "sshd_WithContext ctx cfg = (if ctx = None then cfg else cfg\<lparr>sc_Ctx := ctx\<rparr>)"

definition sshd_WithLogger :: "obj option \<Rightarrow> sshd_option" where
  "sshd_WithLogger logger cfg = (if logger = None then cfg else cfg\<lparr>sc_Logger := logger\<rparr>)"

definition sshd_WithHostSigner :: "obj option \<Rightarrow> sshd_option" where
  "sshd_WithHostSigner signer cfg = cfg\<lparr>sc_Signer := signer\<rparr>"

definition sshd_WithPublicKeyAuth :: "obj option \<Rightarrow> sshd_option" where
  "sshd_WithPublicKeyAuth a cfg = cfg\<lparr>sc_Auth := a\<rparr>"

definition sshd_WithLimiter :: "obj option \<Rightarrow> sshd_option" where
  "sshd_WithLimiter l cfg = (if l = None then cfg else cfg\<lparr>sc_Limiter := l\<rparr>)"

definition sshd_WithHasher :: "obj option \<Rightarrow> sshd_option" where
  "sshd_WithHasher h cfg = (if h = None then cfg else cfg\<lparr>sc_Hasher := h\<rparr>)"

definition sshd_WithMetrics :: "obj option \<Rightarrow> sshd_option" where
  "sshd_WithMetrics m cfg = (if m = None then cfg else cfg\<lparr>sc_Metrics := m\<rparr>)"

definition sshd_WithConfig :: "sshd_config \<Rightarrow> sshd_option" where
  "sshd_WithConfig config cfg =
     (let c1 = sshd_WithLogger (sc_Logger config) (sshd_WithContext (sc_Ctx config) cfg);
          c2 = c1\<lparr>sc_Signer := sc_Signer config, sc_Auth := sc_Auth config, sc_Limiter := sc_Limiter config,
                  sc_Hasher := sc_Hasher config\<rparr>
      in (sshd_WithMetrics (sc_Metrics config) c2)\<lparr>sc_Handler2 := sc_Handler2 config\<rparr>)"

text \<open>The connector made by \<open>New\<close> has the context, the logger, the handler and the metrics.\<close>

record sshd_connector =
  cn_ctx :: "obj option"
  cn_logger :: "obj option"
  cn_handler :: "obj option"
  cn_metrics :: "obj option"
  cn_hostkey :: "obj option"

record sshd_server =
  ss_ctx :: "obj option"
  ss_logger :: "obj option"
  ss_hostSigner :: "obj option"
  ss_auth :: "obj option"
  ss_limiter :: "obj option"
  ss_hasher :: "obj option"
  ss_tarpit :: "(obj option \<times> nat) option"
  ss_metrics :: "obj option"
  ss_connector :: "sshd_connector option"

definition sshd_New :: "sshd_option list \<Rightarrow> sshd_server" where
  "sshd_New opts =
     (let cfg = fold (\<lambda>opt c. opt c) opts sshd_DefaultConfig
      in \<lparr>ss_ctx = sc_Ctx cfg, ss_logger = sc_Logger cfg, ss_hostSigner = sc_Signer cfg, ss_auth = sc_Auth cfg,
          ss_limiter = sc_Limiter cfg, ss_hasher = sc_Hasher cfg, ss_tarpit = Some (sc_Ctx cfg, 10),
          ss_metrics = sc_Metrics cfg,
          ss_connector = Some \<lparr>cn_ctx = sc_Ctx cfg, cn_logger = sc_Logger cfg, cn_handler = sc_Handler2 cfg,
                               cn_metrics = sc_Metrics cfg, cn_hostkey = sc_Signer cfg\<rparr>\<rparr>)"

definition ErrValidation :: gerror where "ErrValidation = Sentinel ''failed validation''"

definition validation_error :: "string \<Rightarrow> gerror" where
  "validation_error m = Joined [Dynamic m, ErrValidation]"

definition ErrNoContext :: gerror where "ErrNoContext = validation_error ''context is nil''"
definition ErrNoLogger :: gerror where "ErrNoLogger = validation_error ''logger is nil''"
definition ErrNoHostSigner :: gerror where "ErrNoHostSigner = validation_error ''no host signer''"
definition ErrNoSessionHandler :: gerror where "ErrNoSessionHandler = validation_error ''no session handler''"
definition ErrNoPublicKeyAuthenticator :: gerror where
  "ErrNoPublicKeyAuthenticator = validation_error ''no publickey authenticator''"
definition ErrRateLimiterNoHasher :: gerror where
  "ErrRateLimiterNoHasher = validation_error ''ratelimiter provided but no hasher was provided''"
definition ErrNoMetrics :: gerror where "ErrNoMetrics = validation_error ''metrics is nil''"

definition check :: "bool \<Rightarrow> gerror \<Rightarrow> gerror option \<Rightarrow> gerror option" where
  "check bad e err = (if bad then errors_join [Some e, err] else err)"

definition sshd_Validate :: "sshd_server \<Rightarrow> gerror option" where
  "sshd_Validate s =
     (let err = check (ss_ctx s = None) ErrNoContext None;
          err = check (ss_logger s = None) ErrNoLogger err;
          err = check (ss_hostSigner s = None) ErrNoHostSigner err;
          err = check (ss_connector s = None) ErrNoSessionHandler err;
          err = check (ss_auth s = None) ErrNoPublicKeyAuthenticator err;
          err = check (ss_limiter s \<noteq> None \<and> ss_hasher s = None) ErrRateLimiterNoHasher err
      in check (ss_metrics s = None) ErrNoMetrics err)"

section \<open>The server around it\<close>

record server_config =
  sv_Ctx :: "obj option"
  sv_Address :: string
  sv_MetricsAddress :: string
  sv_SSHDConfig :: sshd_config
  sv_Metrics :: "obj option"
  sv_Logger :: "obj option"

definition DefaultBindAddress :: string where "DefaultBindAddress = ''127.0.0.1:2222''"
definition DefaultMetricsAddr :: string where "DefaultMetricsAddr = ''127.0.0.1:8080''"

definition server_DefaultConfig :: server_config where
  "server_DefaultConfig =
     \<lparr>sv_Ctx = Some Background, sv_Address = DefaultBindAddress, sv_MetricsAddress = DefaultMetricsAddr,
      sv_SSHDConfig = sshd_DefaultConfig, sv_Metrics = Some PrometheusMetrics, sv_Logger = Some DiscardLogger\<rparr>"

type_synonym server_option = "server_config \<Rightarrow> server_config"

definition server_WithContext :: "obj option \<Rightarrow> server_option" where
  "server_WithContext ctx cfg = (if ctx = None then cfg else cfg\<lparr>sv_Ctx := ctx\<rparr>)"

definition server_WithLogger :: "obj option \<Rightarrow> server_option" where
  "server_WithLogger logger cfg = (if logger = None then cfg else cfg\<lparr>sv_Logger := logger\<rparr>)"

definition server_WithAddress :: "string \<Rightarrow> server_option" where
  "server_WithAddress address cfg = (if address = [] then cfg else cfg\<lparr>sv_Address := address\<rparr>)"

definition server_WithMetricsAddress :: "string \<Rightarrow> server_option" where
  "server_WithMetricsAddress address cfg = (if address = [] then cfg else cfg\<lparr>sv_MetricsAddress := address\<rparr>)"

definition server_WithMetrics :: "obj option \<Rightarrow> server_option" where
  "server_WithMetrics m cfg = (if m = None then cfg else cfg\<lparr>sv_Metrics := m\<rparr>)"

definition server_WithConfig :: "server_config \<Rightarrow> server_option" where
  "server_WithConfig config cfg =
     (let c1 = server_WithLogger (sv_Logger config) (server_WithContext (sv_Ctx config) cfg);
          c2 = server_WithMetricsAddress (sv_MetricsAddress config) (server_WithAddress (sv_Address config) c1)
      in server_WithMetrics (sv_Metrics config) (c2\<lparr>sv_SSHDConfig := sv_SSHDConfig config\<rparr>))"

record server =
  srv_ctx :: "obj option"
  srv_ssh :: sshd_server
  srv_address :: string
  srv_metricsAddress :: string
  srv_metrics :: "obj option"
  srv_logger :: "obj option"

text \<open>\<open>New\<close>: the metrics that are there get the SSH server's counters and are passed on to it.\<close>

definition server_New :: "server_option list \<Rightarrow> server \<times> obj list" where
  "server_New opts =
     (let cfg = fold (\<lambda>opt c. opt c) opts server_DefaultConfig;
          registered = (case sv_Metrics cfg of None \<Rightarrow> [] | Some m \<Rightarrow> [m]);
          scfg = (if sv_Metrics cfg \<noteq> None then (sv_SSHDConfig cfg)\<lparr>sc_Metrics := sv_Metrics cfg\<rparr>
                  else sv_SSHDConfig cfg)
      in (\<lparr>srv_ctx = sv_Ctx cfg, srv_ssh = sshd_New [sshd_WithConfig scfg], srv_address = sv_Address cfg,
           srv_metricsAddress = sv_MetricsAddress cfg, srv_metrics = sv_Metrics cfg, srv_logger = sv_Logger cfg\<rparr>,
          registered))"

definition server_Validate :: "server \<Rightarrow> gerror option" where
  "server_Validate s =
     (case sshd_Validate (srv_ssh s) of None \<Rightarrow> None | Some errs \<Rightarrow> errors_join [Some errs, None])"

text \<open>
  \<open>Start\<close>, from what the SSH server and the metrics server return: without metrics there is no
  metrics server; an error of the SSH server is returned at once.
\<close>

definition server_Start :: "server \<Rightarrow> gerror option \<Rightarrow> gerror option \<Rightarrow> gerror option" where
  "server_Start s ssh_result metrics_result =
     (case ssh_result of
        Some err \<Rightarrow> Some err
      | None \<Rightarrow> if srv_metrics s = None then None else metrics_result)"

lemmas sshd_op_defs =
  sshd_New_def sshd_WithConfig_def sshd_WithLogger_def sshd_WithContext_def sshd_WithMetrics_def
  sshd_DefaultConfig_def Let_def

lemmas server_option_defs =
  server_WithConfig_def server_WithLogger_def server_WithContext_def server_WithAddress_def
  server_WithMetricsAddress_def server_WithMetrics_def server_DefaultConfig_def Let_def

section \<open>Validation\<close>

lemma check_None [simp]: "check bad e err = None \<longleftrightarrow> \<not> bad \<and> err = None"
  by (cases err) (auto simp: check_def)

lemma check_is:
  assumes "\<And>xs. t \<noteq> Joined xs"
  shows "opt_is (check bad e err) t \<longleftrightarrow> bad \<and> errors_is e t \<or> opt_is err t"
  using assms by (auto simp: check_def opt_is_join2)

lemma validation_error_is [simp]:
  "errors_is (validation_error m) ErrValidation"
  "errors_is (validation_error m) (Dynamic n) \<longleftrightarrow> m = n"
  by (auto simp: validation_error_def ErrValidation_def)

lemmas validation_errors =
  ErrNoContext_def ErrNoLogger_def ErrNoHostSigner_def ErrNoSessionHandler_def
  ErrNoPublicKeyAuthenticator_def ErrRateLimiterNoHasher_def ErrNoMetrics_def

section \<open>Properties\<close>

text \<open>C39. Validation of a configured server passes exactly when it has a host key, an authenticator and,
  with a limiter, a hasher; a failure is always a validation error and names what is missing. A
  missing handler is not noticed, though there is an error for it.\<close>

theorem validate_config:
  shows "(sshd_Validate (sshd_New [sshd_WithConfig cfg]) = None \<longleftrightarrow>
       sc_Signer cfg \<noteq> None \<and> sc_Auth cfg \<noteq> None \<and> (sc_Limiter cfg = None \<or> sc_Hasher cfg \<noteq> None))
    \<and> (sshd_Validate (sshd_New [sshd_WithConfig cfg]) \<noteq> None \<longleftrightarrow>
        opt_is (sshd_Validate (sshd_New [sshd_WithConfig cfg])) ErrValidation)
    \<and> (opt_is (sshd_Validate (sshd_New [sshd_WithConfig cfg])) (Dynamic ''no host signer'') \<longleftrightarrow> sc_Signer cfg = None)
    \<and> \<not> opt_is (sshd_Validate (sshd_New [sshd_WithConfig cfg])) (Dynamic ''no session handler'')"
proof (intro conjI)
  let ?s = "sshd_New [sshd_WithConfig cfg]"
  have s: "ss_ctx ?s \<noteq> None" "ss_logger ?s \<noteq> None" "ss_connector ?s \<noteq> None" "ss_metrics ?s \<noteq> None"
    "ss_hostSigner ?s = sc_Signer cfg" "ss_auth ?s = sc_Auth cfg" "ss_limiter ?s = sc_Limiter cfg"
    "ss_hasher ?s = sc_Hasher cfg"
    by (simp_all add: sshd_op_defs)
  show "sshd_Validate ?s = None \<longleftrightarrow>
      sc_Signer cfg \<noteq> None \<and> sc_Auth cfg \<noteq> None \<and> (sc_Limiter cfg = None \<or> sc_Hasher cfg \<noteq> None)"
    using s by (auto simp: sshd_Validate_def Let_def)
  show "sshd_Validate ?s \<noteq> None \<longleftrightarrow> opt_is (sshd_Validate ?s) ErrValidation"
    using s by (auto simp: sshd_Validate_def Let_def check_is ErrValidation_def validation_errors
        validation_error_is [unfolded ErrValidation_def])
  show "opt_is (sshd_Validate ?s) (Dynamic ''no host signer'') \<longleftrightarrow> sc_Signer cfg = None"
    using s by (auto simp: sshd_Validate_def Let_def check_is validation_errors)
  show "\<not> opt_is (sshd_Validate ?s) (Dynamic ''no session handler'')"
    using s by (auto simp: sshd_Validate_def Let_def check_is validation_errors)
qed

theorem validate_config_witness:
  "sshd_Validate (sshd_New [sshd_WithConfig sshd_DefaultConfig]) \<noteq> None
    \<and> opt_is (sshd_Validate (sshd_New [sshd_WithConfig sshd_DefaultConfig])) (Dynamic ''no host signer'')"
  using validate_config [of sshd_DefaultConfig] by (simp add: sshd_DefaultConfig_def)

text \<open>The parts fit together: the SSH server and its connector count in the metrics of the server
  around them, which have its counters registered; empty addresses fall back to the defaults.\<close>

theorem server_wiring:
  shows "ss_metrics (srv_ssh (fst (server_New [server_WithConfig cfg]))) = srv_metrics (fst (server_New [server_WithConfig cfg]))
    \<and> map_option cn_metrics (ss_connector (srv_ssh (fst (server_New [server_WithConfig cfg]))))
        = Some (srv_metrics (fst (server_New [server_WithConfig cfg])))
    \<and> srv_metrics (fst (server_New [server_WithConfig cfg])) = Some (hd (snd (server_New [server_WithConfig cfg])))
    \<and> map_option cn_handler (ss_connector (srv_ssh (fst (server_New [server_WithConfig cfg]))))
        = Some (sc_Handler2 (sv_SSHDConfig cfg))
    \<and> srv_address (fst (server_New [server_WithConfig cfg]))
        = (if sv_Address cfg = [] then ''127.0.0.1:2222'' else sv_Address cfg)
    \<and> srv_metricsAddress (fst (server_New [server_WithConfig cfg]))
        = (if sv_MetricsAddress cfg = [] then ''127.0.0.1:8080'' else sv_MetricsAddress cfg)"
proof -
  let ?c = "server_WithConfig cfg server_DefaultConfig"
  have c: "sv_Metrics ?c = (if sv_Metrics cfg = None then Some PrometheusMetrics else sv_Metrics cfg)"
    "sv_SSHDConfig ?c = sv_SSHDConfig cfg"
    "sv_Address ?c = (if sv_Address cfg = [] then ''127.0.0.1:2222'' else sv_Address cfg)"
    "sv_MetricsAddress ?c = (if sv_MetricsAddress cfg = [] then ''127.0.0.1:8080'' else sv_MetricsAddress cfg)"
    by (simp_all add: server_option_defs DefaultBindAddress_def DefaultMetricsAddr_def)
  then obtain m where m: "sv_Metrics ?c = Some m" by (cases "sv_Metrics cfg") simp_all
  have s: "ss_metrics (sshd_New [sshd_WithConfig (d\<lparr>sc_Metrics := Some m\<rparr>)]) = Some m"
    "map_option cn_metrics (ss_connector (sshd_New [sshd_WithConfig (d\<lparr>sc_Metrics := Some m\<rparr>)])) = Some (Some m)"
    "map_option cn_handler (ss_connector (sshd_New [sshd_WithConfig (d\<lparr>sc_Metrics := Some m\<rparr>)])) = Some (sc_Handler2 d)"
    for d by (simp_all add: sshd_op_defs)
  show ?thesis by (simp add: server_New_def Let_def c(2-4) m s)
qed

end
