(* ===== verification/Commands.thy ===== *)
theory Commands
  imports Prelude
begin

text \<open>
  The small programs and the configuration directory: \<open>internal/config/config.go\<close>, \<open>cmd/getsh\<close>,
  \<open>cmd/podsftp\<close> and \<open>cmd/sleep\<close>. Files, environments, the SFTP server and the Go parsers of durations
  are parameters.
\<close>

section \<open>Configuration directory\<close>

datatype stat = StatErr bool gerror | StatDir | StatFile

text \<open>\<open>getConfigPath\<close>: the base directory, two looks at the path and the creation between them.\<close>

definition getConfigPath :: "gerror + string \<Rightarrow> (string \<Rightarrow> string \<Rightarrow> string) \<Rightarrow> string \<Rightarrow> stat \<Rightarrow> gerror option \<Rightarrow> stat \<Rightarrow> gerror + string" where
  "getConfigPath base path_join projectName stat1 mkdir stat2 =
     (case base of
        Inl err \<Rightarrow> Inl err
      | Inr basePath \<Rightarrow>
          let configPath = path_join basePath projectName;
              decide = (\<lambda>st. case st of StatErr _ err \<Rightarrow> Inl err | StatDir \<Rightarrow> Inr configPath
                                 | StatFile \<Rightarrow> Inl (Dynamic ''default config dir is file''))
          in (case stat1 of
                StatErr True err \<Rightarrow> (case mkdir of Some e \<Rightarrow> Inl e | None \<Rightarrow> decide stat2)
              | st \<Rightarrow> decide st))"

text \<open>\<open>GetConfigPath\<close>: a configured path that exists, else the default directory, else the working directory.\<close>

definition GetConfigPath :: "string option \<Rightarrow> (string \<Rightarrow> bool) \<Rightarrow> gerror + string \<Rightarrow> string" where
  "GetConfigPath configured exists default_path =
     (let cfg = (case configured of None \<Rightarrow> [] | Some c \<Rightarrow> trim_space c)
      in if configured \<noteq> None \<and> cfg \<noteq> [] \<and> exists cfg then cfg
         else (case default_path of Inl err \<Rightarrow> ''.'' | Inr p \<Rightarrow> p))"

text \<open>
  What \<open>InitConfig\<close> tells \<open>viper\<close>: the name, the type and the directories of the file, and how the
  environment is read. \<open>or.Or\<close> is a parameter, and so is the answer of \<open>os.Getwd\<close>, whose error is dropped.
\<close>

record viper_setup =
  vs_name :: string
  vs_type :: string
  vs_paths :: "string list"
  vs_env_prefix :: string
  vs_env_replace :: "(string \<times> string) list"

definition InitConfig ::
    "(string list \<Rightarrow> string) \<Rightarrow> gerror + string \<Rightarrow> (string \<Rightarrow> string) \<Rightarrow> string \<Rightarrow> string list \<Rightarrow> viper_setup" where
  "InitConfig or_Or getwd config_path projectName filenames =
     (let names = (if filenames \<noteq> [] then filenames @ [''config''] else [''config'']);
          wd = (case getwd of Inl err \<Rightarrow> [] | Inr d \<Rightarrow> d)
      in \<lparr>vs_name = or_Or names, vs_type = ''yaml'', vs_paths = [config_path projectName, or_Or [wd, ''.'']],
          vs_env_prefix = projectName, vs_env_replace = [(''.'', ''_'')]\<rparr>)"

section \<open>Finding a shell\<close>

text \<open>\<open>isExecutable\<close>, from what \<open>os.Stat\<close> says: whether it is a directory, and the mode.\<close>

definition isExecutable :: "(string \<Rightarrow> gerror + (bool \<times> 32 word)) \<Rightarrow> string \<Rightarrow> bool" where
  "isExecutable os_stat p =
     (case os_stat p of
        Inl err \<Rightarrow> False
      | Inr (is_dir, mode) \<Rightarrow> \<not> is_dir \<and> and mode 0x49 \<noteq> 0)"

text \<open>The first \<open>SHELL=\<close> of the environment of a process.\<close>

definition shell_prefix :: string where "shell_prefix = ''SHELL=''"

definition shellFromProcEnv :: "gerror + string \<Rightarrow> gerror + string" where
  "shellFromProcEnv environ =
     (case environ of
        Inl err \<Rightarrow> Inl err
      | Inr data \<Rightarrow>
          (case find (\<lambda>e. take 6 e = shell_prefix) (str_split CHR 0x00 data) of
             None \<Rightarrow> Inl (Dynamic ''SHELL not found'')
           | Some e \<Rightarrow> Inr (drop 6 e)))"

text \<open>The shell of a user in the lines of a password file.\<close>

fun passwd_shell :: "string list \<Rightarrow> string \<Rightarrow> string" where
  "passwd_shell [] userID = []"
| "passwd_shell (line # ls) userID =
     (let fields = str_split CHR '':'' line
      in if length fields < 7 then passwd_shell ls userID
         else if fields ! 2 = userID then fields ! 6
         else passwd_shell ls userID)"

definition shellFromPasswd :: "(string \<Rightarrow> string list option) \<Rightarrow> string \<Rightarrow> string \<Rightarrow> string" where
  "shellFromPasswd read_lines rt userID =
     (case read_lines (rt @ ''/etc/passwd'') of None \<Rightarrow> [] | Some ls \<Rightarrow> passwd_shell ls userID)"

definition heuristicCommonShellLookup :: "string list" where
  "heuristicCommonShellLookup =
     [''/usr/bin/bash'', ''/bin/bash'', ''/usr/local/bin/bash'', ''/usr/bin/sh'', ''/bin/sh'', ''/usr/bin/zsh'',
      ''/bin/zsh'', ''/usr/local/bin/zsh'', ''/usr/bin/dash'', ''/bin/dash'', ''/bin/ash'', ''/usr/bin/ash'',
      ''/bin/busybox'', ''/usr/bin/busybox'', ''/usr/bin/fish'', ''/usr/local/bin/fish'', ''/usr/bin/ksh'',
      ''/bin/ksh'', ''/usr/bin/csh'', ''/bin/csh'', ''/usr/bin/tcsh'', ''/bin/tcsh'']"

text \<open>
  \<open>main\<close> of \<open>getsh\<close>: the environment of each process, the executables and the password file are
  parameters, and so is \<open>path.Join\<close>. The first argument is read, but \<open>root\<close> is trimmed of itself.
\<close>

record getsh_args =
  ga_root :: string
  ga_uid :: string
  ga_pid :: string

definition trim_suffix :: "string \<Rightarrow> string \<Rightarrow> string" where
  "trim_suffix suffix s =
     (if length suffix \<le> length s \<and> drop (length s - length suffix) s = suffix
      then take (length s - length suffix) s else s)"

definition getsh_args_of :: "string list \<Rightarrow> getsh_args" where
  "getsh_args_of args =
     \<lparr>ga_root = (if args \<noteq> [] then trim_suffix ''/'' [] else []),
      ga_uid = (if 1 < length args then args ! 1 else ''0''),
      ga_pid = (if 2 < length args then args ! 2 else ''1'')\<rparr>"

definition getsh ::
    "(string \<Rightarrow> string \<Rightarrow> string) \<Rightarrow> (string \<Rightarrow> gerror + string) \<Rightarrow> (string \<Rightarrow> gerror + (bool \<times> 32 word)) \<Rightarrow>
     (string \<Rightarrow> string list option) \<Rightarrow> string list \<Rightarrow> string option" where
  "getsh path_join environ os_stat read_lines args =
     (let a = getsh_args_of args; rt = ga_root a;
          env_shell = (case shellFromProcEnv (environ (ga_pid a)) of
                         Inr shell \<Rightarrow> if shell = [] \<and> isExecutable os_stat (path_join rt shell) then Some shell else None
                       | Inl err \<Rightarrow> None);
          shell = shellFromPasswd read_lines rt (ga_uid a)
      in case env_shell of
           Some sh \<Rightarrow> Some sh
         | None \<Rightarrow>
             if shell \<noteq> [] \<and> isExecutable os_stat (path_join rt shell) then Some shell
             else find (\<lambda>sh. isExecutable os_stat (path_join rt sh)) heuristicCommonShellLookup)"

section \<open>Serving files\<close>

text \<open>
  \<open>main\<close> of \<open>podsftp\<close>, from the answer of \<open>sftp.NewServer\<close>: what it writes to its standard error, and
  its exit status if it ends there, or the working directory it serves.
\<close>

definition podsftp_root :: string where "podsftp_root = ''/proc/1/root/''"

definition podsftp_main :: "(string \<Rightarrow> gerror option) \<Rightarrow> string \<times> (nat + string)" where
  "podsftp_main new_server =
     (case new_server podsftp_root of
        Some err \<Rightarrow> (''Error creating sftp server: '' @ error_text err @ [CHR 0x0A], Inl 1)
      | None \<Rightarrow>
          (''Starting SFTP server [IN=STDIN,OUT=STDOUT,BASE='' @ podsftp_root @ '']'' @ [CHR 0x0A], Inr podsftp_root))"

section \<open>Sleeping\<close>

text \<open>
  \<open>parseArgs\<close> of \<open>sleep\<close>: \<open>Sleep None\<close> is for ever, \<open>Exit1\<close> the failure. \<open>time.ParseDuration\<close> and
  \<open>strconv.Atoi\<close> are parameters; a \<open>Duration\<close> is a signed 64-bit number of nanoseconds.
\<close>

datatype sleep_result = Sleep "int option" | Exit1 string

definition wrap64 :: "int \<Rightarrow> int" where
  "wrap64 n = sint (word_of_int n :: 64 word)"

fun parseArgs :: "(string \<Rightarrow> int option) \<Rightarrow> (string \<Rightarrow> int option) \<Rightarrow> string list \<Rightarrow> sleep_result" where
  "parseArgs parse_duration atoi [] = Sleep None"
| "parseArgs parse_duration atoi (arg # args) =
     (let sanitized = trim_space arg
      in if sanitized = [] then parseArgs parse_duration atoi args
         else if str_lower sanitized = ''infinity'' then Sleep None
         else
           (case parse_duration sanitized of
              Some t \<Rightarrow> Sleep (Some t)
            | None \<Rightarrow>
                (case atoi sanitized of
                   Some sec \<Rightarrow> Sleep (Some (wrap64 (sec * 1000000000)))
                 | None \<Rightarrow> Exit1 sanitized)))"

text \<open>
  When \<open>main\<close> of \<open>sleep\<close> ends, from the time at which the first signal comes, if one does (\<open>None\<close> is
  never). A duration that is not positive fires at once.
\<close>

definition sleep_main :: "sleep_result \<Rightarrow> int option \<Rightarrow> int option" where
  "sleep_main dur signal =
     (case dur of
        Exit1 arg \<Rightarrow> Some 0
      | Sleep None \<Rightarrow> signal
      | Sleep (Some d) \<Rightarrow> Some (case signal of None \<Rightarrow> max 0 d | Some t \<Rightarrow> min (max 0 d) t))"

section \<open>Properties\<close>

text \<open>\<open>getsh\<close> ignores its first argument, the root, and the shell in the environment of the
  process: with any root and any non-empty \<open>SHELL\<close> it answers as with none.\<close>

theorem getsh_ignores_root:
  assumes "\<And>pid. case shellFromProcEnv (environ pid) of Inr shell \<Rightarrow> shell \<noteq> [] | Inl err \<Rightarrow> True"
  shows "getsh path_join environ os_stat read_lines (rt # args) =
     (let uid = (if args \<noteq> [] then args ! 0 else ''0''); shell = shellFromPasswd read_lines [] uid
      in if shell \<noteq> [] \<and> isExecutable os_stat (path_join [] shell) then Some shell
         else find (\<lambda>sh. isExecutable os_stat (path_join [] sh)) heuristicCommonShellLookup)"
proof -
  have a: "ga_root (getsh_args_of (rt # args)) = []"
    "ga_uid (getsh_args_of (rt # args)) = (if args \<noteq> [] then args ! 0 else ''0'')"
    by (simp_all add: getsh_args_of_def trim_suffix_def)
  let ?pid = "ga_pid (getsh_args_of (rt # args))"
  have "(case shellFromProcEnv (environ ?pid) of Inr shell \<Rightarrow>
      (if shell = [] \<and> isExecutable os_stat (path_join [] shell) then Some shell else None) | Inl err \<Rightarrow> None) = None"
    using assms [of ?pid] by (auto split: sum.splits)
  then show ?thesis unfolding getsh_def Let_def a by simp
qed

definition shells_stat :: "string \<Rightarrow> gerror + (bool \<times> 32 word)" where
  "shells_stat p = (if p = ''/bin/sh'' \<or> p = ''/bin/zsh'' then Inr (False, 0x1ED) else Inl (Dynamic ''no such file''))"

theorem getsh_ignores_root_witness:
  "getsh (@) (\<lambda>_. Inr (''A=1'' @ [CHR 0x00] @ ''SHELL=/bin/zsh'')) shells_stat (\<lambda>_. None)
     [''/proc/7/root'', ''1000''] = Some ''/bin/sh''"
proof -
  have e: "shellFromProcEnv (Inr (''A=1'' @ [CHR 0x00] @ ''SHELL=/bin/zsh'')) = Inr ''/bin/zsh''" by code_simp
  have p: "shellFromPasswd (\<lambda>_. None) [] u = []" for u by (simp add: shellFromPasswd_def)
  have f: "find (\<lambda>sh. isExecutable shells_stat ([] @ sh)) heuristicCommonShellLookup = Some ''/bin/sh''"
    by code_simp
  show ?thesis
    using getsh_ignores_root [of "\<lambda>_. Inr (''A=1'' @ [CHR 0x00] @ ''SHELL=/bin/zsh'')" "(@)" shells_stat
        "\<lambda>_. None" "''/proc/7/root''" "[''1000'']"] e f
    by (simp add: p)
qed

end
