(* ===== verification/Host_Key.thy ===== *)
theory Host_Key
  imports Prelude
begin

text \<open>
  The host keys of \<open>internal/sshd/util.go\<close>: the seed of the development key, computed in 64-bit words,
  and the reading of a key file. The hash and the key parsers are parameters.
\<close>

section \<open>The development host key\<close>

text \<open>\<open>deriveDevSeed\<close> on the hash of the host, the user and the uid: four big-endian words, each masked.\<close>

definition be64 :: "bytes \<Rightarrow> 64 word" where
  "be64 bs = foldl (\<lambda>w b. or (push_bit 8 w) (ucast b)) 0 bs"

definition put64 :: "64 word \<Rightarrow> bytes" where
  "put64 w = map (\<lambda>i. ucast (drop_bit (56 - 8 * i) w)) [0..<8]"

definition seed_mask :: "64 word" where
  "seed_mask = 0xA5A5A5A5A5A5A5A5"

definition masked_seed :: "(string \<Rightarrow> bytes) \<Rightarrow> string \<Rightarrow> string \<Rightarrow> int \<Rightarrow> bytes" where
  "masked_seed sha256 host username uid =
     (let sum = sha256 (''podsh-dev|'' @ host @ ''|'' @ username @ ''|'' @ int_str uid)
      in take 32 (concat (map (\<lambda>i. put64 (xor (be64 (take 8 (drop (i * 8) sum))) seed_mask)) [0..<4])))"

text \<open>The error of \<open>user.Current\<close> is dropped, and the user read without it: a nil pointer.\<close>

definition deriveDevSeed :: "(string \<Rightarrow> bytes) \<Rightarrow> string \<Rightarrow> string option \<Rightarrow> int \<Rightarrow> bytes go" where
  "deriveDevSeed sha256 host usr uid =
     (case usr of
        None \<Rightarrow> Panic ''invalid memory address or nil pointer dereference''
      | Some username \<Rightarrow> Ret (masked_seed sha256 host username uid))"

definition NewMockHostSigner :: "bytes go \<Rightarrow> (bytes \<Rightarrow> gerror + 'signer) \<Rightarrow> (gerror + 'signer) go" where
  "NewMockHostSigner seed new_signer = go_bind seed (\<lambda>sd. Ret (new_signer sd))"

text \<open>Word by word, the mask works byte by byte.\<close>

lemma be64_bit: "n < 64 \<Longrightarrow> length bs = 8 \<Longrightarrow> bit (be64 bs) n = bit (bs ! (7 - n div 8)) (n mod 8)"
proof -
  have g: "length bs \<le> 8 \<Longrightarrow> n < 64 \<Longrightarrow> bit (be64 bs) n \<longleftrightarrow> n div 8 < length bs \<and> bit (bs ! (length bs - 1 - n div 8)) (n mod 8)" for bs n
  proof (induction bs arbitrary: n rule: rev_induct)
    case Nil then show ?case by (simp add: be64_def)
  next
    case (snoc b bs)
    have "be64 (bs @ [b]) = or (push_bit 8 (be64 bs)) (ucast b)" by (simp add: be64_def)
    show ?case
    proof (cases "n < 8")
      case True
      then show ?thesis by (simp add: \<open>be64 (bs @ [b]) = _\<close> bit_simps nth_append)
    next
      case False
      then have "bit (be64 (bs @ [b])) n = bit (be64 bs) (n - 8)"
        using snoc.prems by (auto simp: \<open>be64 (bs @ [b]) = _\<close> bit_simps dest: bit_imp_le_length)
      moreover have m: "(n - 8) mod 8 = n mod 8" and d: "n div 8 = Suc ((n - 8) div 8)"
        using False by (simp_all add: le_mod_geq le_div_geq)
      moreover have "bit (be64 bs) (n - 8) \<longleftrightarrow>
          (n - 8) div 8 < length bs \<and> bit (bs ! (length bs - 1 - (n - 8) div 8)) ((n - 8) mod 8)"
        using snoc.prems by (intro snoc.IH) simp_all
      moreover have "(bs @ [b]) ! (length (bs @ [b]) - 1 - Suc q) = bs ! (length bs - 1 - q)" if "q < length bs" for q
        using that by (cases "length bs") (auto simp: nth_append)
      ultimately show ?thesis by auto
    qed
  qed
  assume "n < 64" "length bs = 8"
  then show ?thesis using g [of bs n] by auto
qed

lemma seed_mask_bit: "bit seed_mask n = (n < 64 \<and> bit (0xA5 :: 8 word) (n mod 8))"
proof (cases "n < 64")
  case True
  have "list_all (\<lambda>n. bit seed_mask n = bit (0xA5 :: 8 word) (n mod 8)) [0..<64]"
    by code_simp
  with True show ?thesis by (simp only: list_all_iff set_upt atLeastLessThan_iff) simp
qed (auto dest: bit_imp_le_length)

lemma seed_word: "length bs = 8 \<Longrightarrow> put64 (xor (be64 bs) seed_mask) = map (xor 0xA5) bs"
proof (rule nth_equalityI)
  fix i assume l: "length bs = 8" and "i < length (put64 (xor (be64 bs) seed_mask))"
  then have i: "i < 8" by (simp add: put64_def)
  show "put64 (xor (be64 bs) seed_mask) ! i = map (xor 0xA5) bs ! i"
  proof (rule bit_word_eqI)
    fix n assume "n < LENGTH(8)"
    then have n: "n < 8" by simp
    have "(56 - 8 * i + n) = n + 8 * (7 - i)" using i by simp
    then have "(56 - 8 * i + n) div 8 = 7 - i" "(56 - 8 * i + n) mod 8 = n" "56 - 8 * i + n < 64" using n i by auto
    then show "bit (put64 (xor (be64 bs) seed_mask) ! i) n = bit (map (xor 0xA5) bs ! i) n"
      using i n l by (simp add: put64_def bit_simps seed_mask_bit be64_bit) auto
  qed
qed (simp add: put64_def)

text \<open>\<open>LoadHostSigner\<close>.\<close>

definition LoadHostSigner :: "gerror + bytes \<Rightarrow> (bytes \<Rightarrow> gerror + 'signer) \<Rightarrow> gerror + 'signer" where
  "LoadHostSigner file parse = (case file of Inl err \<Rightarrow> Inl err | Inr key \<Rightarrow> parse key)"

section \<open>Properties\<close>

text \<open>The development seed is computed in four 64-bit words, and is the hash with every byte
  masked: 32 bytes, different for different hashes, so that two hosts or users with the same seed
  have the same hash. Without a current user the program panics.\<close>

theorem dev_seed:
  assumes "\<And>x. length (sha256 x) = 32"
  shows "deriveDevSeed sha256 host (Some username) uid
      = Ret (map (xor 0xA5) (sha256 (''podsh-dev|'' @ host @ ''|'' @ username @ ''|'' @ int_str uid)))
    \<and> (deriveDevSeed sha256 host (Some username) uid = Ret s \<longrightarrow> length s = 32)
    \<and> (deriveDevSeed sha256 host (Some username) uid = deriveDevSeed sha256 host' (Some username') uid' \<longrightarrow>
        sha256 (''podsh-dev|'' @ host @ ''|'' @ username @ ''|'' @ int_str uid)
        = sha256 (''podsh-dev|'' @ host' @ ''|'' @ username' @ ''|'' @ int_str uid'))
    \<and> deriveDevSeed sha256 host None uid = Panic ''invalid memory address or nil pointer dereference''"
proof -
  have seed: "masked_seed sha256 h u i = map (xor 0xA5) (sha256 (''podsh-dev|'' @ h @ ''|'' @ u @ ''|'' @ int_str i))"
    for h u i
  proof -
    define s where "s = sha256 (''podsh-dev|'' @ h @ ''|'' @ u @ ''|'' @ int_str i)"
    have l: "length s = 32" by (simp add: s_def assms)
    have w: "put64 (xor (be64 (take 8 (drop (j * 8) s))) seed_mask) = map (xor 0xA5) (take 8 (drop (j * 8) s))"
      if "j < 4" for j
      using that l by (intro seed_word) simp
    have "concat (map (\<lambda>j. put64 (xor (be64 (take 8 (drop (j * 8) s))) seed_mask)) [0..<4])
        = map (xor 0xA5) (concat (map (\<lambda>j. take 8 (drop (j * 8) s)) [0..<4]))"
      using w [of 0] w [of 1] w [of 2] w [of 3] by (simp add: upt_rec)
    moreover have "concat (map (\<lambda>j. take 8 (drop (j * 8) s)) [0..<4]) = s"
    proof -
      have cut: "take 8 (drop k s) @ drop (k + 8) s = drop k s" for k
        by (metis append_take_drop_id drop_drop add.commute)
      have "take 8 (drop 0 s) @ take 8 (drop 8 s) @ take 8 (drop 16 s) @ take 8 (drop 24 s) @ drop 32 s = s"
        using cut [of 0] cut [of 8] cut [of 16] cut [of 24] by simp
      with l show ?thesis by (simp add: upt_rec)
    qed
    ultimately have e: "concat (map (\<lambda>j. put64 (xor (be64 (take 8 (drop (j * 8) s))) seed_mask)) [0..<4])
        = map (xor 0xA5) s" by simp
    then have "take 32 (concat (map (\<lambda>j. put64 (xor (be64 (take 8 (drop (j * 8) s))) seed_mask)) [0..<4]))
        = map (xor 0xA5) s" using l by simp
    then show ?thesis unfolding s_def masked_seed_def Let_def .
  qed
  have "inj (xor (0xA5 :: byte))"
    by (rule injI) (metis xor.assoc xor_self_eq xor.left_neutral)
  then show ?thesis using assms by (auto simp: deriveDevSeed_def seed inj_map_eq_map)
qed

theorem dev_seed_witness:
  "deriveDevSeed (\<lambda>x. replicate 32 0) ''host'' (Some ''ann'') 1000 = Ret (replicate 32 0xA5)"
  using dev_seed [of "\<lambda>x. replicate 32 0" "''host''" "''ann''" 1000] by simp

end
