(* ===== verification/Profiles.thy ===== *)
theory Profiles
  imports Server Validate Host_Key Float64 Notice
begin

text \<open>
  The profiles of \<open>internal/profiles\<close>: the table, the flag, and the configuration that each profile
  makes from the settings, and \<open>RunE\<close> of \<open>cmd/podsh/root.go\<close> with what it prints. What the libraries answer at start-up
  is the record \<open>startup\<close>; the settings are read through the getters of \<open>viper\<close>, which the flags of the
  command bind. An error is returned at the step it happens at; an invalid log level panics.

  Shown: a configuration that a profile makes passes the server's validation, was made with every
  permission granted, and binds the handler to the configured namespace; what each flag accepts.
\<close>

section \<open>Profiles\<close>

datatype mode = ModeDev | ModeProd

definition ErrProfileNotFound :: gerror where
  "ErrProfileNotFound = Sentinel ''profile not found''"

definition profiles_Get :: "string \<Rightarrow> gerror + mode" where
  "profiles_Get key =
     (if key = ''dev'' then Inr ModeDev else if key = ''prod'' then Inr ModeProd else Inl ErrProfileNotFound)"

definition profile_IsValid :: "string \<Rightarrow> bool" where
  "profile_IsValid p \<longleftrightarrow> p = ''dev'' \<or> p = ''prod''"

definition allowedProfileKeyString :: string where
  "allowedProfileKeyString = str_join '', '' [''dev'', ''prod'']"

text \<open>\<open>ProfileFlag.Set\<close>: the error and the flag's value.\<close>

definition ProfileFlag_Set :: "string \<Rightarrow> string \<Rightarrow> gerror option \<times> string" where
  "ProfileFlag_Set s val =
     (let p = str_lower s
      in if \<not> profile_IsValid p then
           (Some (Dynamic (''invalid profile '' @ CHR 0x27 # s @ CHR 0x27 # '' (allowed: '' @
              allowedProfileKeyString @ '')'')), val)
         else (None, p))"

definition ProfileFlag_String :: "string option \<Rightarrow> string" where
  "ProfileFlag_String val = (case val of None \<Rightarrow> [] | Some p \<Rightarrow> p)"

section \<open>Settings and libraries\<close>

record viper =
  GetString :: "string \<Rightarrow> string"
  GetInt :: "string \<Rightarrow> int"
  GetBool :: "string \<Rightarrow> bool"
  GetFloat64 :: "string \<Rightarrow> rat"
  GetDuration :: "string \<Rightarrow> int"

text \<open>The defaults of \<open>internal/defaults/values.go\<close>.\<close>

definition DefaultNamespace :: string where "DefaultNamespace = ''deploy''"
definition DefaultLimitEnabled :: bool where "DefaultLimitEnabled = True"
definition DefaultLimitRate :: rat where "DefaultLimitRate = 6 / 5"
definition DefaultLimitBurst :: int where "DefaultLimitBurst = 12"
definition DefaultLimitTTL :: int where "DefaultLimitTTL = 30 * 1000000000"
definition DefaultPodshAgentImage :: string where "DefaultPodshAgentImage = ''ghcr.io/kthcloud/podsh/agent:latest''"
definition DefaultPodshAgentImagePullPolicy :: string where "DefaultPodshAgentImagePullPolicy = ''IfNotPresent''"
definition DefaultHostSignerPath :: string where "DefaultHostSignerPath = ''/etc/podsh/key''"
definition DefaultRedisAddress :: string where "DefaultRedisAddress = ''localhost:6379''"
definition DefaultRedisDB :: int where "DefaultRedisDB = 0"
definition DefaultRedisPassword :: string where "DefaultRedisPassword = []"

text \<open>The defaults of the flags, under the settings they are bound to. \<open>home\<close> paths are joined.\<close>

datatype flag_value = FlagString string | FlagInt int | FlagBool bool | FlagFloat rat | FlagDuration int

definition podsh_flags :: "(string list \<Rightarrow> string) \<Rightarrow> string \<Rightarrow> (string \<times> flag_value) list" where
  "podsh_flags path_join home =
     [(''profile'', FlagString ''dev''),
      (''config'', FlagString []),
      (''log.level'', FlagString ''info''),
      (''address'', FlagString DefaultBindAddress),
      (''namespace'', FlagString DefaultNamespace),
      (''kubeconfig'', FlagString (path_join [home, ''.kube'', ''config''])),
      (''dev.publickeyfile'', FlagString (path_join [home, ''.ssh'', ''id_ed25519.pub''])),
      (''agent.image'', FlagString DefaultPodshAgentImage),
      (''agent.imagepullpolicy'', FlagString DefaultPodshAgentImagePullPolicy),
      (''limit.enabled'', FlagBool DefaultLimitEnabled),
      (''limit.rate'', FlagFloat (f64 DefaultLimitRate)),
      (''limit.burst'', FlagInt DefaultLimitBurst),
      (''limit.ttl'', FlagDuration DefaultLimitTTL),
      (''metrics.address'', FlagString DefaultMetricsAddr),
      (''ssh.hostsignerpath'', FlagString DefaultHostSignerPath),
      (''redis.address'', FlagString DefaultRedisAddress),
      (''redis.db'', FlagInt DefaultRedisDB),
      (''redis.password'', FlagString DefaultRedisPassword)]"

text \<open>The getters over bound flags that nothing overrides: another type, or no flag, gives the zero value.\<close>

definition viper_of :: "(string \<times> flag_value) list \<Rightarrow> viper" where
  "viper_of flags =
     \<lparr>GetString = (\<lambda>k. case map_of flags k of Some (FlagString s) \<Rightarrow> s | _ \<Rightarrow> []),
      GetInt = (\<lambda>k. case map_of flags k of Some (FlagInt n) \<Rightarrow> n | _ \<Rightarrow> 0),
      GetBool = (\<lambda>k. case map_of flags k of Some (FlagBool b) \<Rightarrow> b | _ \<Rightarrow> False),
      GetFloat64 = (\<lambda>k. case map_of flags k of Some (FlagFloat q) \<Rightarrow> q | _ \<Rightarrow> 0),
      GetDuration = (\<lambda>k. case map_of flags k of Some (FlagDuration d) \<Rightarrow> d | _ \<Rightarrow> 0)\<rparr>"

record startup =
  st_BuildConfig :: "string \<Rightarrow> gerror + obj"
  st_InCluster :: "gerror + obj"
  st_NewForConfig :: "obj \<Rightarrow> gerror + obj"
  st_ReadFile :: "string \<Rightarrow> gerror + bytes"
  st_ParsePrivateKey :: "bytes \<Rightarrow> gerror + obj"
  st_NewSigner :: "bytes \<Rightarrow> gerror + obj"
  st_ParseAuthorizedKey :: "bytes \<Rightarrow> gerror + bytes"
  st_seed :: "bytes go"
  st_Ping :: "string \<Rightarrow> string \<Rightarrow> int \<Rightarrow> gerror option"
  st_Review :: "obj \<Rightarrow> permission \<Rightarrow> gerror + bool"
  st_Register :: registry

section \<open>Configurations\<close>

text \<open>The two kinds of step: a value or an error, and an error alone.\<close>

fun and_then :: "gerror + 'a \<Rightarrow> ('a \<Rightarrow> (gerror + 'b) go) \<Rightarrow> (gerror + 'b) go" where
  "and_then (Inl err) f = Ret (Inl err)"
| "and_then (Inr x) f = f x"

fun if_ok :: "gerror option \<Rightarrow> (gerror + 'b) go \<Rightarrow> (gerror + 'b) go" where
  "if_ok (Some err) m = Ret (Inl err)"
| "if_ok None m = m"

lemma and_then_Ok: "and_then r f = Ret (Inr y) \<longleftrightarrow> (\<exists>x. r = Inr x \<and> f x = Ret (Inr y))"
  by (cases r) auto

lemma if_ok_Ok: "if_ok e m = Ret (Inr y) \<longleftrightarrow> e = None \<and> m = Ret (Inr y)"
  by (cases e) auto

lemmas config_steps = and_then_Ok if_ok_Ok go_bind_Ret_iff

definition limiter_setting :: "(rat \<Rightarrow> int \<Rightarrow> int \<Rightarrow> obj) \<Rightarrow> viper \<Rightarrow> obj option" where
  "limiter_setting mk v =
     (if GetBool v ''limit.enabled''
      then Some (mk (GetFloat64 v ''limit.rate'') (GetInt v ''limit.burst'') (GetDuration v ''limit.ttl''))
      else None)"

text \<open>The value both profiles return, around the parts in which they differ.\<close>

definition profile_config ::
    "viper \<Rightarrow> obj \<Rightarrow> obj \<Rightarrow> obj \<Rightarrow> obj \<Rightarrow> obj option \<Rightarrow> obj \<Rightarrow> obj \<Rightarrow> server_config" where
  "profile_config v ctx logger signer auth rl kc cfg =
     \<lparr>sv_Ctx = Some ctx, sv_Address = GetString v ''address'', sv_MetricsAddress = GetString v ''metrics.address'',
      sv_SSHDConfig =
        \<lparr>sc_Ctx = Some ctx, sc_Signer = Some signer, sc_Auth = Some auth, sc_Limiter = rl,
         sc_Hasher = Some (HasherOf ''supersecret''), sc_Metrics = Some PrometheusMetrics,
         sc_Handler2 = Some (k8s_New kc cfg (NewLabelResolver kc (GetString v ''namespace'')) PrometheusMetrics),
         sc_Logger = Some logger\<rparr>,
      sv_Metrics = Some PrometheusMetrics, sv_Logger = Some logger\<rparr>"

text \<open>The registry of the new Prometheus metrics is returned with the configuration.\<close>

definition profile_metrics :: "registry \<Rightarrow> prom" where
  "profile_metrics reg = RegisterK8sMetrics reg (RegisterSSHdMetrics reg NewPrometheus)"

definition dev_identity :: "bytes \<Rightarrow> identity" where
  "dev_identity pubKeyBytes = no_identity\<lparr>User := ''user@kth.se'',
     UserID := ''4efea96b-2d6b-41f6-96a2-656f18d6f8d1'', PublicKey := Some pubKeyBytes\<rparr>"

definition dev_Config :: "startup \<Rightarrow> obj \<Rightarrow> viper \<Rightarrow> (gerror + server_config \<times> prom) go" where
  "dev_Config st ctx v =
     go_bind (MustParseLevel (GetString v ''log.level'')) (\<lambda>lvl.
     and_then (st_BuildConfig st (GetString v ''kubeconfig'')) (\<lambda>cfg.
     and_then (st_NewForConfig st cfg) (\<lambda>kc.
     go_bind (NewMockHostSigner (st_seed st) (st_NewSigner st)) (\<lambda>mock. and_then mock (\<lambda>mockSigner.
     and_then (st_ReadFile st (GetString v ''dev.publickeyfile'')) (\<lambda>devPublicKey.
     and_then (st_ParseAuthorizedKey st devPublicKey) (\<lambda>pubKeyBytes.
     if_ok (ValidatePermissions (GetString v ''namespace'') (st_Review st kc))
       (Ret (Inr (profile_config v ctx (TextLogger lvl) mockSigner
                    (MapAuth pubKeyBytes (dev_identity pubKeyBytes)) (limiter_setting MonoLim v) kc cfg,
                  profile_metrics (st_Register st)))))))))))"

definition prod_Config :: "startup \<Rightarrow> obj \<Rightarrow> viper \<Rightarrow> (gerror + server_config \<times> prom) go" where
  "prod_Config st ctx v =
     go_bind (MustParseLevel (GetString v ''log.level'')) (\<lambda>lvl.
     let kubeconfig = GetString v ''kubeconfig'' in
     and_then (if kubeconfig \<noteq> [] then st_BuildConfig st kubeconfig else st_InCluster st) (\<lambda>cfg.
     and_then (st_NewForConfig st cfg) (\<lambda>kc.
     and_then (LoadHostSigner (st_ReadFile st (GetString v ''ssh.hostsignerpath'')) (st_ParsePrivateKey st)) (\<lambda>hostSigner.
     if_ok (st_Ping st (GetString v ''redis.address'') (GetString v ''redis.password'') (GetInt v ''redis.db''))
     (if_ok (ValidatePermissions (GetString v ''namespace'') (st_Review st kc))
       (Ret (Inr (profile_config v ctx (JSONLogger lvl) hostSigner RedisAuth (limiter_setting RedisLim v) kc cfg,
                  profile_metrics (st_Register st)))))))))"

definition profile_Config :: "mode \<Rightarrow> startup \<Rightarrow> obj \<Rightarrow> viper \<Rightarrow> (gerror + server_config \<times> prom) go" where
  "profile_Config md = (case md of ModeDev \<Rightarrow> dev_Config | ModeProd \<Rightarrow> prod_Config)"

section \<open>The gateway's main command\<close>

text \<open>
  The text of \<open>resources.go\<close>; \<open>version\<close> is set by the build. \<open>banner\<close> is what is printed on
  the standard error.
\<close>

definition podsh_long :: string where
  "podsh_long =
     str_join [CHR 0x0A]
       [''                 __    __ '',
        ''   ___  ___  ___/ /__ / / '',
        str_join [CHR 0x5C] [''  / _ '', ''/ _ '', ''/ _  (_-</ _ '', []],
        str_join [CHR 0x5C] ['' / .__/'', ''___/'', ''_,_/___/_//_/''],
        ''/_/                      '']"

definition banner :: "string \<Rightarrow> string" where
  "banner version = podsh_long @ [CHR 0x0A] @ ''Version: '' @ version @ [CHR 0x0A]"

definition dev_warning :: "16 word \<Rightarrow> string list" where
  "dev_warning col =
     Warn col ''Unsafe config'' ''Using the development profile, DONT USE THIS IN PRODUCTION!''"

record podsh_run =
  run_stderr :: string
  run_stdout :: "string list"
  run_result :: "gerror option go"

text \<open>
  \<open>RunE\<close>: the banner, the profile, the warning about the development profile, the profile's
  configuration, validation, and the server's run (a parameter); the cancellation is not an error.
  \<open>col\<close> is the width of the terminal, as for the notices; what the loggers print is left out.
\<close>

definition root_RunE ::
    "string \<Rightarrow> 16 word \<Rightarrow> startup \<Rightarrow> obj \<Rightarrow> viper \<Rightarrow> (server \<Rightarrow> gerror option) \<Rightarrow> podsh_run" where
  "root_RunE version col st ctx v start =
     (case profiles_Get (GetString v ''profile'') of
        Inl err \<Rightarrow> \<lparr>run_stderr = banner version, run_stdout = [], run_result = Ret (Some err)\<rparr>
      | Inr prof \<Rightarrow>
          \<lparr>run_stderr = banner version,
           run_stdout = (if prof = ModeDev then dev_warning col else []),
           run_result =
             go_bind (profile_Config prof st ctx v) (\<lambda>r. Ret
               (case r of
                  Inl err \<Rightarrow> Some err
                | Inr (cfg, _) \<Rightarrow>
                    let s = fst (server_New [server_WithConfig cfg])
                    in case server_Validate s of
                         Some err \<Rightarrow> Some err
                       | None \<Rightarrow>
                           (case start s of
                              None \<Rightarrow> None
                            | Some err \<Rightarrow> if errors_is err (Sentinel ''context canceled'') then None else Some err)))\<rparr>)"

text \<open>\<open>main\<close>: an error of the command is logged and ends the program with status 1.\<close>

definition podsh_main :: "gerror option \<Rightarrow> string option \<times> nat" where
  "podsh_main result = (case result of Some err \<Rightarrow> (Some (error_text err), 1) | None \<Rightarrow> (None, 0))"

section \<open>What a profile makes\<close>

text \<open>A configuration that is made, step by step.\<close>

lemma dev_Config_Ok:
  assumes "dev_Config st ctx v = Ret (Inr (cfg, m))"
  obtains lvl c kc signer pub where "ParseLevel (GetString v ''log.level'') = (lvl, None)"
    "st_NewForConfig st c = Inr kc" "ValidatePermissions (GetString v ''namespace'') (st_Review st kc) = None"
    "cfg = profile_config v ctx (TextLogger lvl) signer (MapAuth pub (dev_identity pub)) (limiter_setting MonoLim v) kc c"
    "m = profile_metrics (st_Register st)"
  using assms
  by (fastforce simp: dev_Config_def config_steps NewMockHostSigner_def MustParseLevel_def
      split: prod.splits option.splits)

lemma prod_Config_Ok:
  assumes "prod_Config st ctx v = Ret (Inr (cfg, m))"
  obtains lvl c kc signer where "ParseLevel (GetString v ''log.level'') = (lvl, None)"
    "st_NewForConfig st c = Inr kc" "ValidatePermissions (GetString v ''namespace'') (st_Review st kc) = None"
    "st_Ping st (GetString v ''redis.address'') (GetString v ''redis.password'') (GetInt v ''redis.db'') = None"
    "cfg = profile_config v ctx (JSONLogger lvl) signer RedisAuth (limiter_setting RedisLim v) kc c"
    "m = profile_metrics (st_Register st)"
  using assms
  by (fastforce simp: prod_Config_def config_steps Let_def MustParseLevel_def split: prod.splits option.splits)

lemma profile_config_valid:
  "server_Validate (fst (server_New [server_WithConfig (profile_config v ctx logger signer auth rl kc c)])) = None"
proof -
  have "sshd_Validate (sshd_New [sshd_WithConfig scfg]) = None"
    if "sc_Signer scfg \<noteq> None" "sc_Auth scfg \<noteq> None" "sc_Hasher scfg \<noteq> None" for scfg
    using that by (auto simp: sshd_Validate_def sshd_op_defs)
  then show ?thesis
    by (simp add: server_Validate_def server_New_def profile_config_def server_option_defs)
qed

section \<open>Properties\<close>

text \<open>Profiles: the flag takes exactly the names of profiles, in any case, and what it stores is
  found by \<open>Get\<close>; an invalid name leaves the flag as it was.\<close>

theorem profile_flag:
  shows "(fst (ProfileFlag_Set s val) = None \<longleftrightarrow> (\<exists>md. profiles_Get (str_lower s) = Inr md))
    \<and> (fst (ProfileFlag_Set s val) = None \<longrightarrow> (\<exists>md. profiles_Get (snd (ProfileFlag_Set s val)) = Inr md))
    \<and> (fst (ProfileFlag_Set s val) \<noteq> None \<longrightarrow> snd (ProfileFlag_Set s val) = val)"
  by (auto simp: ProfileFlag_Set_def profile_IsValid_def profiles_Get_def Let_def)

theorem profile_flag_witness: "\<exists>md. profiles_Get (snd (ProfileFlag_Set ''PROD'' ''dev'')) = Inr md"
proof -
  have "fst (ProfileFlag_Set ''PROD'' ''dev'') = None" by code_simp
  with profile_flag [of "''PROD''" "''dev''"] show ?thesis by blast
qed

text \<open>C27. A configuration that a profile makes is fit to run. It was made with every permission granted in
  the configured namespace, to which the handler is bound; it has a limiter exactly when the settings
  enable one, of the kind of the profile and with the configured parameters; the production profile
  looks keys up in Redis, and the development profile knows one key. The server made from it passes
  validation.\<close>

theorem profile_fit:
  assumes "profile_Config md st ctx v = Ret (Inr (cfg, m))"
  shows "server_Validate (fst (server_New [server_WithConfig cfg])) = None
    \<and> (\<exists>c kc. st_NewForConfig st c = Inr kc
        \<and> (\<forall>p \<in> set (required (GetString v ''namespace'')). st_Review st kc p = Inr True)
        \<and> sc_Handler2 (sv_SSHDConfig cfg) =
            Some (PodHandler kc c (LabelResolver kc (GetString v ''namespace'')) PrometheusMetrics))
    \<and> sc_Limiter (sv_SSHDConfig cfg) =
        (if GetBool v ''limit.enabled''
         then Some ((if md = ModeDev then MonoLim else RedisLim)
                (GetFloat64 v ''limit.rate'') (GetInt v ''limit.burst'') (GetDuration v ''limit.ttl''))
         else None)
    \<and> (if md = ModeDev then \<exists>pub. sc_Auth (sv_SSHDConfig cfg) = Some (MapAuth pub (dev_identity pub))
       else sc_Auth (sv_SSHDConfig cfg) = Some RedisAuth)
    \<and> m = profile_metrics (st_Register st)"
proof (cases md)
  case ModeDev
  with assms have "dev_Config st ctx v = Ret (Inr (cfg, m))" by (simp add: profile_Config_def)
  then obtain lvl c kc signer pub where "st_NewForConfig st c = Inr kc"
    "ValidatePermissions (GetString v ''namespace'') (st_Review st kc) = None"
    "m = profile_metrics (st_Register st)"
    "cfg = profile_config v ctx (TextLogger lvl) signer (MapAuth pub (dev_identity pub)) (limiter_setting MonoLim v) kc c"
    by (rule dev_Config_Ok)
  with ModeDev profile_config_valid show ?thesis
    by (auto simp: profile_config_def k8s_New_def NewLabelResolver_def limiter_setting_def ValidatePermissions_def validate_all_None)
next
  case ModeProd
  with assms have "prod_Config st ctx v = Ret (Inr (cfg, m))" by (simp add: profile_Config_def)
  then obtain lvl c kc signer where "st_NewForConfig st c = Inr kc"
    "ValidatePermissions (GetString v ''namespace'') (st_Review st kc) = None"
    "m = profile_metrics (st_Register st)"
    "cfg = profile_config v ctx (JSONLogger lvl) signer RedisAuth (limiter_setting RedisLim v) kc c"
    by (rule prod_Config_Ok)
  with ModeProd profile_config_valid show ?thesis
    by (auto simp: profile_config_def k8s_New_def NewLabelResolver_def limiter_setting_def ValidatePermissions_def validate_all_None)
qed

text \<open>A start-up on which every library call succeeds.\<close>

definition calm_startup :: startup where
  "calm_startup =
     \<lparr>st_BuildConfig = (\<lambda>_. Inr (Given 1)), st_InCluster = Inr (Given 2), st_NewForConfig = (\<lambda>_. Inr (Given 3)),
      st_ReadFile = (\<lambda>_. Inr [1]), st_ParsePrivateKey = (\<lambda>_. Inr (Given 4)), st_NewSigner = (\<lambda>_. Inr (Given 5)),
      st_ParseAuthorizedKey = Inr, st_seed = Ret [], st_Ping = (\<lambda>_ _ _. None), st_Review = (\<lambda>_ _. Inr True),
      st_Register = (\<lambda>_. None)\<rparr>"

definition prod_flags :: viper where
  "prod_flags = viper_of ((''profile'', FlagString ''prod'') # podsh_flags (str_join ''/'') ''/home/ann'')"

lemma prod_starts:
  obtains cfg m where "profile_Config ModeProd calm_startup (Given 0) prod_flags = Ret (Inr (cfg, m))"
proof -
  have "GetString prod_flags ''log.level'' = ''info''"
    by (simp add: prod_flags_def viper_of_def podsh_flags_def)
  then have "MustParseLevel (GetString prod_flags ''log.level'') = Ret LevelInfo"
    by (simp add: MustParseLevel_def ParseLevel_def str_lower_def char_lower_def)
  moreover have "ValidatePermissions ns (\<lambda>_. Inr True) = None" for ns
    by (simp add: ValidatePermissions_def validate_all_None)
  ultimately show ?thesis
    using that
    by (cases "GetString prod_flags ''kubeconfig'' = []")
       (simp_all add: profile_Config_def prod_Config_def calm_startup_def LoadHostSigner_def Let_def)
qed

theorem profile_fit_witness:
  "\<exists>cfg m. profile_Config ModeProd calm_startup (Given 0) prod_flags = Ret (Inr (cfg, m))
    \<and> sc_Limiter (sv_SSHDConfig cfg) = Some (RedisLim (f64 (6 / 5)) 12 30000000000)"
proof -
  obtain cfg m where c: "profile_Config ModeProd calm_startup (Given 0) prod_flags = Ret (Inr (cfg, m))"
    by (rule prod_starts)
  from profile_fit [OF c] have "sc_Limiter (sv_SSHDConfig cfg) = Some (RedisLim (f64 (6 / 5)) 12 30000000000)"
    by (simp add: prod_flags_def viper_of_def podsh_flags_def DefaultLimitEnabled_def DefaultLimitRate_def
        DefaultLimitBurst_def DefaultLimitTTL_def)
  with c show ?thesis by blast
qed

text \<open>C28. The command: the banner is printed on every run, and the warning exactly when the profile is
  the development one. An unknown profile and a failing configuration are returned as errors; a
  configuration that was made always gets to the server's run, whose error is the result unless it is
  the cancellation. It panics only on an invalid log level or when the development seed does.\<close>

theorem gateway_runs:
  shows "run_stderr (root_RunE version col st ctx v start) = banner version
    \<and> run_stdout (root_RunE version col st ctx v start) =
        (if GetString v ''profile'' = ''dev'' then dev_warning col else [])
    \<and> (\<forall>md cfg m. profiles_Get (GetString v ''profile'') = Inr md \<longrightarrow>
        profile_Config md st ctx v = Ret (Inr (cfg, m)) \<longrightarrow>
        run_result (root_RunE version col st ctx v start) = Ret
          (if opt_is (start (fst (server_New [server_WithConfig cfg]))) (Sentinel ''context canceled'') then None
           else start (fst (server_New [server_WithConfig cfg]))))
    \<and> (run_result (root_RunE version col st ctx v start) = Panic msg \<longrightarrow>
        (\<exists>md. profiles_Get (GetString v ''profile'') = Inr md
          \<and> (snd (ParseLevel (GetString v ''log.level'')) \<noteq> None \<or> md = ModeDev \<and> st_seed st = Panic msg)))"
proof (intro conjI allI impI)
  show "run_stderr (root_RunE version col st ctx v start) = banner version"
    by (simp add: root_RunE_def split: sum.split)
  show "run_stdout (root_RunE version col st ctx v start) =
      (if GetString v ''profile'' = ''dev'' then dev_warning col else [])"
    by (simp add: root_RunE_def profiles_Get_def)
next
  fix md cfg m
  assume p: "profiles_Get (GetString v ''profile'') = Inr md" "profile_Config md st ctx v = Ret (Inr (cfg, m))"
  have "server_Validate (fst (server_New [server_WithConfig cfg])) = None"
    using p(2) profile_config_valid
    by (cases md) (auto simp: profile_Config_def elim!: dev_Config_Ok prod_Config_Ok)
  with p show "run_result (root_RunE version col st ctx v start) = Ret
      (if opt_is (start (fst (server_New [server_WithConfig cfg]))) (Sentinel ''context canceled'') then None
       else start (fst (server_New [server_WithConfig cfg])))"
    by (auto simp: root_RunE_def Let_def split: option.splits)
next
  have bind: "go_bind x f = Panic msg \<longleftrightarrow> x = Panic msg \<or> (\<exists>y. x = Ret y \<and> f y = Panic msg)"
    for x :: "'a go" and f :: "'a \<Rightarrow> 'b go" by (cases x) auto
  have steps: "and_then r f = Panic msg \<longleftrightarrow> (\<exists>y. r = Inr y \<and> f y = Panic msg)"
    "if_ok e k = Panic msg \<longleftrightarrow> e = None \<and> k = Panic msg"
    for r :: "gerror + 'a" and f :: "'a \<Rightarrow> (gerror + 'b) go" and e and k :: "(gerror + 'b) go"
    by (cases r; cases e; simp)+
  have lvl: "MustParseLevel s = Panic msg' \<Longrightarrow> snd (ParseLevel s) \<noteq> None" for s msg'
    by (auto simp: MustParseLevel_def split: prod.splits option.splits)
  assume "run_result (root_RunE version col st ctx v start) = Panic msg"
  then obtain md where md: "profiles_Get (GetString v ''profile'') = Inr md" "profile_Config md st ctx v = Panic msg"
    by (auto simp: root_RunE_def bind split: sum.splits)
  then have "snd (ParseLevel (GetString v ''log.level'')) \<noteq> None \<or> md = ModeDev \<and> st_seed st = Panic msg"
    by (cases md)
       (auto simp: profile_Config_def dev_Config_def prod_Config_def bind steps Let_def NewMockHostSigner_def dest: lvl)
  with md(1) show "\<exists>md. profiles_Get (GetString v ''profile'') = Inr md
      \<and> (snd (ParseLevel (GetString v ''log.level'')) \<noteq> None \<or> md = ModeDev \<and> st_seed st = Panic msg)" by blast
qed

theorem gateway_runs_witness:
  "root_RunE ''1.0'' 80 calm_startup (Given 0) prod_flags (\<lambda>_. Some (Sentinel ''context canceled'')) =
     \<lparr>run_stderr = banner ''1.0'', run_stdout = [], run_result = Ret None\<rparr>"
proof -
  obtain cfg m where c: "profile_Config ModeProd calm_startup (Given 0) prod_flags = Ret (Inr (cfg, m))"
    by (rule prod_starts)
  moreover have "profiles_Get (GetString prod_flags ''profile'') = Inr ModeProd"
    by (simp add: prod_flags_def viper_of_def profiles_Get_def)
  moreover have "GetString prod_flags ''profile'' = ''prod''"
    by (simp add: prod_flags_def viper_of_def)
  ultimately show ?thesis
    using gateway_runs [where version = "''1.0''" and col = 80 and v = prod_flags and st = calm_startup
        and ctx = "Given 0" and start = "\<lambda>_. Some (Sentinel ''context canceled'')"]
    by (intro podsh_run.equality) simp_all
qed

end
