(* ===== verification/Syncdb_Main.thy ===== *)
theory Syncdb_Main
  imports Sync_Auth Metrics Logging
begin

text \<open>
  \<open>cmd/syncdb/main.go\<close>: the settings from the environment, the connections to Redis and MongoDB, the
  probes, and the run of the periodic worker (\<open>Sync_Auth\<close>). What the clients answer and the Go parsers
  are parameters.

  Shown: with which status the program ends, and what the probes answer.
\<close>

section \<open>The environment of the sync worker\<close>

definition getEnv :: "(string \<Rightarrow> string) \<Rightarrow> string \<Rightarrow> string \<Rightarrow> string" where
  "getEnv env key fallback = (if env key \<noteq> [] then env key else fallback)"

text \<open>\<open>Sscanf\<close> is a parameter; where it fails the number is 0, not the fallback.\<close>

definition getEnvInt :: "(string \<Rightarrow> string) \<Rightarrow> (string \<Rightarrow> int option) \<Rightarrow> string \<Rightarrow> int \<Rightarrow> int" where
  "getEnvInt env scan key fallback =
     (if env key \<noteq> [] then (case scan (env key) of Some n \<Rightarrow> n | None \<Rightarrow> 0) else fallback)"

definition getEnvDuration :: "(string \<Rightarrow> string) \<Rightarrow> (string \<Rightarrow> int option) \<Rightarrow> string \<Rightarrow> int \<Rightarrow> int" where
  "getEnvDuration env parse_duration key fallback =
     (if env key \<noteq> [] then (case parse_duration (env key) of Some d \<Rightarrow> d | None \<Rightarrow> fallback) else fallback)"

definition finalMongoURI :: "string \<Rightarrow> string \<Rightarrow> string \<Rightarrow> string \<Rightarrow> string \<Rightarrow> string" where
  "finalMongoURI uri user password host db =
     (if uri = [] then
        (if user \<noteq> [] \<and> password \<noteq> [] then ''mongodb://'' @ user @ '':'' @ password @ ''@'' @ host @ ''/'' @ db
         else ''mongodb://'' @ host @ ''/'' @ db)
      else uri)"

definition syncdb_level :: "string \<Rightarrow> level" where
  "syncdb_level s =
     (if s = ''debug'' then LevelDebug else if s = ''warn'' then LevelWarn
      else if s = ''error'' then LevelError else LevelInfo)"

text \<open>The end of \<open>main\<close>: whether the worker's result is a failure.\<close>

definition syncdb_exit :: "gerror option \<Rightarrow> nat" where
  "syncdb_exit result =
     (case result of None \<Rightarrow> 0
      | Some err \<Rightarrow> if errors_is err (Sentinel ''context canceled'') then 0 else 1)"

section \<open>The program\<close>

record syncdb_flags =
  sf_redisAddr :: string
  sf_redisPassword :: string
  sf_redisDB :: int
  sf_mongoURI :: string
  sf_mongoUser :: string
  sf_mongoPassword :: string
  sf_mongoHost :: string
  sf_mongoDB :: string
  sf_mongoColl :: string
  sf_interval :: int
  sf_logLevel :: string
  sf_probePort :: string

text \<open>The flags without arguments: the environment, or the fixed defaults.\<close>

definition syncdb_defaults ::
    "(string \<Rightarrow> string) \<Rightarrow> (string \<Rightarrow> int option) \<Rightarrow> (string \<Rightarrow> int option) \<Rightarrow> syncdb_flags" where
  "syncdb_defaults env scan parse_duration =
     \<lparr>sf_redisAddr = getEnv env ''REDIS_ADDR'' ''localhost:6379'',
      sf_redisPassword = getEnv env ''REDIS_PASSWORD'' [],
      sf_redisDB = getEnvInt env scan ''REDIS_DB'' 0,
      sf_mongoURI = getEnv env ''MONGO_URI'' [],
      sf_mongoUser = getEnv env ''MONGO_USER'' [],
      sf_mongoPassword = getEnv env ''MONGO_PASSWORD'' [],
      sf_mongoHost = getEnv env ''MONGO_HOST'' ''localhost:27017'',
      sf_mongoDB = getEnv env ''MONGO_DB'' ''deploy'',
      sf_mongoColl = getEnv env ''MONGO_COLLECTION'' ''users'',
      sf_interval = getEnvDuration env parse_duration ''INTERVAL'' (5 * second),
      sf_logLevel = getEnv env ''LOG_LEVEL'' ''info'',
      sf_probePort = getEnv env ''PROBE_PORT'' ''8080''\<rparr>"

text \<open>What the clients answer, and the checks behind the probes.\<close>

record syncdb_clients =
  sx_redisPing :: "string \<Rightarrow> string \<Rightarrow> int \<Rightarrow> gerror option"
  sx_mongoConnect :: "string \<Rightarrow> gerror option"
  sx_mongoPing :: "gerror option"

definition syncdb_health :: "gerror option \<Rightarrow> gerror option \<Rightarrow> gerror option" where
  "syncdb_health redis_ping mongo_ping =
     (case redis_ping of Some err \<Rightarrow> Some err
      | None \<Rightarrow> (case mongo_ping of Some err \<Rightarrow> Some err | None \<Rightarrow> None))"

datatype probe_handler = MetricsPage | ChecksPage "gerror option list"

definition syncdb_routes :: "gerror option \<Rightarrow> gerror option \<Rightarrow> (string \<times> probe_handler) list" where
  "syncdb_routes redis_ping mongo_ping =
     (let health = ChecksPage [syncdb_health redis_ping mongo_ping]
      in NewServer [WithMetrics (Some MetricsPage), WithHealth (Some health), WithReadiness (Some health),
                    WithLiveness (Some (ChecksPage []))])"

text \<open>The registration of its metrics, whose errors are dropped.\<close>

definition syncdb_metrics :: "registry \<Rightarrow> prom" where
  "syncdb_metrics reg =
     snd (RegisterHistogram reg ''auth_duration_seconds''
       (snd (RegisterCounter reg ''failed_auth_total'' NewPrometheus)))"

text \<open>The end of the program: an exit status, a panic, or none while the worker runs.\<close>

datatype main_end = Exit nat | Crash string | Running

definition syncdb_main ::
    "'k crypto \<Rightarrow> 's kv_setter \<Rightarrow> env \<Rightarrow> syncdb_flags \<Rightarrow> syncdb_clients \<Rightarrow> sync_event list \<Rightarrow>
     's redis_conn \<Rightarrow> main_end \<times> 's redis_conn" where
  "syncdb_main cr kv_set env fl cl es c =
     (case sx_redisPing cl (sf_redisAddr fl) (sf_redisPassword fl) (sf_redisDB fl) of
        Some err \<Rightarrow> (Exit 1, c)
      | None \<Rightarrow>
          (case sx_mongoConnect cl
             (finalMongoURI (sf_mongoURI fl) (sf_mongoUser fl) (sf_mongoPassword fl) (sf_mongoHost fl) (sf_mongoDB fl)) of
             Some err \<Rightarrow> (Exit 1, c)
           | None \<Rightarrow>
               (case sx_mongoPing cl of
                  Some err \<Rightarrow> (Exit 1, c)
                | None \<Rightarrow>
                    (case NewKVSyncWorker (sf_interval fl) of Periodic w \<Rightarrow>
                       (case periodic_Start cr kv_set env es w c of
                          Panic msg \<Rightarrow> (Crash msg, c)
                        | Ret (None, w', c') \<Rightarrow> (Running, c')
                        | Ret (Some err, w', c') \<Rightarrow> (Exit (syncdb_exit (Some err)), c'))))))"

section \<open>How the worker's loop ends\<close>

text \<open>The result of the loop depends on the events only: the first that ends it.\<close>

fun loop_end :: "sync_event list \<Rightarrow> gerror option" where
  "loop_end [] = None"
| "loop_end (CtxDone err # es) = Some err"
| "loop_end (Tick (Inl err) # es) = Some err"
| "loop_end (Tick (Inr docs) # es) = loop_end es"

lemma periodic_loop_end: "fst (periodic_loop cr kv_set env es w c) = loop_end es"
  by (induction es arbitrary: w c rule: loop_end.induct) (auto simp: syncOnce_def Let_def split: prod.split)

lemma loop_end_Some:
  "loop_end es = Some err \<longleftrightarrow>
     (\<exists>docs rest. es = map (\<lambda>d. Tick (Inr d)) docs @ CtxDone err # rest
                \<or> es = map (\<lambda>d. Tick (Inr d)) docs @ Tick (Inl err) # rest)"
proof
  show "loop_end es = Some err \<Longrightarrow> \<exists>docs rest. es = map (\<lambda>d. Tick (Inr d)) docs @ CtxDone err # rest
      \<or> es = map (\<lambda>d. Tick (Inr d)) docs @ Tick (Inl err) # rest"
  proof (induction es rule: loop_end.induct)
    case (4 d es)
    then obtain docs rest where "es = map (\<lambda>d. Tick (Inr d)) docs @ CtxDone err # rest
      \<or> es = map (\<lambda>d. Tick (Inr d)) docs @ Tick (Inl err) # rest" by auto
    then show ?case by (intro exI [of _ "d # docs"] exI [of _ rest]) auto
  qed (auto intro: exI [of _ "[]"])
  have "loop_end (map (\<lambda>d. Tick (Inr d)) docs @ es) = loop_end es" for docs es
    by (induction docs) auto
  then show "\<exists>docs rest. es = map (\<lambda>d. Tick (Inr d)) docs @ CtxDone err # rest
      \<or> es = map (\<lambda>d. Tick (Inr d)) docs @ Tick (Inl err) # rest \<Longrightarrow> loop_end es = Some err" by auto
qed

section \<open>Properties\<close>

text \<open>C36. How the sync worker's program ends: with status 1 at once if Redis or MongoDB does not answer; by
  a panic if the interval is not positive; else it runs while every reading of the collection
  succeeds, and ends at the first that fails, or when its context is done, with status 0 exactly for
  the cancellation.\<close>

theorem syncdb_ends:
  assumes "reachable \<longleftrightarrow> sx_redisPing cl (sf_redisAddr fl) (sf_redisPassword fl) (sf_redisDB fl) = None
      \<and> sx_mongoConnect cl (finalMongoURI (sf_mongoURI fl) (sf_mongoUser fl) (sf_mongoPassword fl)
          (sf_mongoHost fl) (sf_mongoDB fl)) = None
      \<and> sx_mongoPing cl = None"
  shows "fst (syncdb_main cr kv_set env fl cl es c) =
    (if \<not> reachable then Exit 1
     else if sf_interval fl \<le> 0 then Crash ''non-positive interval for NewTicker''
     else (case loop_end es of
             None \<Rightarrow> Running
           | Some err \<Rightarrow> Exit (if errors_is err (Sentinel ''context canceled'') then 0 else 1)))"
  using assms periodic_loop_end [of cr kv_set env es "newPeriodicSyncer (sf_interval fl)" c]
  by (auto simp: syncdb_main_def NewKVSyncWorker_def periodic_Start_def newPeriodicSyncer_def syncdb_exit_def
      split: option.splits prod.splits)

definition plain_flags :: syncdb_flags where
  "plain_flags = syncdb_defaults (\<lambda>_. []) (\<lambda>_. None) (\<lambda>_. None)"

theorem syncdb_ends_witness:
  "fst (syncdb_main plain_crypto ref_set still_env plain_flags
      \<lparr>sx_redisPing = (\<lambda>_ _ _. None), sx_mongoConnect = (\<lambda>_. None), sx_mongoPing = None\<rparr>
      [Tick (Inr [Inr ann]), CtxDone (Sentinel ''context canceled'')] empty_conn) = Exit 0"
  by (subst syncdb_ends [of True])
     (simp_all add: plain_flags_def syncdb_defaults_def getEnvDuration_def second_def)

text \<open>The probes: liveness always answers 200; readiness and health answer 200 exactly when both
  stores answer, and else 503 with the first error; each page is found under one path.\<close>

theorem syncdb_probes:
  shows "map fst (syncdb_routes rp mp) = [''/metrics'', ''/healthz'', ''/readyz'', ''/livez'']
    \<and> (map_of (syncdb_routes rp mp) path = Some (ChecksPage cs) \<longrightarrow>
        fst (Health_Handler cs) = (if path = ''/livez'' \<or> rp = None \<and> mp = None then 200 else 503))"
  by (auto simp: syncdb_routes_def NewServer_def Let_def syncdb_health_def split: option.splits if_splits)

theorem syncdb_probes_witness:
  "map_of (syncdb_routes None (Some redis_Nil)) ''/readyz'' = Some (ChecksPage [Some redis_Nil])
    \<and> fst (Health_Handler [Some redis_Nil]) = 503"
proof -
  have "map_of (syncdb_routes None (Some redis_Nil)) ''/readyz'' = Some (ChecksPage [Some redis_Nil])"
    by (simp add: syncdb_routes_def NewServer_def Let_def syncdb_health_def)
  with syncdb_probes [of None "Some redis_Nil" "''/readyz''" "[Some redis_Nil]"] show ?thesis by simp
qed

end
