(* ===== verification/Token_Bucket.thy ===== *)
theory Token_Bucket
  imports Redis_Limiter
begin

text \<open>
  A token bucket as the reference for the distributed limiter. Each key has a bucket of \<open>burst\<close>
  tokens that fills at \<open>rate\<close> tokens a second; a call takes a token, or is told how long it takes
  until there is one. The script of \<open>internal/ratelimit/gcra.lua\<close> keeps one arrival time per key and
  forgets it when it expires; shown is that on exact numbers its answers are those of the bucket.
  The simulation relates the arrival time \<open>tat\<close> to \<open>burst - (tat - now) * rate\<close> tokens.
\<close>

section \<open>The reference\<close>

type_synonym token_buckets = "string \<Rightarrow> rat \<times> int"

definition tokens_at :: "rat \<Rightarrow> rat \<Rightarrow> token_buckets \<Rightarrow> string \<Rightarrow> int \<Rightarrow> rat" where
  "tokens_at rate burst b k t = min burst (fst (b k) + rate / 1000000000 * of_int (t - snd (b k)))"

definition bucket_Allow :: "rat \<Rightarrow> rat \<Rightarrow> token_buckets allow_fun" where
  "bucket_Allow rate burst t k b =
     (let n = tokens_at rate burst b k t
      in if n < 1 then (deny_result (trunc_int ((1 - n) * (1000000000 / rate))), b)
         else (allow_result, b(k := (n - 1, t))))"

definition full_buckets :: "rat \<Rightarrow> int \<Rightarrow> token_buckets" where
  "full_buckets burst t = (\<lambda>_. (burst, t))"

lemma min_fill: "0 \<le> d \<Longrightarrow> min b (min b x + d) = min b (x + d)" for b d x :: rat
  by (simp add: min_def)

lemma tokens_later:
  assumes "0 < rate" "t \<le> t'"
  shows "tokens_at rate burst b k t' = min burst (tokens_at rate burst b k t + rate / 1000000000 * of_int (t' - t))"
proof -
  define c where "c = rate / 1000000000"
  have d: "0 \<le> c * of_int (t' - t)" using assms by (simp add: c_def)
  have "c * of_int (t' - snd (b k)) = c * of_int (t - snd (b k)) + c * of_int (t' - t)"
    by (simp add: algebra_simps)
  then show ?thesis
    unfolding tokens_at_def c_def [symmetric] min_fill [OF d] by (simp add: add.assoc)
qed

lemma tokens_update:
  "n \<le> burst \<Longrightarrow> tokens_at rate burst (b(k := (n, t))) k t = n"
  "k' \<noteq> k \<Longrightarrow> tokens_at rate burst (b(k := x)) k' t = tokens_at rate burst b k' t"
  by (simp_all add: tokens_at_def)

section \<open>The simulation\<close>

definition same_tokens ::
    "('s \<Rightarrow> int \<Rightarrow> string \<Rightarrow> rat option) \<Rightarrow> int \<Rightarrow> rat \<Rightarrow> rat \<Rightarrow> 's \<Rightarrow> token_buckets \<Rightarrow> int \<Rightarrow> bool" where
  "same_tokens kv_get horizon rate burst s b t \<longleftrightarrow>
     gcra_inv kv_get horizon (1000000000 / rate * burst) s t
     \<and> (\<forall>k. gcra_level kv_get (1000000000 / rate * burst) (1000000000 / rate) s k t = tokens_at rate burst b k t)"

locale gcra_exact_config = gcra_config_ok kv_get kv_set exact 0 bound rate burst ttl horizon
  for kv_get :: "'s \<Rightarrow> int \<Rightarrow> string \<Rightarrow> rat option" and kv_set bound rate burst ttl horizon +
  assumes rate_pos: "0 < rate" and burst_nonneg: "0 \<le> burst"
begin

lemma drain_gap: "drain = 1000000000 / rate * burst" "gap = 1000000000 / rate"
  by (simp_all add: gcra_offset_def gcra_interval_def exact_def)

lemma same_tokens_iff:
  "same_tokens kv_get horizon rate burst s b t \<longleftrightarrow> inv s t \<and> (\<forall>k. level s k t = tokens_at rate burst b k t)"
  unfolding same_tokens_def drain_gap ..

lemma level_tokens: "level s k t = burst - (arrival s k t - of_int t) * (rate / 1000000000)"
proof -
  have "(1000000000 / rate * burst - d) / (1000000000 / rate) = burst - d * (rate / 1000000000)" for d
    using rate_pos by (simp add: field_simps)
  then show ?thesis unfolding level_eq unfolding drain_gap .
qed

lemma level_fills:
  assumes inv: "inv s t" and le: "t \<le> t'"
  shows "level s k t' = min burst (level s k t + rate / 1000000000 * of_int (t' - t))"
proof -
  define c where "c = rate / 1000000000"
  have c: "0 < c" and d: "0 \<le> c * of_int (t' - t)" using rate_pos le by (simp_all add: c_def)
  have lev: "level s k u = (case kv_get s u (ratelimit_key k) of None \<Rightarrow> burst
      | Some x \<Rightarrow> min burst (burst - (x - of_int u) * c))" for u
    unfolding level_tokens c_def [symmetric] using c
    by (auto simp: max_def min_def mult_le_0_iff zero_le_mult_iff split: option.split)
  have shift: "burst - (x - of_int t') * c = burst - (x - of_int t) * c + c * of_int (t' - t)" for x
    by (simp add: algebra_simps)
  show ?thesis
  proof (cases "kv_get s t (ratelimit_key k)")
    case None
    with get_later_none [OF le None] d show ?thesis unfolding lev c_def [symmetric] by (simp add: min_def)
  next
    case (Some x)
    note at_t = this
    show ?thesis
    proof (cases "kv_get s t' (ratelimit_key k)")
      case None
      with inv at_t le have "x \<le> of_int t'" by (auto simp: gcra_inv_def)
      then have "(x - of_int t') * c \<le> 0" using c by (simp add: mult_le_0_iff)
      then have "burst \<le> burst - (x - of_int t) * c + c * of_int (t' - t)" using shift [of x] by linarith
      with d None at_t show ?thesis unfolding lev c_def [symmetric] by (simp add: min_def)
    next
      case (Some y)
      with get_later_some [OF le at_t] have "y = x" by simp
      with Some at_t d shift [of x] show ?thesis unfolding lev c_def [symmetric] by (simp add: min_def)
    qed
  qed
qed

lemma same_tokens_later:
  assumes "same_tokens kv_get horizon rate burst s b t" "t \<le> t'" "t' \<le> horizon"
  shows "same_tokens kv_get horizon rate burst s b t'"
proof -
  from assms(1) have inv: "inv s t" and eq: "level s k t = tokens_at rate burst b k t" for k
    unfolding same_tokens_iff by simp_all
  show ?thesis
    unfolding same_tokens_iff level_fills [OF inv assms(2)] tokens_later [OF rate_pos assms(2), of burst b] eq
    using inv_later [OF inv assms(2,3)] by simp
qed

text \<open>One call is answered alike.\<close>

lemma call_alike:
  assumes sim: "same_tokens kv_get horizon rate burst s b t" and call: "gcra_allow t k s = (r, s')"
  shows "\<exists>b'. bucket_Allow rate burst t k b = (r, b') \<and> same_tokens kv_get horizon rate burst s' b' t"
proof -
  let ?n = "tokens_at rate burst b k t" and ?I = "1000000000 / rate"
  define new where "new = arrival s k t + ?I"
  define m where "m = arrival s k t - of_int t"
  have I: "0 < ?I" using rate_pos by simp
  have inv: "inv s t" and eq: "level s k' t = tokens_at rate burst b k' t" for k'
    using sim unfolding same_tokens_iff by simp_all
  have n: "?n = burst - m * (rate / 1000000000)" using eq [of k] level_tokens [of s k t] by (simp only: m_def)
  have "m * (rate / 1000000000) * ?I = m" using rate_pos by simp
  moreover have "(1 - (burst - m * c)) * i = i - i * burst + m * c * i" for c i :: rat
    by (simp add: algebra_simps)
  ultimately have "(1 - ?n) * ?I = ?I - ?I * burst + m" by (simp only: n)
  then have wait: "(1 - ?n) * ?I = new - ?I * burst - of_int t" by (simp add: new_def m_def)
  have deny: "of_int t < new - ?I * burst \<longleftrightarrow> ?n < 1"
    using wait I by (metis diff_gt_0_iff_gt mult_pos_pos zero_less_mult_pos2)
  have resp: "(r, s') = (if ?n < 1 then (deny_result (trunc_int ((1 - ?n) * ?I)), s)
      else (allow_result, kv_set s t (ratelimit_key k) new (dur_millis ttl)))"
    using call wait deny unfolding new_def
    by (auto simp: redis_Allow_def gcra_script_def Let_def exact_def gcra_interval_def gcra_offset_def split: if_splits)
  show ?thesis
  proof (cases "?n < 1")
    case True
    with resp sim show ?thesis by (simp add: bucket_Allow_def)
  next
    case False
    with resp have s': "s' = kv_set s t (ratelimit_key k) new (dur_millis ttl)" and r: "r = allow_result" by simp_all
    have "of_int t \<le> arrival s k t" by simp
    with I have "of_int t \<le> new" unfolding new_def by linarith
    then have at: "arrival s' k t = new"
      using get_set_now [of "dur_millis ttl" s t "ratelimit_key k" new] ttl_pos by (simp add: s')
    have "level s' k t = level s k t - 1"
      unfolding level_eq at unfolding new_def drain_gap by (rule level_arith(1) [OF I])
    then have "level s' k t = ?n - 1" by (simp only: eq)
    moreover have "?n - 1 \<le> burst" by (simp add: tokens_at_def min_def)
    ultimately have "level s' k' t = tokens_at rate burst (b(k := (?n - 1, t))) k' t" for k'
      using allow_level(2) [OF inv call, of k'] eq [of k'] by (cases "k' = k") (simp_all add: tokens_update)
    moreover have "inv s' t" by (rule inv_allow [OF inv call])
    ultimately have "same_tokens kv_get horizon rate burst s' (b(k := (?n - 1, t))) t" unfolding same_tokens_iff by simp
    with False show ?thesis by (simp add: bucket_Allow_def r Let_def)
  qed
qed

lemma calls_alike:
  "same_tokens kv_get horizon rate burst s b t0 \<Longrightarrow> calls_within t0 t1 cs \<Longrightarrow> t1 \<le> horizon \<Longrightarrow>
     fst (run_calls gcra_allow s cs) = fst (run_calls (bucket_Allow rate burst) b cs)"
proof (induction cs arbitrary: s b t0)
  case (Cons call cs)
  obtain t k where c: "call = (t, k)" by (cases call)
  obtain r s' where a: "gcra_allow t k s = (r, s')" by (metis surj_pair)
  from Cons.prems have le: "t0 \<le> t" and rest: "calls_within t t1 cs" by (simp_all add: c)
  have "t \<le> horizon" using calls_within_le [OF rest] Cons.prems(3) by simp
  from same_tokens_later [OF Cons.prems(1) le this] a obtain b' where
    b: "bucket_Allow rate burst t k b = (r, b')" "same_tokens kv_get horizon rate burst s' b' t"
    using call_alike by blast
  from Cons.IH [OF b(2) rest Cons.prems(3)]
  have "fst (run_calls gcra_allow s' cs) = fst (run_calls (bucket_Allow rate burst) b' cs)" .
  then show ?case by (simp add: c a b(1) case_prod_unfold Let_def)
qed simp

end

interpretation gcra_shipped_exact: gcra_exact_config ref_get ref_set "of_int horizon + 11000000000" "6/5" 12 30000000000 horizon
  for horizon
  by unfold_locales simp_all

section \<open>Properties\<close>

text \<open>C7. The distributed limiter is a token bucket: on exact numbers, over any store with the documented
  behaviour that starts without entries, with an entry's life at least the drain time of a burst, it
  gives any sequence of calls the answers, with their delays, of a bucket per key that starts full.\<close>

theorem gcra_is_token_bucket:
  fixes kv_get :: "'s \<Rightarrow> int \<Rightarrow> string \<Rightarrow> rat option"
  assumes "kv_store kv_get kv_set"
    and "0 < rate" "0 \<le> burst" "0 < dur_millis ttl"
    and "1000000000 / rate * of_int burst \<le> of_int (dur_millis ttl * nanos_per_milli)"
    and "\<And>k. kv_get s t0 k = None" "calls_within t0 t1 cs"
  shows "fst (run_calls (redis_Allow kv_get kv_set exact (redis_new exact rate burst ttl) True) s cs)
    = fst (run_calls (bucket_Allow rate (of_int burst)) (full_buckets (of_int burst) t0) cs)"
proof -
  define h where "h = max \<bar>t0\<bar> \<bar>t1\<bar>"
  have cfg: "gcra_exact_config kv_get kv_set
      (of_int h + 1000000000 / rate * of_int burst + 1000000000 / rate + 1) rate (of_int burst) ttl h"
    using exact_config [OF assms(1-5)] assms(2,3) by (simp add: gcra_exact_config_def gcra_exact_config_axioms_def)
  have "same_tokens kv_get h rate (of_int burst) s (full_buckets (of_int burst) t0) t0"
    using assms(2,6) by (simp add: same_tokens_def gcra_inv_def gcra_level_def tokens_at_def full_buckets_def h_def)
  from gcra_exact_config.calls_alike [OF cfg this assms(7)] show ?thesis
    by (simp add: redis_new_def exact_def h_def)
qed

theorem gcra_is_token_bucket_witness:
  "fst (run_calls (redis_Allow ref_get ref_set exact (redis_new exact 1 1 30000000000) True) Map.empty
      [(0, ''a''), (250000000, ''a''), (1000000000, ''a'')])
    = [allow_result, deny_result 750000000, allow_result]"
  by (subst gcra_is_token_bucket [OF ref.kv_store_axioms, where ?t0.0 = 0 and ?t1.0 = 1000000000])
     (simp_all add: dur_millis_def nanos_per_milli_def ref_get_def bucket_Allow_def tokens_at_def full_buckets_def
       Let_def trunc_int_def)

end
