(* ===== verification/Dispatch.thy ===== *)
theory Dispatch
  imports Session
begin

text \<open>
  What a session promises, as a machine of four steps: offers are made; while nothing runs one of them
  is taken up, once; it ends; or none is ever taken. The offers are what the client has been granted
  and the worker has not taken. The detailed session of \<open>internal/sshd/connector.go\<close>, with its two
  goroutines, its channels and its blocked sends, implements it: each of its steps is a step of the
  machine or leaves it where it is.
\<close>

section \<open>The machine\<close>

datatype stage = Idle | Busy handler | Over

record dispatch =
  d_stage :: stage
  d_offers :: "handler set"
  d_taken :: "handler list"

definition dispatch_new :: dispatch where
  "dispatch_new = \<lparr>d_stage = Idle, d_offers = {}, d_taken = []\<rparr>"

inductive dispatch_step :: "dispatch \<Rightarrow> dispatch \<Rightarrow> bool" where
  offer: "dispatch_step d (d\<lparr>d_offers := insert h (d_offers d)\<rparr>)"
| take: "d_stage d = Idle \<Longrightarrow> h \<in> d_offers d \<Longrightarrow> left = d_offers d - (if \<exists>c. h = ExecRun c then {h} else {}) \<Longrightarrow>
     dispatch_step d (d\<lparr>d_stage := Busy h, d_offers := left, d_taken := h # d_taken d\<rparr>)"
| finish: "d_stage d = Busy h \<Longrightarrow> dispatch_step d (d\<lparr>d_stage := Over\<rparr>)"
| give_up: "d_stage d = Idle \<Longrightarrow> dispatch_step d (d\<lparr>d_stage := Over\<rparr>)"

inductive_cases dispatch_step_cases: "dispatch_step d d'"

definition dispatch_reach :: "dispatch \<Rightarrow> bool" where
  "dispatch_reach = reach (\<lambda>d. d = dispatch_new) dispatch_step"

text \<open>The promise: at most one handler is ever taken.\<close>

definition one_taken :: "dispatch \<Rightarrow> bool" where
  "one_taken d \<longleftrightarrow> length (d_taken d) \<le> 1 \<and> (d_stage d = Idle \<longrightarrow> d_taken d = []) \<and> (\<forall>h. d_stage d = Busy h \<longrightarrow> d_taken d = [h])"

lemma dispatch_one_taken: "dispatch_reach d \<Longrightarrow> one_taken d"
  unfolding dispatch_reach_def
proof (erule reach_invariant)
  show "d = dispatch_new \<Longrightarrow> one_taken d" for d by (simp add: one_taken_def dispatch_new_def)
  show "one_taken d \<Longrightarrow> dispatch_step d d' \<Longrightarrow> one_taken d'" for d d'
    by (erule dispatch_step_cases) (auto simp: one_taken_def)
qed

section \<open>The session implements it\<close>

definition stage_of :: "worker \<Rightarrow> stage" where
  "stage_of w = (case w of Selecting \<Rightarrow> Idle | Running h \<Rightarrow> Busy h | Finished e \<Rightarrow> Over)"

definition offers_of :: "session \<Rightarrow> handler set" where
  "offers_of s = {h. h = ShellRun \<and> s_shell s \<or> h = SftpRun \<and> s_sftp s \<or> (\<exists>c \<in> set (s_exec s). h = ExecRun c)}"

definition dispatch_of :: "session \<Rightarrow> dispatch" where
  "dispatch_of s = \<lparr>d_stage = stage_of (s_worker s), d_offers = offers_of s, d_taken = s_started s\<rparr>"

lemmas dispatch_simps = dispatch_of_def stage_of_def offers_of_def

text \<open>The steps of the machine, up to equality of the state they end in.\<close>

lemma offer_to: "d' = d\<lparr>d_offers := insert h (d_offers d)\<rparr> \<Longrightarrow> dispatch_step\<^sup>=\<^sup>= d d'"
  using dispatch_step.offer by auto

lemma over_to:
  "d' = d\<lparr>d_stage := Over\<rparr> \<Longrightarrow> d_stage d \<noteq> Over \<Longrightarrow> dispatch_step\<^sup>=\<^sup>= d d'"
  by (cases "d_stage d") (auto intro: dispatch_step.finish dispatch_step.give_up)

lemma take_to:
  "d_stage d = Idle \<Longrightarrow> h \<in> d_offers d \<Longrightarrow>
     d' = d\<lparr>d_stage := Busy h, d_offers := d_offers d - (if \<exists>c. h = ExecRun c then {h} else {}), d_taken := h # d_taken d\<rparr> \<Longrightarrow>
     dispatch_step\<^sup>=\<^sup>= d d'"
  using dispatch_step.take [OF _ _ refl] by auto

lemma exec_offer:
  assumes "length (s_exec s) < exec_cap"
  shows "dispatch_step\<^sup>=\<^sup>= (dispatch_of s) (dispatch_of (send_exec c r s))"
  using assms by (intro offer_to [where h = "ExecRun c"]) (auto simp: dispatch_simps session_op_defs exec_cap_def)

lemma request_dispatch: "dispatch_step\<^sup>=\<^sup>= (dispatch_of s) (dispatch_of (handle_request r s))"
proof (cases "(r, s)" rule: handle_request.cases)
  case (7 s')
  show ?thesis
  proof (cases "s_shell s'")
    case False
    with 7 show ?thesis
      by (intro offer_to [where h = ShellRun]) (auto simp: dispatch_simps session_op_defs)
  qed (use 7 in \<open>simp add: dispatch_simps session_op_defs\<close>)
next
  case (9 e s')
  then show ?thesis
    using exec_offer [of s "Command e" r]
    by (cases "length (s_exec s) < exec_cap") (auto simp: send_exec_def dispatch_simps)
next
  case (11 e s')
  show ?thesis
  proof (cases "s_sftp s' \<or> SubsystemName e \<noteq> sftp_name")
    case False
    with 11 show ?thesis
      by (intro offer_to [where h = SftpRun]) (auto simp: dispatch_simps session_op_defs)
  qed (use 11 in \<open>auto simp: dispatch_simps session_op_defs\<close>)
qed (simp_all add: dispatch_simps session_op_defs)

lemma act_dispatch:
  assumes "session_act s s'" "bounded s"
  shows "dispatch_step\<^sup>=\<^sup>= (dispatch_of s) (dispatch_of s')"
  using assms
proof (induction rule: session_act.induct)
  case (request s r)
  have "dispatch_of (s\<lparr>s_received := r # s_received s\<rparr>) = dispatch_of s" by (simp add: dispatch_simps)
  with request_dispatch [of "s\<lparr>s_received := r # s_received s\<rparr>" r] show ?case by (simp add: receive_request_def)
next
  case (exec_sent s cmd r)
  then show ?case by (intro exec_offer) simp
next
  case (start_shell s)
  then show ?case by (intro take_to [where h = ShellRun]) (auto simp: dispatch_simps session_op_defs)
next
  case (start_sftp s)
  then show ?case by (intro take_to [where h = SftpRun]) (auto simp: dispatch_simps session_op_defs)
next
  case (start_exec s cmd cmds)
  then have "cmds = []" by (cases cmds) (auto simp: bounded_def exec_cap_def)
  with start_exec show ?case
    by (intro take_to [where h = "ExecRun cmd"]) (auto simp: dispatch_simps session_op_defs)
next
  case (finish s h e se)
  then show ?case by (intro over_to) (cases h; simp add: dispatch_simps finish_handler_def)+
next
  case (worker_cancelled s e)
  then show ?case by (intro over_to) (simp_all add: dispatch_simps)
next
  case (worker_timeout s)
  then show ?case by (intro over_to) (simp_all add: dispatch_simps)
qed (simp_all add: dispatch_simps session_op_defs)

lemma dispatch_of_new: "dispatch_of (NewSession now) = dispatch_new"
  by (simp add: dispatch_simps NewSession_def dispatch_new_def)

lemma reach_dispatch: "session_reach s \<Longrightarrow> dispatch_reach (dispatch_of s)"
proof -
  assume "session_reach s"
  then have "session_reach s \<and> dispatch_reach (dispatch_of s)"
    unfolding session_reach_def
  proof (induction rule: reach.induct)
    case (reach_init s)
    then show ?case
      by (auto simp: dispatch_of_new dispatch_reach_def intro: reach.intros)
  next
    case (reach_step s s')
    then have "bounded s" using session_inv_reach [of s] by (simp add: session_reach_def session_inv_def)
    with reach_step have "dispatch_step\<^sup>=\<^sup>= (dispatch_of s) (dispatch_of s')"
      by (intro act_dispatch) (simp_all add: session_step_def)
    with reach_step show ?case
      by (auto simp: dispatch_reach_def intro: reach.reach_step)
  qed
  then show ?thesis by simp
qed

section \<open>Properties\<close>

text \<open>C10. Refinement: every state a session reaches stands for a state of the dispatching machine that the
  machine reaches, and every step it takes there for a step of the machine or for none.\<close>

theorem session_refines:
  assumes "session_reach s"
  shows "dispatch_reach (dispatch_of s)
    \<and> (session_step s s' \<longrightarrow> dispatch_of s' = dispatch_of s \<or> dispatch_step (dispatch_of s) (dispatch_of s'))"
  using reach_dispatch [OF assms] act_dispatch [of s s'] session_inv_reach [OF assms]
  by (auto simp: session_step_def session_inv_def)

theorem session_refines_witness:
  "dispatch_step (dispatch_of (NewSession 0)) (dispatch_of (receive_request ReqShell (NewSession 0)))"
proof -
  have "session_step (NewSession 0) (receive_request ReqShell (NewSession 0))"
    using session_act.request [of "NewSession 0" ReqShell]
    by (simp add: session_step_def alive_def NewSession_def)
  moreover have "offers_of (receive_request ReqShell (NewSession 0)) \<noteq> offers_of (NewSession 0)"
    by (auto simp: offers_of_def session_op_defs NewSession_def)
  ultimately show ?thesis
    using session_refines [OF session_reach_new [of 0], of "receive_request ReqShell (NewSession 0)"]
    by (auto simp: dispatch_of_def)
qed

end
