(* ===== verification/Client_Conn.thy ===== *)
theory Client_Conn
  imports Connector Session K8s_Handler
begin

text \<open>
  A client connection with all that runs for it: the channel loop and the goroutines of
  \<open>ConnectorImpl.Handle\<close> (theory \<open>Connector\<close>), a session for each session channel (\<open>Session\<close>) that
  calls the Kubernetes handlers (\<open>K8s_Handler\<close>), and a forward manager for each tunnel
  (\<open>Forward_Manager\<close>). The steps of the parts are interleaved. They meet where the code calls from one
  into another: an accepted channel starts its session; the goroutine of a session ends with what the
  session reports; the first channel to a destination calls \<open>OpenTunnel\<close>; a forwarding goroutine is a
  call of \<open>Forward\<close> and ends with its result; after the loop each tunnel is closed; the end of the
  context reaches all of them. The pods that are listed may differ from call to call.

  A handler begins with its look-up and then does in the cluster what it does one effect at a time,
  interleaved with all the rest, until it returns: \<open>c_runs\<close> has, for each channel, the result its handler
  will return and what it has still to do, and \<open>c_effects\<close> what has been done, latest first. A handler
  that waits (an open shell, an agent that is not yet there) is one that has not done its last effects.
\<close>

record client =
  c_conn :: conn_state
  c_ctx :: "gerror option"
  c_sess :: "nat \<Rightarrow> session option"
  c_runs :: "nat \<Rightarrow> (gerror option \<times> k8s_effect list) option"
  c_mgrs :: "forward_manager list"
  c_gauges :: tunnel_gauges
  c_calls :: "nat \<Rightarrow> nat option"
  c_effects :: "k8s_effect list"
  c_panic :: bool

definition client_start :: "tunnel_gauges \<Rightarrow> client" where
  "client_start g0 =
     \<lparr>c_conn = conn_start, c_ctx = None, c_sess = Map.empty, c_runs = Map.empty, c_mgrs = [], c_gauges = g0, c_calls = Map.empty,
      c_effects = [], c_panic = False\<rparr>"

text \<open>A panic anywhere ends the process.\<close>

definition client_live :: "client \<Rightarrow> bool" where
  "client_live s \<longleftrightarrow>
     \<not> c_panic s \<and> k_phase (c_conn s) \<noteq> Panicked \<and> (\<forall>c t. c_sess s c = Some t \<longrightarrow> alive t)"

text \<open>The handler a session runs.\<close>

definition run_handler ::
    "cluster \<Rightarrow> (identity \<Rightarrow> (gerror + target option) go) \<Rightarrow> gerror + agent_pod \<Rightarrow> agent_event list \<Rightarrow>
     identity \<Rightarrow> handler \<Rightarrow> (gerror option option \<times> k8s_effect list) go" where
  "run_handler cl resolve got events identity h =
     (case h of
        ShellRun \<Rightarrow> go_bind (HandleShell cl resolve identity) (\<lambda>(e, effs). Ret (Some e, effs))
      | ExecRun command \<Rightarrow> go_bind (HandleExec cl resolve identity [command]) (\<lambda>(e, effs). Ret (Some e, effs))
      | SftpRun \<Rightarrow> HandleSFTP cl resolve got events identity)"

text \<open>An accepted session channel gets its session, under the context of the connector.\<close>

definition open_session :: "int \<Rightarrow> bool \<Rightarrow> client \<Rightarrow> client" where
  "open_session now accepted s =
     (let c = k_next (c_conn s); k = handle_channel (SessionChannel accepted) (c_conn s)
      in s\<lparr>c_conn := k,
           c_sess := (if SessionTask c \<in> set (k_tasks k)
                      then (c_sess s)(c \<mapsto> (NewSession now)\<lparr>s_ctx := c_ctx s\<rparr>) else c_sess s)\<rparr>)"

text \<open>A forwarding channel needs a new tunnel when it is the first to its destination.\<close>

definition tunnel_needed :: "DirectTCPIP \<Rightarrow> client \<Rightarrow> bool" where
  "tunnel_needed q s \<longleftrightarrow> map_of (k_forwarded (c_conn s)) (direct_key q) = None"

definition open_direct ::
    "DirectTCPIP \<Rightarrow> (gerror + forward_manager) \<times> tunnel_gauges \<Rightarrow> bool \<Rightarrow> client \<Rightarrow> client" where
  "open_direct q opened accepted s =
     (case opened of
        (Inl err, g) \<Rightarrow>
          s\<lparr>c_conn := handle_channel (DirectChannel (Some q) (Inl err) accepted) (c_conn s), c_gauges := g\<rparr>
      | (Inr fm, g) \<Rightarrow>
          s\<lparr>c_conn := handle_channel (DirectChannel (Some q) (Inr (Some (length (c_mgrs s)))) accepted) (c_conn s),
            c_mgrs := c_mgrs s @ [fm], c_gauges := g\<rparr>)"

definition enter_forward :: "nat \<Rightarrow> forwarder \<Rightarrow> client \<Rightarrow> client" where
  "enter_forward c f s =
     s\<lparr>c_calls := (c_calls s)(c \<mapsto> length (fm_calls (c_mgrs s ! f))),
       c_mgrs := (c_mgrs s)[f := forward_enter (c_mgrs s ! f)]\<rparr>"

definition close_forwarded :: "string list \<Rightarrow> string \<Rightarrow> client \<Rightarrow> client" where
  "close_forwarded keys key s =
     (let s' = s\<lparr>c_conn := close_tunnel keys key (c_conn s)\<rparr>
      in case map_of (k_forwarded (c_conn s)) key of
           Some (Some f) \<Rightarrow>
             (let (g, fm) = fm_Close (c_gauges s, c_mgrs s ! f)
              in s'\<lparr>c_gauges := g, c_mgrs := (c_mgrs s)[f := fm]\<rparr>)
         | _ \<Rightarrow> s')"

text \<open>The context ends for the connection, its sessions and its tunnels.\<close>

definition cancel_all :: "gerror \<Rightarrow> client \<Rightarrow> client" where
  "cancel_all e s =
     s\<lparr>c_ctx := Some e, c_sess := (\<lambda>c. map_option (\<lambda>t. t\<lparr>s_ctx := Some e\<rparr>) (c_sess s c)),
       c_mgrs := map (\<lambda>fm. fm\<lparr>fm_ctx := Some e\<rparr>) (c_mgrs s)\<rparr>"

inductive client_act :: "pod set \<Rightarrow> string \<Rightarrow> identity \<Rightarrow> client \<Rightarrow> client \<Rightarrow> bool" 
  for cps :: "pod set" and ns :: string and ident :: identity where
  session_channel: "k_phase (c_conn s) = Serving \<Longrightarrow> client_act cps ns ident s (open_session now accepted s)"
| other_channel: "k_phase (c_conn s) = Serving \<Longrightarrow>
     client_act cps ns ident s (s\<lparr>c_conn := handle_channel (OtherChannel ty) (c_conn s)\<rparr>)"
| direct_bad: "k_phase (c_conn s) = Serving \<Longrightarrow>
     client_act cps ns ident s (s\<lparr>c_conn := handle_channel (DirectChannel None answer accepted) (c_conn s)\<rparr>)"
| direct_known: "k_phase (c_conn s) = Serving \<Longrightarrow> \<not> tunnel_needed q s \<Longrightarrow>
     client_act cps ns ident s (s\<lparr>c_conn := handle_channel (DirectChannel (Some q) answer accepted) (c_conn s)\<rparr>)"
| direct_new: "k_phase (c_conn s) = Serving \<Longrightarrow> tunnel_needed q s \<Longrightarrow> pod_lister cps list_pods \<Longrightarrow>
     OpenTunnel (label_Resolve list_pods ns) transport_err dial (c_ctx s) ident q (c_gauges s) = Ret opened \<Longrightarrow>
     client_act cps ns ident s (open_direct q opened accepted s)"
| direct_panics: "k_phase (c_conn s) = Serving \<Longrightarrow> tunnel_needed q s \<Longrightarrow> pod_lister cps list_pods \<Longrightarrow>
     OpenTunnel (label_Resolve list_pods ns) transport_err dial (c_ctx s) ident q (c_gauges s) = Panic m \<Longrightarrow>
     client_act cps ns ident s (s\<lparr>c_panic := True\<rparr>)"
| session: "c_sess s c = Some t \<Longrightarrow> own_act t t' \<Longrightarrow> client_act cps ns ident s (s\<lparr>c_sess := (c_sess s)(c \<mapsto> t')\<rparr>)"
| handler_begins: "c_sess s c = Some t \<Longrightarrow> s_worker t = Running h \<Longrightarrow> c_runs s c = None \<Longrightarrow> pod_lister cps list_pods \<Longrightarrow>
     run_handler cl (label_Resolve list_pods ns) got events ident h = Ret (Some e, effs) \<Longrightarrow>
     client_act cps ns ident s (s\<lparr>c_runs := (c_runs s)(c \<mapsto> (e, effs))\<rparr>)"
| handler_acts: "c_runs s c = Some (e, x # effs) \<Longrightarrow>
     client_act cps ns ident s (s\<lparr>c_runs := (c_runs s)(c \<mapsto> (e, effs)), c_effects := x # c_effects s\<rparr>)"
| handler_ends: "c_sess s c = Some t \<Longrightarrow> s_worker t = Running h \<Longrightarrow> c_runs s c = Some (e, []) \<Longrightarrow>
     client_act cps ns ident s (s\<lparr>c_sess := (c_sess s)(c \<mapsto> finish_handler h e se t)\<rparr>)"
| handler_panics: "c_sess s c = Some t \<Longrightarrow> s_worker t = Running h \<Longrightarrow> c_runs s c = None \<Longrightarrow> pod_lister cps list_pods \<Longrightarrow>
     run_handler cl (label_Resolve list_pods ns) got events ident h = Panic m \<Longrightarrow>
     client_act cps ns ident s (s\<lparr>c_panic := True\<rparr>)"
| session_returns: "SessionTask c \<in> set (k_tasks (c_conn s)) \<Longrightarrow> c_sess s c = Some t \<Longrightarrow> s_main t = Reported e \<Longrightarrow>
     client_act cps ns ident s (s\<lparr>c_conn := task_end (SessionTask c) e (c_conn s)\<rparr>)"
| forward_enters: "ForwardTask c key f \<in> set (k_tasks (c_conn s)) \<Longrightarrow> c_calls s c = None \<Longrightarrow>
     client_act cps ns ident s (enter_forward c f s)"
| forward_moves: "f < length (c_mgrs s) \<Longrightarrow> fm_call (c_gauges s, c_mgrs s ! f) (g, fm) \<Longrightarrow>
     client_act cps ns ident s (s\<lparr>c_gauges := g, c_mgrs := (c_mgrs s)[f := fm]\<rparr>)"
| forward_returns: "ForwardTask c key f \<in> set (k_tasks (c_conn s)) \<Longrightarrow> c_calls s c = Some i \<Longrightarrow>
     i < length (fm_calls (c_mgrs s ! f)) \<Longrightarrow> fm_calls (c_mgrs s ! f) ! i = CallDone r \<Longrightarrow>
     client_act cps ns ident s (s\<lparr>c_conn := task_end (ForwardTask c key f) r (c_conn s)\<rparr>)"
| global_returns: "GlobalTask \<in> set (k_tasks (c_conn s)) \<Longrightarrow> handleGlobalReqs es = (replies, Some r) \<Longrightarrow>
     \<forall>e. GlobalDone e \<in> set es \<longrightarrow> c_ctx s = Some e \<Longrightarrow>
     client_act cps ns ident s (s\<lparr>c_conn := task_end GlobalTask r (c_conn s)\<rparr>)"
| leave: "k_phase (c_conn s) = Serving \<Longrightarrow> client_act cps ns ident s (s\<lparr>c_conn := leave_loop (c_conn s)\<rparr>)"
| close: "k_phase (c_conn s) = Closing keys \<Longrightarrow> key \<in> set keys \<Longrightarrow>
     client_act cps ns ident s (close_forwarded keys key s)"
| drain: "k_phase (c_conn s) = Closing [] \<Longrightarrow>
     client_act cps ns ident s (s\<lparr>c_conn := (c_conn s)\<lparr>k_phase := Draining\<rparr>\<rparr>)"
| wait: "k_phase (c_conn s) = Draining \<Longrightarrow> k_tasks (c_conn s) = [] \<Longrightarrow>
     client_act cps ns ident s (s\<lparr>c_conn := (c_conn s)\<lparr>k_phase := Over (k_err (c_conn s))\<rparr>\<rparr>)"
| cancel: "c_ctx s = None \<Longrightarrow> client_act cps ns ident s (cancel_all e s)"

definition client_step :: "pod set \<Rightarrow> string \<Rightarrow> identity \<Rightarrow> client \<Rightarrow> client \<Rightarrow> bool" where
  "client_step cps ns ident s s' \<longleftrightarrow> client_live s \<and> client_act cps ns ident s s'"

definition client_reach :: "pod set \<Rightarrow> string \<Rightarrow> identity \<Rightarrow> tunnel_gauges \<Rightarrow> client \<Rightarrow> bool" where
  "client_reach cps ns ident g0 = reach (\<lambda>s. s = client_start g0) (client_step cps ns ident)"

section \<open>The parts refine\<close>

text \<open>Each step is a step of the channel loop or leaves it as it is.\<close>

lemma act_conn:
  assumes "client_act cps ns ident s s'" "client_live s"
  shows "conn_step (c_conn s) (c_conn s') \<or> c_conn s' = c_conn s"
  using assms
proof (cases rule: client_act.cases)
  case (direct_new q list_pods te dial opened accepted)
  then show ?thesis
    by (cases opened; cases "fst opened") (auto simp: open_direct_def intro: conn_step.channel)
next
  case (close keys key)
  then have "conn_step (c_conn s) (close_tunnel keys key (c_conn s))" by (intro conn_step.close)
  with close show ?thesis
    by (auto simp: close_forwarded_def Let_def split: option.split prod.split)
qed (auto simp: open_session_def enter_forward_def cancel_all_def client_live_def Let_def intro: conn_step.intros)

text \<open>The sessions and the tunnels are under the context of the connection.\<close>

definition ctx_ok :: "client \<Rightarrow> bool" where
  "ctx_ok s \<longleftrightarrow>
     (\<forall>c t. c_sess s c = Some t \<longrightarrow> s_ctx t = c_ctx s) \<and> (\<forall>fm \<in> set (c_mgrs s). fm_ctx fm = c_ctx s)"

lemma finish_handler_fields:
  "s_ctx (finish_handler h e se t) = s_ctx t" "s_main (finish_handler h e se t) = s_main t"
  by (cases h; simp add: finish_handler_def)+

lemma all_update:
  assumes "\<forall>x \<in> set xs. P x" "i < length xs \<Longrightarrow> P y"
  shows "\<forall>x \<in> set (xs[i := y]). P x"
  using assms by (cases "i < length xs") (auto simp: list_update_beyond dest!: subsetD [OF set_update_subset_insert])

lemma forward_enter_fields [simp]:
  "fm_ctx (forward_enter fm) = fm_ctx fm" "fm_closed (forward_enter fm) = fm_closed fm"
  "fm_port (forward_enter fm) = fm_port fm" "fm_pod (forward_enter fm) = fm_pod fm"
  "fm_namespace (forward_enter fm) = fm_namespace fm" "fm_inv fm \<Longrightarrow> fm_inv (forward_enter fm)"
  "streams_of (forward_enter fm) = streams_of fm" "forwards_of (forward_enter fm) = forwards_of fm"
  using step_fm_inv [OF fm_step.enter [of undefined fm]]
  by (auto simp: forward_enter_def streams_of_def forwards_of_def)

lemma act_ctx_ok:
  assumes "client_act cps ns ident s s'" "ctx_ok s"
  shows "ctx_ok s'"
  using assms
proof (cases rule: client_act.cases)
  case (direct_new q list_pods te dial opened accepted)
  show ?thesis
  proof (cases opened)
    case (Pair r g)
    show ?thesis
    proof (cases r)
      case (Inl err)
      with direct_new Pair assms(2) show ?thesis by (simp add: ctx_ok_def open_direct_def)
    next
      case (Inr fm)
      have "OpenTunnel (label_Resolve list_pods ns) te dial (c_ctx s) ident q (c_gauges s) = Ret (Inr fm, g)"
        using direct_new Pair Inr by simp
      then have "fm_ctx fm = c_ctx s" by (rule OpenTunnel_Inr)
      with direct_new Pair Inr assms(2) show ?thesis by (auto simp: ctx_ok_def open_direct_def)
    qed
  qed
next
  case (forward_enters c key f)
  have "\<forall>fm \<in> set ((c_mgrs s)[f := forward_enter (c_mgrs s ! f)]). fm_ctx fm = c_ctx s"
    using assms(2) by (intro all_update) (simp_all add: ctx_ok_def)
  with forward_enters assms(2) show ?thesis by (simp add: ctx_ok_def enter_forward_def)
next
  case (forward_moves f g fm)
  have "\<forall>fm \<in> set ((c_mgrs s)[f := fm]). fm_ctx fm = c_ctx s"
    using assms(2) fm_call_fields [OF forward_moves(3)] by (intro all_update) (simp_all add: ctx_ok_def)
  with forward_moves assms(2) show ?thesis by (simp add: ctx_ok_def)
next
  case (close keys key)
  have "\<forall>fm \<in> set ((c_mgrs s)[f := snd (fm_Close (c_gauges s, c_mgrs s ! f))]). fm_ctx fm = c_ctx s" for f
    using assms(2) by (intro all_update) (auto simp: ctx_ok_def fm_Close_def)
  with close assms(2) show ?thesis
    by (auto simp: ctx_ok_def close_forwarded_def Let_def case_prod_beta split: option.split)
qed (auto simp: ctx_ok_def open_session_def cancel_all_def own_act_def finish_handler_fields Let_def split: if_splits)

text \<open>A channel that is handled starts at most one goroutine, of its kind and under its number.\<close>

lemma handle_channel_adds:
  obtains ts xs where "k_tasks (handle_channel ch s) = ts @ k_tasks s" "k_status (handle_channel ch s) = xs @ k_status s"
    "k_next (handle_channel ch s) = Suc (k_next s)" "k_fwclosed (handle_channel ch s) = k_fwclosed s"
    "\<And>t. t \<in> set ts \<Longrightarrow> task_channel t = Some (k_next s)"
    "\<And>c. SessionTask c \<in> set ts \<Longrightarrow> \<exists>a. ch = SessionChannel a"
    "\<And>c key f. ForwardTask c key f \<in> set ts \<Longrightarrow> \<exists>p r a. ch = DirectChannel p r a"
proof -
  have "\<exists>ts xs. k_tasks (handle_channel ch s) = ts @ k_tasks s \<and> k_status (handle_channel ch s) = xs @ k_status s
      \<and> k_next (handle_channel ch s) = Suc (k_next s) \<and> k_fwclosed (handle_channel ch s) = k_fwclosed s
      \<and> (\<forall>t \<in> set ts. task_channel t = Some (k_next s))
      \<and> (\<forall>c. SessionTask c \<in> set ts \<longrightarrow> (\<exists>a. ch = SessionChannel a))
      \<and> (\<forall>c key f. ForwardTask c key f \<in> set ts \<longrightarrow> (\<exists>p r a. ch = DirectChannel p r a))"
    by (cases ch) (auto simp: conn_op_defs task_channel_def split: option.split sum.split)
  then show thesis
    apply (elim exE conjE)
    apply (rule that)
    apply assumption+
    apply blast+
    done
qed

lemma new_session_reach: "session_reach ((NewSession now)\<lparr>s_ctx := e\<rparr>)"
proof (cases e)
  case None
  have "(NewSession now)\<lparr>s_ctx := None\<rparr> = NewSession now" by (simp add: NewSession_def)
  with None session_reach_new show ?thesis by simp
next
  case (Some e')
  show ?thesis unfolding Some
    by (rule session_reach_act [OF session_reach_new [of now]], simp add: alive_def NewSession_def)
       (rule session_act.cancel, simp add: NewSession_def)
qed

lemma new_session_steps: "session_step\<^sup>*\<^sup>* (NewSession now) ((NewSession now)\<lparr>s_ctx := e\<rparr>)"
proof (cases e)
  case None
  have "(NewSession now)\<lparr>s_ctx := None\<rparr> = NewSession now" by (simp add: NewSession_def)
  with None show ?thesis by simp
next
  case (Some e')
  show ?thesis unfolding Some
    by (rule step_rtrancl, simp add: alive_def NewSession_def)
       (rule session_act.cancel, simp add: NewSession_def)
qed

text \<open>Each session makes a step of its own or stays; a new one starts as it should.\<close>

lemma act_session:
  assumes "client_act cps ns ident s s'" "client_live s" "ctx_ok s" "\<forall>c. c_sess s c \<noteq> None \<longrightarrow> c < k_next (c_conn s)"
    and "c_sess s' c = Some t'"
  shows "case c_sess s c of
      None \<Rightarrow> c = k_next (c_conn s) \<and> (\<exists>now. session_step\<^sup>*\<^sup>* (NewSession now) t') \<and> SessionTask c \<in> set (k_tasks (c_conn s'))
    | Some t \<Rightarrow> session_step\<^sup>*\<^sup>* t t'"
  using assms(1)
proof (cases rule: client_act.cases)
  case (session_channel now accepted)
  have "c_sess s (k_next (c_conn s)) = None" using assms(4) by blast
  with session_channel assms(5) new_session_steps [of now "c_ctx s"] show ?thesis
    by (auto simp: open_session_def Let_def split: if_splits option.split)
next
  case (session d t u)
  then have "session_step t u" using assms(2) by (auto simp: client_live_def session_step_def own_act_def)
  with session assms(5) show ?thesis by (auto split: if_splits option.split)
next
  case (handler_ends d t h e se)
  then have "session_step t (finish_handler h e se t)"
    using assms(2) by (auto simp: client_live_def session_step_def intro: session_act.finish)
  with handler_ends assms(5) show ?thesis by (auto split: if_splits option.split)
next
  case (cancel e)
  then obtain t where t: "c_sess s c = Some t" "t' = t\<lparr>s_ctx := Some e\<rparr>" using assms(5) by (auto simp: cancel_all_def)
  with cancel assms(2,3) have "session_step t t'"
    by (auto simp: client_live_def ctx_ok_def session_step_def intro!: session_act.cancel)
  with t show ?thesis by simp
next
  case (direct_new q list_pods te dial opened accepted)
  with assms(5) show ?thesis by (auto simp: open_direct_def split: prod.splits sum.splits)
qed (use assms(5) in \<open>auto simp: close_forwarded_def enter_forward_def Let_def split: option.splits prod.splits\<close>)

text \<open>Each forward manager makes a step of its own, with the gauges, or stays; none goes away.\<close>

lemma act_manager:
  assumes "client_act cps ns ident s s'" "ctx_ok s" "f < length (c_mgrs s)"
  shows "f < length (c_mgrs s') \<and>
    (c_mgrs s' ! f = c_mgrs s ! f \<or> (\<exists>g g'. fm_step (g, c_mgrs s ! f) (g', c_mgrs s' ! f)))"
  using assms(1)
proof (cases rule: client_act.cases)
  case (direct_new q list_pods te dial opened accepted)
  with assms(3) show ?thesis by (auto simp: open_direct_def nth_append split: prod.splits sum.splits)
next
  case (forward_enters c key h)
  with assms(3) fm_step.enter show ?thesis by (cases "h = f") (auto simp: enter_forward_def)
next
  case (forward_moves h g fm)
  with assms(3) fm_step.call [OF forward_moves(3)] show ?thesis by (cases "h = f") auto
next
  case (close keys key)
  have "fm_step (c_gauges s, c_mgrs s ! h) (fm_Close (c_gauges s, c_mgrs s ! h))" for h by (rule fm_step.close)
  then have "\<exists>g g'. fm_step (g, c_mgrs s ! h) (g', snd (fm_Close (c_gauges s, c_mgrs s ! h)))" for h
    by (metis surjective_pairing)
  moreover have "c_mgrs s' = (case map_of (k_forwarded (c_conn s)) key of
      Some (Some h) \<Rightarrow> (c_mgrs s)[h := snd (fm_Close (c_gauges s, c_mgrs s ! h))] | _ \<Rightarrow> c_mgrs s)"
    using close by (simp add: close_forwarded_def Let_def case_prod_beta split: option.split)
  moreover have upd: "(c_mgrs s)[h := x] ! f = (if h = f then x else c_mgrs s ! f)" for h x using assms(3) by simp
  ultimately show ?thesis using assms(3)
    by (auto simp: upd split: option.split)
next
  case (cancel e)
  have "fm_ctx (c_mgrs s ! f) = None" using assms(2,3) cancel by (simp add: ctx_ok_def)
  then have "fm_step (c_gauges s, c_mgrs s ! f) (c_gauges s, (c_mgrs s ! f)\<lparr>fm_ctx := Some e\<rparr>)" by (rule fm_step.cancel)
  with cancel assms(3) show ?thesis by (auto simp: cancel_all_def)
qed (use assms(3) in \<open>auto simp: open_session_def Let_def\<close>)

section \<open>Sessions and their channels\<close>

lemma distinct_tasks:
  assumes "conn_reach k"
  shows "distinct (task_channels (k_tasks k))" "distinct (k_closed k)" "set (k_closed k) \<inter> set (task_channels (k_tasks k)) = {}"
    "\<And>c. c \<in> set (task_channels (k_tasks k)) \<union> set (k_closed k) \<Longrightarrow> c < k_next k"
proof -
  note ok = conn_reach_ok(1) [OF assms, unfolded channels_ok_def]
  have "mset [0..<k_next k] = mset (k_accepted k @ map fst (k_rejected k) @ k_failed k)"
    using ok by (simp add: numbers_def add.assoc del: mset_upt)
  then have "distinct (k_accepted k @ map fst (k_rejected k) @ k_failed k)"
    "set (k_accepted k) \<subseteq> {0..<k_next k}"
    by (metis distinct_upt mset_eq_imp_distinct_iff, metis Un_upper1 atLeastLessThan_upt mset_eq_setD set_append)
  then have acc: "distinct (k_accepted k)" "set (k_accepted k) \<subseteq> {0..<k_next k}" by auto
  have m: "mset (k_accepted k) = mset (task_channels (k_tasks k) @ k_closed k)" using ok by simp
  then have d: "distinct (task_channels (k_tasks k) @ k_closed k)"
    using acc(1) mset_eq_imp_distinct_iff by blast
  then show "distinct (task_channels (k_tasks k))" "distinct (k_closed k)"
    "set (k_closed k) \<inter> set (task_channels (k_tasks k)) = {}" by auto
  show "c < k_next k" if "c \<in> set (task_channels (k_tasks k)) \<union> set (k_closed k)" for c
    using that mset_eq_setD [OF m] acc(2) by auto
qed

lemma task_in_channels: "t \<in> set ts \<Longrightarrow> task_channel t = Some c \<Longrightarrow> c \<in> set (task_channels ts)"
  by (induction ts) (auto split: option.split)

text \<open>No two goroutines serve one channel.\<close>

lemma one_task:
  assumes "distinct (task_channels ts)" "t \<in> set ts" "task_channel t = Some c"
  shows "u \<in> set (remove1 t ts) \<Longrightarrow> task_channel u \<noteq> Some c"
  using assms
proof (induction ts)
  case (Cons x ts)
  show ?case
  proof (cases "x = t")
    case True
    with Cons.prems have "c \<notin> set (task_channels ts)" "u \<in> set ts" by auto
    then show ?thesis using task_in_channels by metis
  next
    case False
    then have t: "t \<in> set ts" using Cons.prems by simp
    have x: "task_channel x \<noteq> Some c"
    proof
      assume "task_channel x = Some c"
      with Cons.prems(2) task_in_channels [OF t Cons.prems(4)] show False by simp
    qed
    have "distinct (task_channels ts)" using Cons.prems(2) by (auto split: option.splits)
    with Cons.IH t x Cons.prems(1,4) False show ?thesis by auto
  qed
qed simp

text \<open>
  A session channel whose goroutine runs has its session; a session without its goroutine has reported
  its result, which is the status the channel was closed with.
\<close>

definition sess_ok :: "client \<Rightarrow> bool" where
  "sess_ok s \<longleftrightarrow>
     (\<forall>c. SessionTask c \<in> set (k_tasks (c_conn s)) \<longrightarrow> c_sess s c \<noteq> None)
     \<and> (\<forall>c t. c_sess s c = Some t \<longrightarrow> session_reach t \<and> c < k_next (c_conn s)
          \<and> (SessionTask c \<in> set (k_tasks (c_conn s))
             \<or> (\<exists>e. s_main t = Reported e \<and> (c, status_of e) \<in> set (k_status (c_conn s)))))"

lemma reported_stays: "session_act t t' \<Longrightarrow> s_main t = Reported e \<Longrightarrow> s_main t' = Reported e"
  by (induction rule: session_act.induct) (auto simp: session_op_defs split: handler.split)

lemma reported_stays_steps: "session_step\<^sup>*\<^sup>* t t' \<Longrightarrow> s_main t = Reported e \<Longrightarrow> s_main t' = Reported e"
  by (induction rule: rtranclp_induct) (auto simp: session_step_def intro: reported_stays)

text \<open>What a step of the channel loop does to the goroutines and the statuses.\<close>

lemma act_tasks:
  assumes "client_act cps ns ident s s'" "conn_reach (c_conn s)"
  shows "k_next (c_conn s) \<le> k_next (c_conn s')" "set (k_status (c_conn s)) \<subseteq> set (k_status (c_conn s'))"
    "\<And>c. SessionTask c \<in> set (k_tasks (c_conn s')) \<Longrightarrow> SessionTask c \<in> set (k_tasks (c_conn s)) \<or> c_sess s' c \<noteq> None"
    "\<And>c. SessionTask c \<in> set (k_tasks (c_conn s)) \<Longrightarrow> SessionTask c \<notin> set (k_tasks (c_conn s')) \<Longrightarrow>
       \<exists>t e. c_sess s' c = Some t \<and> s_main t = Reported e \<and> (c, status_of e) \<in> set (k_status (c_conn s'))"
proof -
  let ?P = "\<lambda>k' s'. k_next (c_conn s) \<le> k_next k' \<and> set (k_status (c_conn s)) \<subseteq> set (k_status k')
    \<and> (\<forall>c. SessionTask c \<in> set (k_tasks k') \<longrightarrow> SessionTask c \<in> set (k_tasks (c_conn s)) \<or> c_sess s' c \<noteq> None)
    \<and> (\<forall>c. SessionTask c \<in> set (k_tasks (c_conn s)) \<longrightarrow> SessionTask c \<notin> set (k_tasks k') \<longrightarrow>
       (\<exists>t e. c_sess s' c = Some t \<and> s_main t = Reported e \<and> (c, status_of e) \<in> set (k_status k')))"
  have ch: "?P (handle_channel ch (c_conn s)) s'"
    if "\<And>a. ch = SessionChannel a \<Longrightarrow> \<forall>c. SessionTask c \<in> set (k_tasks (handle_channel ch (c_conn s))) \<longrightarrow>
      SessionTask c \<in> set (k_tasks (c_conn s)) \<or> c_sess s' c \<noteq> None" for ch
  proof -
    obtain ts xs where h: "k_tasks (handle_channel ch (c_conn s)) = ts @ k_tasks (c_conn s)"
      "k_status (handle_channel ch (c_conn s)) = xs @ k_status (c_conn s)"
      "k_next (handle_channel ch (c_conn s)) = Suc (k_next (c_conn s))"
      "\<And>c. SessionTask c \<in> set ts \<Longrightarrow> \<exists>a. ch = SessionChannel a"
      by (rule handle_channel_adds [of ch "c_conn s"]) blast
    show ?thesis
    proof (cases "\<exists>a. ch = SessionChannel a")
      case True
      with that h(1-3) show ?thesis by (auto simp del: not_None_eq)
    next
      case False
      with h(4) have "SessionTask c \<notin> set ts" for c by blast
      with h(1-3) show ?thesis by simp
    qed
  qed
  have fin: "?P (task_end u e (c_conn s)) s'"
    if "\<And>c. u = SessionTask c \<Longrightarrow> \<exists>t. c_sess s' c = Some t \<and> s_main t = Reported e" for u e
  proof -
    have "SessionTask c \<in> set (k_tasks (c_conn s)) \<Longrightarrow> SessionTask c \<notin> set (remove1 u (k_tasks (c_conn s))) \<Longrightarrow>
        u = SessionTask c" for c by (metis in_set_remove1)
    moreover have "set (remove1 u (k_tasks (c_conn s))) \<subseteq> set (k_tasks (c_conn s))" by (rule set_remove1_subset)
    ultimately show ?thesis using that
      by (cases u) (auto simp: task_end_def task_channel_def status_of_def Let_def split: if_splits)
  qed
  have "?P (c_conn s') s'"
    using assms(1)
  proof (cases rule: client_act.cases)
    case (session_channel now accepted)
    let ?k = "handle_channel (SessionChannel accepted) (c_conn s)"
    have "\<forall>c. SessionTask c \<in> set (k_tasks ?k) \<longrightarrow> SessionTask c \<in> set (k_tasks (c_conn s)) \<or> c_sess s' c \<noteq> None"
    proof (intro allI impI)
      fix c assume c: "SessionTask c \<in> set (k_tasks ?k)"
      obtain ts where "k_tasks ?k = ts @ k_tasks (c_conn s)" "\<And>t. t \<in> set ts \<Longrightarrow> task_channel t = Some (k_next (c_conn s))"
        by (rule handle_channel_adds [of "SessionChannel accepted" "c_conn s"]) blast
      with c have "SessionTask c \<in> set (k_tasks (c_conn s)) \<or> c = k_next (c_conn s)" by (fastforce simp: task_channel_def)
      with c session_channel show "SessionTask c \<in> set (k_tasks (c_conn s)) \<or> c_sess s' c \<noteq> None"
        by (auto simp: open_session_def Let_def)
    qed
    with ch [of "SessionChannel accepted"] session_channel show ?thesis by (simp add: open_session_def Let_def)
  next
    case (other_channel ty)
    with ch [of "OtherChannel ty"] show ?thesis by simp
  next
    case (direct_bad answer accepted)
    with ch [of "DirectChannel None answer accepted"] show ?thesis by simp
  next
    case (direct_known q answer accepted)
    with ch [of "DirectChannel (Some q) answer accepted"] show ?thesis by simp
  next
    case (direct_new q list_pods te dial opened accepted)
    with ch [of "DirectChannel (Some q) _ accepted"] show ?thesis by (cases opened; cases "fst opened") (simp_all add: open_direct_def)
  next
    case (session_returns c t e)
    with fin [of "SessionTask c" e] show ?thesis by simp
  next
    case (forward_returns c key f i r)
    with fin [of "ForwardTask c key f" r] show ?thesis by simp
  next
    case (global_returns es replies r)
    with fin [of GlobalTask r] show ?thesis by simp
  next
    case (close keys key)
    then have "k_next (c_conn s') = k_next (c_conn s)" "k_status (c_conn s') = k_status (c_conn s)"
      "k_tasks (c_conn s') = k_tasks (c_conn s)"
      by (auto simp: close_forwarded_def close_tunnel_def Let_def split: option.split prod.split)
    then show ?thesis by simp
  qed (simp_all add: leave_loop_def enter_forward_def cancel_all_def)
  then show "k_next (c_conn s) \<le> k_next (c_conn s')" "set (k_status (c_conn s)) \<subseteq> set (k_status (c_conn s'))"
    "\<And>c. SessionTask c \<in> set (k_tasks (c_conn s')) \<Longrightarrow> SessionTask c \<in> set (k_tasks (c_conn s)) \<or> c_sess s' c \<noteq> None"
    "\<And>c. SessionTask c \<in> set (k_tasks (c_conn s)) \<Longrightarrow> SessionTask c \<notin> set (k_tasks (c_conn s')) \<Longrightarrow>
       \<exists>t e. c_sess s' c = Some t \<and> s_main t = Reported e \<and> (c, status_of e) \<in> set (k_status (c_conn s'))"
    by blast+
qed

lemma act_sess_ok:
  assumes "client_act cps ns ident s s'" "client_live s" "ctx_ok s" "conn_reach (c_conn s)" "sess_ok s"
  shows "sess_ok s'"
proof -
  note tasks = act_tasks [OF assms(1,4)]
  have dom: "\<forall>c. c_sess s c \<noteq> None \<longrightarrow> c < k_next (c_conn s)" using assms(5) by (auto simp: sess_ok_def)
  note sess = act_session [OF assms(1-3) dom]
  have keep: "c_sess s' c \<noteq> None" if "c_sess s c \<noteq> None" for c
    using assms(1) that
    by (cases rule: client_act.cases)
       (auto simp: open_session_def open_direct_def enter_forward_def close_forwarded_def cancel_all_def Let_def
         split: prod.splits sum.splits option.splits)
  have "session_reach t' \<and> c < k_next (c_conn s') \<and> (SessionTask c \<in> set (k_tasks (c_conn s'))
      \<or> (\<exists>e. s_main t' = Reported e \<and> (c, status_of e) \<in> set (k_status (c_conn s'))))"
    if t': "c_sess s' c = Some t'" for c t'
  proof (cases "c_sess s c")
    case None
    with sess [OF t'] obtain now where n: "c = k_next (c_conn s)" "session_step\<^sup>*\<^sup>* (NewSession now) t'"
      "SessionTask c \<in> set (k_tasks (c_conn s'))" by auto
    have "c < k_next (c_conn s')"
    proof -
      have "conn_reach (c_conn s')"
        using assms(4) act_conn [OF assms(1,2)] by (auto simp: conn_reach_def intro: reach_step)
      from distinct_tasks(4) [OF this] task_in_channels [OF n(3)] show ?thesis by (simp add: task_channel_def)
    qed
    with n session_steps_reach [OF session_reach_new n(2)] show ?thesis by blast
  next
    case (Some t)
    with sess [OF t'] have st: "session_step\<^sup>*\<^sup>* t t'" by simp
    from Some assms(5) have t: "session_reach t" "c < k_next (c_conn s)"
      "SessionTask c \<in> set (k_tasks (c_conn s)) \<or> (\<exists>e. s_main t = Reported e \<and> (c, status_of e) \<in> set (k_status (c_conn s)))"
      by (simp_all add: sess_ok_def)
    have "SessionTask c \<in> set (k_tasks (c_conn s'))
        \<or> (\<exists>e. s_main t' = Reported e \<and> (c, status_of e) \<in> set (k_status (c_conn s')))"
      using t(3)
    proof
      assume "SessionTask c \<in> set (k_tasks (c_conn s))"
      with tasks(4) [of c] t' show ?thesis by auto
    next
      assume "\<exists>e. s_main t = Reported e \<and> (c, status_of e) \<in> set (k_status (c_conn s))"
      with reported_stays_steps [OF st] tasks(2) show ?thesis by blast
    qed
    with session_steps_reach [OF t(1) st] t(2) tasks(1) show ?thesis by simp
  qed
  with tasks(3) keep assms(5) show ?thesis unfolding sess_ok_def by blast
qed

section \<open>Tunnels and their channels\<close>

lemma sum_list_update_int:
  "i < length xs \<Longrightarrow> (\<Sum>x \<leftarrow> xs[i := y]. h x) = (\<Sum>x \<leftarrow> xs. h x) - h (xs ! i) + (h y :: int)"
  by (induction xs arbitrary: i) (auto split: nat.split)

text \<open>
  The map of tunnels holds the managers, in the order they were made, none of them nil; a manager is
  closed when its entry has been; the gauges count the managers' shares.
\<close>

definition mgrs_ok :: "tunnel_gauges \<Rightarrow> client \<Rightarrow> bool" where
  "mgrs_ok g0 s \<longleftrightarrow>
     map snd (k_forwarded (c_conn s)) = map Some (rev [0..<length (c_mgrs s)])
     \<and> (\<forall>key f. (key, Some f) \<in> set (k_forwarded (c_conn s)) \<longrightarrow>
          fm_closed (c_mgrs s ! f) = (key \<in> set (k_fwclosed (c_conn s))))
     \<and> (\<forall>fm \<in> set (c_mgrs s). fm_inv fm)
     \<and> ActiveTunnelForwards (c_gauges s) = ActiveTunnelForwards g0 + (\<Sum>fm \<leftarrow> c_mgrs s. forwards_of fm)
     \<and> ActiveTunnelStreams (c_gauges s) = ActiveTunnelStreams g0 + (\<Sum>fm \<leftarrow> c_mgrs s. streams_of fm)"

lemma mgrs_ok_forwarded:
  assumes "mgrs_ok g0 s" "(key, fw) \<in> set (k_forwarded (c_conn s))"
  shows "\<exists>f < length (c_mgrs s). fw = Some f"
proof -
  have "fw \<in> set (map snd (k_forwarded (c_conn s)))" using assms(2) by force
  with assms(1) show ?thesis unfolding mgrs_ok_def by auto
qed

lemma mgrs_ok_distinct:
  assumes "mgrs_ok g0 s" "(key, Some f) \<in> set (k_forwarded (c_conn s))" "(key', Some f) \<in> set (k_forwarded (c_conn s))"
  shows "key = key'"
proof -
  have "distinct (map snd (k_forwarded (c_conn s)))"
    using assms(1) by (simp add: mgrs_ok_def distinct_map)
  with assms(2,3) show ?thesis by (metis distinct_map inj_onD prod.inject snd_conv)
qed

text \<open>A change of one manager by a step of its own.\<close>

lemma mgrs_ok_step:
  assumes "mgrs_ok g0 s" "f < length (c_mgrs s)" "fm_step (c_gauges s, c_mgrs s ! f) (g, fm)"
    and "fm_closed fm = fm_closed (c_mgrs s ! f)"
  shows "mgrs_ok g0 (s\<lparr>c_gauges := g, c_mgrs := (c_mgrs s)[f := fm]\<rparr>)"
proof -
  have "fm_inv fm" using assms(1,2) step_fm_inv [OF assms(3)] by (simp add: mgrs_ok_def)
  then have "\<forall>fm \<in> set ((c_mgrs s)[f := fm]). fm_inv fm"
    using assms(1) by (intro all_update) (simp_all add: mgrs_ok_def)
  moreover have "fm_closed ((c_mgrs s)[f := fm] ! h) = fm_closed (c_mgrs s ! h)" for h
    using assms(2,4) by (cases "h = f") simp_all
  ultimately show ?thesis
    using assms(1) step_gauges [OF assms(3)] by (simp add: mgrs_ok_def sum_list_update_int [OF assms(2)])
qed

lemma mgrs_ok_conn:
  "mgrs_ok g0 s \<Longrightarrow> k_forwarded k = k_forwarded (c_conn s) \<Longrightarrow> k_fwclosed k = k_fwclosed (c_conn s) \<Longrightarrow>
     mgrs_ok g0 (s\<lparr>c_conn := k\<rparr>)"
  by (simp add: mgrs_ok_def)

text \<open>Handling a channel leaves the map of tunnels alone, but for the first to a destination.\<close>

lemma handle_channel_forwarded:
  "k_forwarded (handle_channel (SessionChannel a) k) = k_forwarded k"
  "k_forwarded (handle_channel (OtherChannel ty) k) = k_forwarded k"
  "k_forwarded (handle_channel (DirectChannel None r a) k) = k_forwarded k"
  "map_of (k_forwarded k) (direct_key q) \<noteq> None \<Longrightarrow>
     k_forwarded (handle_channel (DirectChannel (Some q) r a) k) = k_forwarded k"
  "k_forwarded (handle_channel (DirectChannel (Some q) (Inl err) a) k) = k_forwarded k"
  "map_of (k_forwarded k) (direct_key q) = None \<Longrightarrow>
     k_forwarded (handle_channel (DirectChannel (Some q) (Inr fw) a) k) = (direct_key q, fw) # k_forwarded k"
  by (auto simp: conn_op_defs split: option.split)

lemma handle_channel_fwclosed [simp]: "k_fwclosed (handle_channel ch k) = k_fwclosed k"
  by (rule handle_channel_adds [of ch k]) simp

lemma act_mgrs_ok:
  assumes "client_act cps ns ident s s'" "client_live s" "conn_reach (c_conn s)" "mgrs_ok g0 s"
    "\<And>c key f. ForwardTask c key f \<in> set (k_tasks (c_conn s)) \<Longrightarrow> f < length (c_mgrs s)"
  shows "mgrs_ok g0 s'"
  using assms(1)
proof (cases rule: client_act.cases)
  case (session_channel now accepted)
  from assms(4) show ?thesis
    by (simp add: session_channel open_session_def Let_def mgrs_ok_def handle_channel_forwarded)
next
  case (other_channel ty)
  with assms(4) show ?thesis by (simp add: mgrs_ok_conn handle_channel_forwarded)
next
  case (direct_bad answer accepted)
  with assms(4) show ?thesis by (simp add: mgrs_ok_conn handle_channel_forwarded)
next
  case (direct_known q answer accepted)
  with assms(4) show ?thesis by (simp add: mgrs_ok_conn handle_channel_forwarded tunnel_needed_def)
next
  case (direct_new q list_pods te dial opened accepted)
  note needed = direct_new(3) [unfolded tunnel_needed_def]
  show ?thesis
  proof (cases opened)
    case (Pair r g)
    show ?thesis
    proof (cases r)
      case (Inl err)
      then have "OpenTunnel (label_Resolve list_pods ns) te dial (c_ctx s) ident q (c_gauges s) = Ret (Inl err, g)"
        using direct_new Pair by simp
      from OpenTunnel_Inl [OF this] assms(4) show ?thesis
        by (simp add: direct_new(1) Pair Inl open_direct_def mgrs_ok_def handle_channel_forwarded)
    next
      case (Inr fm)
      then have "OpenTunnel (label_Resolve list_pods ns) te dial (c_ctx s) ident q (c_gauges s) = Ret (Inr fm, g)"
        using direct_new Pair by simp
      then have fm: "fm_inv fm" "fm_closed fm = False" "ActiveTunnelForwards g = ActiveTunnelForwards (c_gauges s) + 1"
        "ActiveTunnelStreams g = ActiveTunnelStreams (c_gauges s)" "fm_calls fm = []"
        by - (erule OpenTunnel_Inr, simp)+
      have "k_fwclosed (c_conn s) = []"
        using conn_reach_ok(2) [OF assms(3)] direct_new(2) by (simp add: tunnels_ok_def)
      then have closed: "fm_closed ((c_mgrs s @ [fm]) ! f) = (key \<in> set (k_fwclosed (c_conn s)))"
        if "(key, Some f) \<in> set ((direct_key q, Some (length (c_mgrs s))) # k_forwarded (c_conn s))" for key f
        using that fm(2) assms(4) mgrs_ok_forwarded [OF assms(4), of key "Some f"]
        by (cases "f < length (c_mgrs s)") (auto simp: mgrs_ok_def nth_append)
      have s': "s' = s\<lparr>c_conn := handle_channel (DirectChannel (Some q) (Inr (Some (length (c_mgrs s)))) accepted) (c_conn s),
          c_mgrs := c_mgrs s @ [fm], c_gauges := g\<rparr>"
        by (simp add: direct_new(1) Pair Inr open_direct_def)
      have shares: "forwards_of fm = 1" "streams_of fm = 0" using fm by (simp_all add: forwards_of_def streams_of_def)
      have conn: "k_forwarded (c_conn s') = (direct_key q, Some (length (c_mgrs s))) # k_forwarded (c_conn s)"
        "k_fwclosed (c_conn s') = k_fwclosed (c_conn s)" "c_mgrs s' = c_mgrs s @ [fm]" "c_gauges s' = g"
        by (simp_all add: s' handle_channel_forwarded(6) [OF needed])
      have inv: "map snd (k_forwarded (c_conn s)) = map Some (rev [0..<length (c_mgrs s)])"
        "\<forall>fm \<in> set (c_mgrs s). fm_inv fm"
        "ActiveTunnelForwards (c_gauges s) = ActiveTunnelForwards g0 + (\<Sum>fm \<leftarrow> c_mgrs s. forwards_of fm)"
        "ActiveTunnelStreams (c_gauges s) = ActiveTunnelStreams g0 + (\<Sum>fm \<leftarrow> c_mgrs s. streams_of fm)"
        using assms(4) by (simp_all add: mgrs_ok_def)
      show ?thesis
        unfolding mgrs_ok_def conn
      proof (intro conjI allI impI)
        fix key f assume "(key, Some f) \<in> set ((direct_key q, Some (length (c_mgrs s))) # k_forwarded (c_conn s))"
        then show "fm_closed ((c_mgrs s @ [fm]) ! f) = (key \<in> set (k_fwclosed (c_conn s)))" by (rule closed)
      qed (use inv fm shares in simp_all)
    qed
  qed
next
  case (forward_enters c key f)
  have "mgrs_ok g0 (s\<lparr>c_gauges := c_gauges s, c_mgrs := (c_mgrs s)[f := forward_enter (c_mgrs s ! f)]\<rparr>)"
    using assms(4,5) forward_enters by (intro mgrs_ok_step fm_step.enter) auto
  with forward_enters show ?thesis by (simp add: enter_forward_def mgrs_ok_def)
next
  case (forward_moves f g fm)
  with fm_call_fields [OF forward_moves(3)] assms(4) show ?thesis by (simp add: mgrs_ok_step fm_step.call)
next
  case (session_returns c t e)
  with assms(4) show ?thesis by (simp add: task_end_def task_channel_def Let_def mgrs_ok_conn)
next
  case (forward_returns c key f i r)
  with assms(4) show ?thesis by (simp add: task_end_def task_channel_def Let_def mgrs_ok_conn)
next
  case (global_returns es replies r)
  with assms(4) show ?thesis by (simp add: task_end_def task_channel_def Let_def mgrs_ok_conn)
next
  case (cancel e)
  have "fm_inv (fm\<lparr>fm_ctx := Some e\<rparr>) = fm_inv fm" "forwards_of (fm\<lparr>fm_ctx := Some e\<rparr>) = forwards_of fm"
    "streams_of (fm\<lparr>fm_ctx := Some e\<rparr>) = streams_of fm" for fm
    by (simp_all add: fm_inv_def numbers_ok_def forwards_of_def streams_of_def)
  moreover have "fm_closed (map (\<lambda>fm. fm\<lparr>fm_ctx := Some e\<rparr>) (c_mgrs s) ! f) = fm_closed (c_mgrs s ! f)"
    if "(key, Some f) \<in> set (k_forwarded (c_conn s))" for key f
    using mgrs_ok_forwarded [OF assms(4) that] by auto
  ultimately show ?thesis using assms(4) by (simp add: cancel cancel_all_def mgrs_ok_def comp_def)
next
  case (close keys key)
  note ok = conn_reach_ok(2) [OF assms(3), unfolded tunnels_ok_def]
  from ok close(2) have keys: "mset (k_fwclosed (c_conn s)) + mset keys = mset (map fst (k_forwarded (c_conn s)))" by simp
  have "key \<in> fst ` set (k_forwarded (c_conn s))" using arg_cong [OF keys, of set_mset] close(3) by auto
  then obtain fw where fw: "map_of (k_forwarded (c_conn s)) key = Some fw" by (auto dest: weak_map_of_SomeI)
  from mgrs_ok_forwarded [OF assms(4) map_of_SomeD [OF fw]] fw obtain f where
    f: "map_of (k_forwarded (c_conn s)) key = Some (Some f)" "f < length (c_mgrs s)" by blast
  have opened: "key \<notin> set (k_fwclosed (c_conn s))"
  proof
    assume "key \<in> set (k_fwclosed (c_conn s))"
    with close(3) have "2 \<le> count (mset (k_fwclosed (c_conn s)) + mset keys) key"
      by (metis add_mono count_greater_eq_one_iff count_union one_add_one set_mset_mset)
    then show False unfolding keys using ok by (simp add: distinct_count_atmost_1 split: if_splits)
  qed
  obtain g fm where gf: "fm_Close (c_gauges s, c_mgrs s ! f) = (g, fm)" by (meson surj_pair)
  then have st: "fm_step (c_gauges s, c_mgrs s ! f) (g, fm)" "fm_closed fm"
    using fm_step.close [of "(c_gauges s, c_mgrs s ! f)"] by (auto simp: fm_Close_def split: if_splits)
  have s': "s' = s\<lparr>c_conn := close_tunnel keys key (c_conn s), c_gauges := g, c_mgrs := (c_mgrs s)[f := fm]\<rparr>"
    using close f gf by (simp add: close_forwarded_def Let_def)
  have k: "k_forwarded (c_conn s') = k_forwarded (c_conn s)" "k_fwclosed (c_conn s') = key # k_fwclosed (c_conn s)"
    using f by (simp_all add: s' close_tunnel_def)
  have "\<forall>fm \<in> set ((c_mgrs s)[f := fm]). fm_inv fm"
    using assms(4) f(2) step_fm_inv [OF st(1)] by (intro all_update) (simp_all add: mgrs_ok_def)
  moreover have "fm_closed ((c_mgrs s)[f := fm] ! h) = (key' \<in> set (key # k_fwclosed (c_conn s)))"
    if "(key', Some h) \<in> set (k_forwarded (c_conn s))" for key' h
  proof (cases "h = f")
    case True
    with that mgrs_ok_distinct [OF assms(4)] map_of_SomeD [OF f(1)] have "key' = key" by blast
    with True f(2) st(2) show ?thesis by simp
  next
    case False
    have "key' \<noteq> key"
    proof
      assume "key' = key"
      with that ok f(1) have "Some (Some h) = Some (Some f)" by (metis map_of_eq_Some_iff)
      with False show False by simp
    qed
    with that assms(4) False show ?thesis by (auto simp: mgrs_ok_def)
  qed
  ultimately show ?thesis
    using assms(4) step_gauges [OF st(1)] unfolding mgrs_ok_def k
    by (simp add: s' sum_list_update_int [OF f(2)])
qed (use assms(4) in \<open>simp_all add: mgrs_ok_def leave_loop_def\<close>)

text \<open>A call of \<open>Forward\<close> that has not returned is that of a goroutine which runs.\<close>

definition calls_ok :: "client \<Rightarrow> bool" where
  "calls_ok s \<longleftrightarrow>
     (\<forall>c i. c_calls s c = Some i \<longrightarrow> c < k_next (c_conn s))
     \<and> (\<forall>f < length (c_mgrs s). \<forall>i < length (fm_calls (c_mgrs s ! f)).
          (\<exists>r. fm_calls (c_mgrs s ! f) ! i = CallDone r)
          \<or> (\<exists>c key. ForwardTask c key f \<in> set (k_tasks (c_conn s)) \<and> c_calls s c = Some i))"

lemma calls_ok_call:
  "calls_ok s \<Longrightarrow> f < length (c_mgrs s) \<Longrightarrow> i < length (fm_calls (c_mgrs s ! f)) \<Longrightarrow>
     (\<exists>r. fm_calls (c_mgrs s ! f) ! i = CallDone r)
     \<or> (\<exists>c key. ForwardTask c key f \<in> set (k_tasks (c_conn s)) \<and> c_calls s c = Some i)"
  by (simp add: calls_ok_def)

text \<open>More goroutines do no harm, nor do managers without calls or whose calls are as before.\<close>

lemma calls_ok_mono:
  assumes "calls_ok s" "k_next (c_conn s) \<le> k_next (c_conn s')" "c_calls s' = c_calls s"
    and "\<And>c key f. ForwardTask c key f \<in> set (k_tasks (c_conn s)) \<Longrightarrow> ForwardTask c key f \<in> set (k_tasks (c_conn s'))"
    and "\<And>f. f < length (c_mgrs s') \<Longrightarrow> fm_calls (c_mgrs s' ! f) = [] \<or>
           f < length (c_mgrs s) \<and> fm_calls (c_mgrs s' ! f) = fm_calls (c_mgrs s ! f)"
  shows "calls_ok s'"
  unfolding calls_ok_def
proof (intro conjI allI impI)
  fix c i assume "c_calls s' c = Some i"
  with assms(1-3) show "c < k_next (c_conn s')" by (auto simp: calls_ok_def intro: less_le_trans)
next
  fix f i assume i: "f < length (c_mgrs s')" "i < length (fm_calls (c_mgrs s' ! f))"
  with assms(5) [OF i(1)] have f: "f < length (c_mgrs s)" "fm_calls (c_mgrs s' ! f) = fm_calls (c_mgrs s ! f)" by auto
  with calls_ok_call [OF assms(1) f(1), of i] i(2) assms(3,4)
  show "(\<exists>r. fm_calls (c_mgrs s' ! f) ! i = CallDone r)
      \<or> (\<exists>c key. ForwardTask c key f \<in> set (k_tasks (c_conn s')) \<and> c_calls s' c = Some i)"
    by (simp add: f(2)) metis
qed

lemma call_done_stays:
  "fm_call (g, fm) (g', fm') \<Longrightarrow> fm_calls fm ! i = CallDone r \<Longrightarrow> fm_calls fm' ! i = CallDone r"
  by (erule fm_call.cases) (auto simp: fm_op_defs nth_list_update split: option.splits)

lemma nth_update_same: "h y = h (xs ! i) \<Longrightarrow> h (xs[i := y] ! j) = h (xs ! j)"
  by (cases "i < length xs"; cases "i = j") (simp_all add: list_update_beyond)

lemma act_calls_ok:
  assumes "client_act cps ns ident s s'" "conn_reach (c_conn s)" "calls_ok s"
    "\<And>c key f. ForwardTask c key f \<in> set (k_tasks (c_conn s)) \<Longrightarrow> f < length (c_mgrs s)"
  shows "calls_ok s'"
proof -
  have next': "k_next (c_conn s) \<le> k_next (c_conn s')" by (rule act_tasks(1) [OF assms(1,2)])
  have ch: "set (k_tasks (c_conn s)) \<subseteq> set (k_tasks (handle_channel ch (c_conn s)))" for ch
    by (rule handle_channel_adds [of ch "c_conn s"]) auto
  note dist = distinct_tasks [OF assms(2)]
  show ?thesis
    using assms(1)
  proof (cases rule: client_act.cases)
    case (session_channel now accepted)
    with next' show ?thesis
      by (intro calls_ok_mono [OF assms(3)]) (auto simp: open_session_def Let_def intro: subsetD [OF ch])
  next
    case (other_channel ty)
    with next' show ?thesis by (intro calls_ok_mono [OF assms(3)]) (auto intro: subsetD [OF ch])
  next
    case (direct_bad answer accepted)
    with next' show ?thesis by (intro calls_ok_mono [OF assms(3)]) (auto intro: subsetD [OF ch])
  next
    case (direct_known q answer accepted)
    with next' show ?thesis by (intro calls_ok_mono [OF assms(3)]) (auto intro: subsetD [OF ch])
  next
    case (direct_new q list_pods te dial opened accepted)
    show ?thesis
    proof (cases opened)
      case (Pair r g)
      show ?thesis
      proof (cases r)
        case (Inl err)
        with direct_new Pair next' show ?thesis
          by (intro calls_ok_mono [OF assms(3)]) (auto simp: open_direct_def intro: subsetD [OF ch])
      next
        case (Inr fm)
        then have "OpenTunnel (label_Resolve list_pods ns) te dial (c_ctx s) ident q (c_gauges s) = Ret (Inr fm, g)"
          using direct_new Pair by simp
        then have "fm_calls fm = []" by (rule OpenTunnel_Inr)
        with direct_new Pair Inr next' show ?thesis
          by (intro calls_ok_mono [OF assms(3)]) (auto simp: open_direct_def nth_append intro: subsetD [OF ch])
      qed
    qed
  next
    case (session_returns c t e)
    then have "k_tasks (c_conn s') = remove1 (SessionTask c) (k_tasks (c_conn s))"
      by (simp add: task_end_def task_channel_def Let_def)
    with session_returns next' show ?thesis
      by (intro calls_ok_mono [OF assms(3)]) (auto simp: in_set_remove1)
  next
    case (global_returns es replies r)
    then have "k_tasks (c_conn s') = remove1 GlobalTask (k_tasks (c_conn s))"
      by (simp add: task_end_def task_channel_def Let_def)
    with global_returns next' show ?thesis
      by (intro calls_ok_mono [OF assms(3)]) (auto simp: in_set_remove1)
  next
    case (forward_enters c key f)
    have f: "f < length (c_mgrs s)" using assms(4) forward_enters by blast
    have s': "c_conn s' = c_conn s" "c_calls s' = (c_calls s)(c \<mapsto> length (fm_calls (c_mgrs s ! f)))"
      "c_mgrs s' = (c_mgrs s)[f := forward_enter (c_mgrs s ! f)]" using forward_enters by (simp_all add: enter_forward_def)
    have "c < k_next (c_conn s)"
      using dist(4) task_in_channels [OF forward_enters(2)] by (simp add: task_channel_def)
    moreover have "(\<exists>r. fm_calls (c_mgrs s' ! h) ! i = CallDone r)
        \<or> (\<exists>d key. ForwardTask d key h \<in> set (k_tasks (c_conn s')) \<and> c_calls s' d = Some i)"
      if "h < length (c_mgrs s)" "i < length (fm_calls (c_mgrs s' ! h))" for h i
    proof (cases "h = f \<and> i = length (fm_calls (c_mgrs s ! f))")
      case True
      with forward_enters(2) show ?thesis by (auto simp: s')
    next
      case False
      have old: "i < length (fm_calls (c_mgrs s ! h))" "fm_calls (c_mgrs s' ! h) ! i = fm_calls (c_mgrs s ! h) ! i"
        using that False f by (cases "h = f"; auto simp: s' forward_enter_def nth_append split: if_splits)+
      have "d \<noteq> c" if "c_calls s d = Some j" for d j using that forward_enters(3) by auto
      with calls_ok_call [OF assms(3) that(1) old(1)] old(2) show ?thesis
        by (simp add: s') metis
    qed
    ultimately show ?thesis using assms(3) unfolding calls_ok_def by (auto simp: s')
  next
    case (forward_moves f g fm)
    have len: "length (fm_calls fm) = length (fm_calls (c_mgrs s ! f))" using fm_call_fields [OF forward_moves(3)] by simp
    have "(\<exists>r. fm_calls ((c_mgrs s)[f := fm] ! h) ! i = CallDone r)
        \<or> (\<exists>d key. ForwardTask d key h \<in> set (k_tasks (c_conn s)) \<and> c_calls s d = Some i)"
      if h: "h < length (c_mgrs s)" "i < length (fm_calls ((c_mgrs s)[f := fm] ! h))" for h i
    proof -
      have "i < length (fm_calls (c_mgrs s ! h))" using h len by (cases "h = f") auto
      from calls_ok_call [OF assms(3) h(1) this] call_done_stays [OF forward_moves(3)] forward_moves(2)
      show ?thesis by (cases "h = f") auto
    qed
    with assms(3) show ?thesis by (simp add: forward_moves(1) calls_ok_def)
  next
    case (forward_returns c key f i r)
    let ?t = "ForwardTask c key f"
    have k: "c_conn s' = task_end ?t r (c_conn s)" "c_mgrs s' = c_mgrs s" "c_calls s' = c_calls s"
      "k_tasks (c_conn s') = remove1 ?t (k_tasks (c_conn s))"
      using forward_returns by (simp_all add: task_end_def task_channel_def Let_def)
    have "(\<exists>r. fm_calls (c_mgrs s ! h) ! j = CallDone r)
        \<or> (\<exists>d key. ForwardTask d key h \<in> set (remove1 ?t (k_tasks (c_conn s))) \<and> c_calls s d = Some j)"
      if h: "h < length (c_mgrs s)" "j < length (fm_calls (c_mgrs s ! h))" for h j
      using calls_ok_call [OF assms(3) h]
    proof
      assume "\<exists>d key. ForwardTask d key h \<in> set (k_tasks (c_conn s)) \<and> c_calls s d = Some j"
      then obtain d key' where d: "ForwardTask d key' h \<in> set (k_tasks (c_conn s))" "c_calls s d = Some j" by blast
      show ?thesis
      proof (cases "ForwardTask d key' h = ?t")
        case True
        with d(2) forward_returns show ?thesis by auto
      next
        case False
        then have "ForwardTask d key' h \<in> set (remove1 ?t (k_tasks (c_conn s)))" using d(1) by (simp add: in_set_remove1)
        with d(2) show ?thesis by blast
      qed
    qed blast
    with assms(3) next' show ?thesis unfolding calls_ok_def k(2-4) by (auto intro: less_le_trans)
  next
    case (close keys key)
    have "k_tasks (c_conn s') = k_tasks (c_conn s)" "c_calls s' = c_calls s" "length (c_mgrs s') = length (c_mgrs s)"
      "fm_calls (c_mgrs s' ! f) = fm_calls (c_mgrs s ! f)" for f
      using close by (auto simp: close_forwarded_def close_tunnel_def fm_Close_def Let_def case_prod_beta
          intro!: nth_update_same split: option.splits)
    with next' show ?thesis by (intro calls_ok_mono [OF assms(3)]) auto
  next
    case (cancel e)
    with next' show ?thesis by (intro calls_ok_mono [OF assms(3)]) (auto simp: cancel_all_def)
  qed (use next' in \<open>auto simp: leave_loop_def intro!: calls_ok_mono [OF assms(3)]\<close>)
qed

section \<open>The whole connection\<close>

definition client_inv :: "tunnel_gauges \<Rightarrow> client \<Rightarrow> bool" where
  "client_inv g0 s \<longleftrightarrow>
     conn_reach (c_conn s) \<and> ctx_ok s \<and> sess_ok s \<and> mgrs_ok g0 s \<and> calls_ok s \<and> k_phase (c_conn s) \<noteq> Panicked"

lemma forward_task_mgr:
  assumes "conn_reach (c_conn s)" "mgrs_ok g0 s" "ForwardTask c key f \<in> set (k_tasks (c_conn s))"
  shows "f < length (c_mgrs s)"
proof -
  have "(key, Some f) \<in> set (k_forwarded (c_conn s))"
    using conn_reach_ok(2) [OF assms(1)] assms(3) by (simp add: tunnels_ok_def)
  with mgrs_ok_forwarded [OF assms(2)] show ?thesis by blast
qed

lemma step_client_inv:
  assumes "client_step cps ns ident s s'" "client_inv g0 s"
  shows "client_inv g0 s'"
proof -
  have act: "client_act cps ns ident s s'" "client_live s" using assms(1) by (simp_all add: client_step_def)
  have inv: "conn_reach (c_conn s)" "ctx_ok s" "sess_ok s" "mgrs_ok g0 s" "calls_ok s"
    using assms(2) by (simp_all add: client_inv_def)
  have conn: "conn_reach (c_conn s')"
    using inv(1) act_conn [OF act] by (auto simp: conn_reach_def intro: reach_step)
  have mgrs: "mgrs_ok g0 s'" using act inv(1,4) forward_task_mgr [OF inv(1,4)] by (rule act_mgrs_ok)
  have "k_phase (c_conn s') \<noteq> Panicked"
  proof
    assume "k_phase (c_conn s') = Panicked"
    with conn_reach_ok(2) [OF conn] obtain key where "(key, None) \<in> set (k_forwarded (c_conn s'))"
      by (auto simp: tunnels_ok_def)
    with mgrs_ok_forwarded [OF mgrs] show False by blast
  qed
  with conn mgrs act_ctx_ok [OF act(1) inv(2)] act_sess_ok [OF act inv(2,1,3)]
    act_calls_ok [OF act(1) inv(1,5) forward_task_mgr [OF inv(1,4)]]
  show ?thesis by (simp add: client_inv_def)
qed

lemma client_reach_inv: "client_reach cps ns ident g0 s \<Longrightarrow> client_inv g0 s"
  unfolding client_reach_def
proof (induction rule: reach_invariant)
  case (init s)
  then show ?case
    by (simp add: client_inv_def client_start_def conn_reach_start ctx_ok_def sess_ok_def mgrs_ok_def calls_ok_def)
       (simp add: conn_start_def)
next
  case (step s s')
  then show ?case by (simp add: step_client_inv)
qed

end
