(* ===== verification/Client_Safety.thy ===== *)
theory Client_Safety
  imports Client_Conn
begin

text \<open>
  What holds of a client connection with its sessions and tunnels (theory \<open>Client_Conn\<close>): where it
  reaches in the cluster, the refinement of the machines of its parts, the statuses its channels are
  closed with, and what is left of it when it is over.
\<close>

section \<open>Pods and ports\<close>

text \<open>Tunnels are opened for the first channel to a destination only.\<close>

lemma handle_channel_opened:
  "k_opened (handle_channel (SessionChannel a) k) = k_opened k"
  "k_opened (handle_channel (OtherChannel ty) k) = k_opened k"
  "k_opened (handle_channel (DirectChannel None r a) k) = k_opened k"
  "map_of (k_forwarded k) (direct_key q) \<noteq> None \<Longrightarrow>
     k_opened (handle_channel (DirectChannel (Some q) r a) k) = k_opened k"
  "k_opened (handle_channel (DirectChannel (Some q) (Inl err) a) k) = k_opened k"
  "map_of (k_forwarded k) (direct_key q) = None \<Longrightarrow>
     k_opened (handle_channel (DirectChannel (Some q) (Inr fw) a) k) = (direct_key q, q, fw) # k_opened k"
  by (auto simp: conn_op_defs split: option.split)

lemma act_new_tunnel:
  assumes "client_act cps ns ident s s'"
  shows "k_opened (c_conn s') = k_opened (c_conn s) \<and> length (c_mgrs s') = length (c_mgrs s)
    \<or> (\<exists>q list_pods te dial fm g. pod_lister cps list_pods
        \<and> OpenTunnel (label_Resolve list_pods ns) te dial (c_ctx s) ident q (c_gauges s) = Ret (Inr fm, g)
        \<and> k_opened (c_conn s') = (direct_key q, q, Some (length (c_mgrs s))) # k_opened (c_conn s)
        \<and> c_mgrs s' = c_mgrs s @ [fm])"
  using assms
proof (cases rule: client_act.cases)
  case (direct_new q list_pods te dial opened accepted)
  note needed = direct_new(3) [unfolded tunnel_needed_def]
  show ?thesis
  proof (cases opened)
    case (Pair r g)
    show ?thesis
    proof (cases r)
      case (Inl err)
      with direct_new(1) Pair show ?thesis by (simp add: open_direct_def handle_channel_opened)
    next
      case (Inr fm)
      then have "OpenTunnel (label_Resolve list_pods ns) te dial (c_ctx s) ident q (c_gauges s) = Ret (Inr fm, g)"
        using direct_new Pair by simp
      moreover have "k_opened (c_conn s') = (direct_key q, q, Some (length (c_mgrs s))) # k_opened (c_conn s)"
        "c_mgrs s' = c_mgrs s @ [fm]"
        using direct_new(1) Pair Inr by (simp_all add: open_direct_def handle_channel_opened(6) [OF needed])
      ultimately show ?thesis using direct_new(4) by blast
    qed
  qed
next
  case (direct_known q answer accepted)
  then show ?thesis by (simp add: tunnel_needed_def handle_channel_opened)
next
  case (close keys key)
  then show ?thesis
    by (auto simp: close_forwarded_def close_tunnel_def Let_def case_prod_beta split: option.splits)
qed (simp_all add: open_session_def enter_forward_def cancel_all_def task_end_def task_channel_def leave_loop_def
    handle_channel_opened Let_def)

text \<open>
  Where the connection reaches in the cluster: its tunnels lead to pods of its own and to the ports that
  were asked for, and what its handlers have done and have still to do is in pods of its own.
\<close>

definition handler_effects_of :: "client \<Rightarrow> k8s_effect set" where
  "handler_effects_of s = set (c_effects s) \<union> {e. \<exists>c r effs. c_runs s c = Some (r, effs) \<and> e \<in> set effs}"

definition reach_ok :: "pod set \<Rightarrow> string \<Rightarrow> identity \<Rightarrow> client \<Rightarrow> bool" where
  "reach_ok cps ns ident s \<longleftrightarrow>
     (\<forall>fm \<in> set (c_mgrs s). own_pod cps ns ident (fm_namespace fm) (fm_pod fm)
        \<and> list_all (\<lambda>h. Port h = int_str (fm_port fm)) (fm_requested fm))
     \<and> (\<forall>key q f. (key, q, Some f) \<in> set (k_opened (c_conn s)) \<longrightarrow> fm_port (c_mgrs s ! f) = uint (DestPort q))
     \<and> (\<forall>e namespace name. e \<in> handler_effects_of s \<longrightarrow> effect_target e = Some (namespace, name) \<longrightarrow>
          own_pod cps ns ident namespace name)"

lemma run_handler_effects:
  assumes "run_handler cl resolve got events ident h = Ret (r, effs)" "e \<in> set effs"
    "effect_target e = Some (namespace, name)"
  shows "\<exists>t. resolve ident = Ret (Inr (Some t)) \<and> namespace = t_Namespace t \<and> name = t_Pod t"
proof -
  have "\<exists>r command. HandleShell cl resolve ident = Ret (r, effs) \<or> HandleExec cl resolve ident command = Ret (r, effs)
      \<or> (\<exists>r'. HandleSFTP cl resolve got events ident = Ret (r', effs))"
    using assms(1) by (cases h) (auto simp: run_handler_def go_bind_Ret_iff)
  with handler_effects [OF _ assms(2,3)] show ?thesis by metis
qed

lemma act_effects:
  assumes "client_act cps ns ident s s'" "e \<in> handler_effects_of s'" "e \<notin> handler_effects_of s"
    "effect_target e = Some (namespace, name)" "label_value (UserID ident)"
  shows "own_pod cps ns ident namespace name"
  using assms(1)
proof (cases rule: client_act.cases)
  case (handler_begins c t h list_pods cl got events r effs)
  with assms(2,3) have "e \<in> set effs" by (auto simp: handler_effects_of_def split: if_splits)
  from run_handler_effects [OF handler_begins(6) this assms(4)] pod_lister.resolved_own_pod [OF handler_begins(5) _ assms(5)]
  show ?thesis by auto
next
  case (handler_acts c r x effs)
  with assms(2,3) show ?thesis by (fastforce simp: handler_effects_of_def split: if_splits)
qed (use assms(2,3) in \<open>auto simp: handler_effects_of_def open_session_def open_direct_def enter_forward_def close_forwarded_def
      cancel_all_def Let_def split: prod.splits sum.splits option.splits\<close>)

lemma step_reach_ok:
  assumes "client_step cps ns ident s s'" "client_inv g0 s" "reach_ok cps ns ident s" "label_value (UserID ident)"
  shows "reach_ok cps ns ident s'"
proof -
  have act: "client_act cps ns ident s s'" using assms(1) by (simp add: client_step_def)
  have inv: "conn_reach (c_conn s)" "ctx_ok s" "mgrs_ok g0 s" using assms(2) by (simp_all add: client_inv_def)
  have old: "fm_namespace (c_mgrs s' ! f) = fm_namespace (c_mgrs s ! f) \<and> fm_pod (c_mgrs s' ! f) = fm_pod (c_mgrs s ! f)
      \<and> fm_port (c_mgrs s' ! f) = fm_port (c_mgrs s ! f)
      \<and> list_all (\<lambda>h. Port h = int_str (fm_port (c_mgrs s ! f))) (fm_requested (c_mgrs s' ! f))"
    if f: "f < length (c_mgrs s)" for f
  proof -
    have req: "list_all (\<lambda>h. Port h = int_str (fm_port (c_mgrs s ! f))) (fm_requested (c_mgrs s ! f))"
      using f assms(3) by (simp add: reach_ok_def)
    from act_manager [OF act inv(2) f]
    consider "c_mgrs s' ! f = c_mgrs s ! f" | g g' where "fm_step (g, c_mgrs s ! f) (g', c_mgrs s' ! f)" by blast
    then show ?thesis
    proof cases
      case 1
      with req show ?thesis by simp
    next
      case 2
      then show ?thesis using tunnel_streams [OF r_into_rtranclp req] by metis
    qed
  qed
  have opened: "f < length (c_mgrs s)" if "(key, q, Some f) \<in> set (k_opened (c_conn s))" for key q f
  proof -
    have "k_forwarded (c_conn s) = map (\<lambda>(k, r, f). (k, f)) (k_opened (c_conn s))"
      using conn_reach_ok(2) [OF inv(1)] by (simp add: tunnels_ok_def)
    with that have "(key, Some f) \<in> set (k_forwarded (c_conn s))" by force
    with mgrs_ok_forwarded [OF inv(3)] show ?thesis by blast
  qed
  have mgr: "own_pod cps ns ident (fm_namespace (c_mgrs s' ! f)) (fm_pod (c_mgrs s' ! f))
      \<and> list_all (\<lambda>h. Port h = int_str (fm_port (c_mgrs s' ! f))) (fm_requested (c_mgrs s' ! f))"
    if f: "f < length (c_mgrs s)" for f
    using old [OF f] assms(3) f by (simp add: reach_ok_def)
  have effects: "own_pod cps ns ident namespace name"
    if "e \<in> handler_effects_of s'" "effect_target e = Some (namespace, name)" for e namespace name
    using act_effects [OF act that(1) _ that(2) assms(4)] assms(3) that by (cases "e \<in> handler_effects_of s") (auto simp: reach_ok_def)
  from act_new_tunnel [OF act] show ?thesis
  proof (elim disjE exE conjE)
    assume same: "k_opened (c_conn s') = k_opened (c_conn s)" "length (c_mgrs s') = length (c_mgrs s)"
    with mgr old opened effects assms(3) show ?thesis
      by (auto simp: reach_ok_def in_set_conv_nth)
  next
    fix q list_pods te dial fm g
    assume lister: "pod_lister cps list_pods"
      and new: "OpenTunnel (label_Resolve list_pods ns) te dial (c_ctx s) ident q (c_gauges s) = Ret (Inr fm, g)"
      and k: "k_opened (c_conn s') = (direct_key q, q, Some (length (c_mgrs s))) # k_opened (c_conn s)"
      and m: "c_mgrs s' = c_mgrs s @ [fm]"
    from new have "fm_requested fm = []" by (rule OpenTunnel_Inr)
    moreover note tunnel_in_own_pod [OF lister assms(4) new]
    moreover have "fm_port ((c_mgrs s @ [fm]) ! f) = uint (DestPort r)" if "(key, r, Some f) \<in> set (k_opened (c_conn s))" for key r f
      using that opened [OF that] assms(3) by (simp add: nth_append reach_ok_def)
    ultimately show ?thesis using effects assms(3)
      unfolding reach_ok_def k m by auto
  qed
qed

lemma client_reach_reach_ok:
  assumes "client_reach cps ns ident g0 s" "label_value (UserID ident)"
  shows "reach_ok cps ns ident s"
  using assms(1) unfolding client_reach_def
proof (induction rule: reach_invariant)
  case (init s)
  then show ?case by (simp add: reach_ok_def handler_effects_of_def client_start_def conn_start_def)
next
  case (step s s')
  then have "client_step cps ns ident s s'" "client_inv g0 s" "reach_ok cps ns ident s"
    by (simp_all add: client_reach_inv client_reach_def)
  then show ?case using assms(2) by (rule step_reach_ok)
qed

lemma client_pods:
  assumes "client_reach cps ns ident g0 s" "label_value (UserID ident)"
  shows "(\<forall>e namespace name. e \<in> set (c_effects s) \<longrightarrow> effect_target e = Some (namespace, name) \<longrightarrow>
           own_pod cps ns ident namespace name)
    \<and> (\<forall>c q f. ForwardTask c (direct_key q) f \<in> set (k_tasks (c_conn s)) \<longrightarrow> f < length (c_mgrs s)
         \<and> own_pod cps ns ident (fm_namespace (c_mgrs s ! f)) (fm_pod (c_mgrs s ! f))
         \<and> (\<forall>h \<in> set (fm_requested (c_mgrs s ! f)). Port h = nat_str (unat (DestPort q))))"
proof -
  have inv: "conn_reach (c_conn s)" "mgrs_ok g0 s" using client_reach_inv [OF assms(1)] by (simp_all add: client_inv_def)
  note ok = client_reach_reach_ok [OF assms]
  have "f < length (c_mgrs s) \<and> own_pod cps ns ident (fm_namespace (c_mgrs s ! f)) (fm_pod (c_mgrs s ! f))
      \<and> (\<forall>h \<in> set (fm_requested (c_mgrs s ! f)). Port h = nat_str (unat (DestPort q)))"
    if task: "ForwardTask c (direct_key q) f \<in> set (k_tasks (c_conn s))" for c q f
  proof -
    have f: "f < length (c_mgrs s)" by (rule forward_task_mgr [OF inv task])
    from task_tunnel [OF inv(1) task] obtain r where
      "(direct_key q, r, Some f) \<in> set (k_opened (c_conn s))" "DestPort r = DestPort q" by blast
    with ok have "fm_port (c_mgrs s ! f) = uint (DestPort q)" by (auto simp: reach_ok_def)
    then have "int_str (fm_port (c_mgrs s ! f)) = nat_str (unat (DestPort q))" by (simp add: int_str_def)
    moreover from ok have "\<forall>fm \<in> set (c_mgrs s). own_pod cps ns ident (fm_namespace fm) (fm_pod fm)
        \<and> (\<forall>h \<in> set (fm_requested fm). Port h = int_str (fm_port fm))"
      by (simp add: reach_ok_def list_all_iff)
    ultimately show ?thesis using f by (metis nth_mem)
  qed
  with ok show ?thesis by (simp add: reach_ok_def handler_effects_of_def)
qed

lemma client_reach_start: "client_reach cps ns ident g0 (client_start g0)"
  unfolding client_reach_def by (simp add: reach_init)

lemma client_reach_step: "client_reach cps ns ident g0 s \<Longrightarrow> client_step cps ns ident s s' \<Longrightarrow> client_reach cps ns ident g0 s'"
  unfolding client_reach_def by (rule reach_step)

text \<open>The client opens a channel to port 8080.\<close>

lemma web_tunnel:
  obtains s where "client_reach (set [web_pod]) ''apps'' ann_web no_tunnels s"
    "ForwardTask 0 (direct_key web_request) 0 \<in> set (k_tasks (c_conn s))"
proof -
  let ?s = "client_start no_tunnels"
  have phase: "k_phase (c_conn ?s) = Serving" "tunnel_needed web_request ?s" "c_gauges ?s = no_tunnels" "c_ctx ?s = None"
    by (simp_all add: client_start_def conn_start_def tunnel_needed_def)
  obtain fm g' where o: "OpenTunnel (label_Resolve (ref_list [web_pod]) ''apps'') None (\<lambda>_ _. None) (c_ctx ?s) ann_web
      web_request (c_gauges ?s) = Ret (Inr fm, g')"
    by (auto simp: OpenTunnel_def ann_resolves NewForwardManager_def)
  let ?s' = "open_direct web_request (Inr fm, g') True ?s"
  have "client_live ?s" by (simp add: client_live_def client_start_def conn_start_def)
  then have "client_step (set [web_pod]) ''apps'' ann_web ?s ?s'"
    using client_act.direct_new [OF phase(1,2) ref_cluster.pod_lister_axioms o] by (simp add: client_step_def)
  then have r: "client_reach (set [web_pod]) ''apps'' ann_web no_tunnels ?s'"
    by (rule client_reach_step [OF client_reach_start])
  have "ForwardTask 0 (direct_key web_request) 0 \<in> set (k_tasks (c_conn ?s'))"
    by (simp add: open_direct_def client_start_def conn_op_defs conn_start_def perConnGoroutineCap_def)
  with r show thesis by (rule that)
qed

section \<open>Properties\<close>

text \<open>C9. The machines of the parts are refined by the whole: every step of a connection with all it runs
  is a step of the channel loop or leaves it alone; each session goes on by its own steps, or is new and
  started as it should be; each tunnel makes a step of its own or stays. So the loop and the sessions only
  get into states of their own machines, and, its map holding no nil, the loop never panics on a tunnel.\<close>

theorem client_refines:
  assumes "client_reach cps ns ident g0 s" "client_step cps ns ident s s'"
  shows "(conn_step (c_conn s) (c_conn s') \<or> c_conn s' = c_conn s)
    \<and> (\<forall>c t'. c_sess s' c = Some t' \<longrightarrow>
         (case c_sess s c of
            None \<Rightarrow> \<exists>now. session_step\<^sup>*\<^sup>* (NewSession now) t'
          | Some t \<Rightarrow> session_step\<^sup>*\<^sup>* t t'))
    \<and> (\<forall>f < length (c_mgrs s). c_mgrs s' ! f = c_mgrs s ! f
         \<or> (\<exists>g g'. fm_step (g, c_mgrs s ! f) (g', c_mgrs s' ! f)))
    \<and> conn_reach (c_conn s) \<and> k_phase (c_conn s) \<noteq> Panicked
    \<and> (\<forall>c t. c_sess s c = Some t \<longrightarrow> session_reach t)"
proof -
  have inv: "conn_reach (c_conn s)" "ctx_ok s" "sess_ok s" "k_phase (c_conn s) \<noteq> Panicked"
    using client_reach_inv [OF assms(1)] by (simp_all add: client_inv_def)
  have act: "client_act cps ns ident s s'" "client_live s" using assms(2) by (simp_all add: client_step_def)
  have dom: "\<forall>c. c_sess s c \<noteq> None \<longrightarrow> c < k_next (c_conn s)" using inv(3) by (auto simp: sess_ok_def)
  have "case c_sess s c of None \<Rightarrow> \<exists>now. session_step\<^sup>*\<^sup>* (NewSession now) t' | Some t \<Rightarrow> session_step\<^sup>*\<^sup>* t t'"
    if "c_sess s' c = Some t'" for c t'
    using act_session [OF act inv(2) dom that] by (auto split: option.splits)
  with act_conn [OF act] act_manager [OF act(1) inv(2)] inv show ?thesis by (auto simp: sess_ok_def)
qed

text \<open>A connection on which one session channel was opened.\<close>

definition one_session :: client where
  "one_session = open_session 0 True (client_start no_tunnels)"

lemma one_session_live: "client_live one_session"
  by (auto simp: client_live_def one_session_def open_session_def client_start_def conn_op_defs conn_start_def
      alive_def NewSession_def split: if_splits)

lemma one_session_sess: "c_sess one_session 0 = Some ((NewSession 0)\<lparr>s_ctx := None\<rparr>)"
  "SessionTask 0 \<in> set (k_tasks (c_conn one_session))" "c_ctx one_session = None"
  by (simp_all add: one_session_def open_session_def client_start_def conn_op_defs conn_start_def perConnGoroutineCap_def)

lemma one_session_step: "client_step cps ns ident (client_start no_tunnels) one_session"
  unfolding client_step_def one_session_def
proof
  show "client_act cps ns ident (client_start no_tunnels) (open_session 0 True (client_start no_tunnels))"
    by (rule client_act.session_channel) (simp add: client_start_def conn_start_def)
qed (simp add: client_live_def client_start_def conn_start_def)

lemma one_session_reach: "client_reach cps ns ident no_tunnels one_session"
  using client_reach_start one_session_step by (rule client_reach_step)

text \<open>Runs of a session inside its connection.\<close>

lemma session_run:
  assumes "client_reach cps ns ident g0 s" "client_live s" "c_sess s c = Some t" "own_act t t'" "alive t'"
  shows "client_reach cps ns ident g0 (s\<lparr>c_sess := (c_sess s)(c \<mapsto> t')\<rparr>)"
    "client_live (s\<lparr>c_sess := (c_sess s)(c \<mapsto> t')\<rparr>)"
proof -
  show "client_reach cps ns ident g0 (s\<lparr>c_sess := (c_sess s)(c \<mapsto> t')\<rparr>)"
    using assms(1) by (rule client_reach_step) (simp add: client_step_def assms client_act.session)
  show "client_live (s\<lparr>c_sess := (c_sess s)(c \<mapsto> t')\<rparr>)" using assms(2,5) by (simp add: client_live_def)
qed

lemma session_runs:
  assumes "(\<lambda>t t'. own_act t t' \<and> alive t')\<^sup>*\<^sup>* t t'" "client_reach cps ns ident g0 s" "client_live s" "c_sess s c = Some t"
  shows "client_reach cps ns ident g0 (s\<lparr>c_sess := (c_sess s)(c \<mapsto> t')\<rparr>)
    \<and> client_live (s\<lparr>c_sess := (c_sess s)(c \<mapsto> t')\<rparr>)"
  using assms(1)
proof (induction rule: rtranclp_induct)
  case base
  from assms(4) have "(c_sess s)(c \<mapsto> t) = c_sess s" by auto
  with assms(2,3) show ?case by simp
next
  case (step u v)
  let ?s = "s\<lparr>c_sess := (c_sess s)(c \<mapsto> u)\<rparr>"
  have "?s\<lparr>c_sess := (c_sess ?s)(c \<mapsto> v)\<rparr> = s\<lparr>c_sess := (c_sess s)(c \<mapsto> v)\<rparr>" "c_sess ?s c = Some u" by simp_all
  with session_run [of cps ns ident g0 ?s c u v] step show ?case by metis
qed

text \<open>One session channel, its context cancelled.\<close>

definition cancelled_session :: client where
  "cancelled_session = cancel_all ErrNotPermitted one_session"

lemma cancelled_session_reach:
  "client_reach cps ns ident no_tunnels cancelled_session" "client_live cancelled_session"
  "c_sess cancelled_session 0 = Some ((NewSession 0)\<lparr>s_ctx := Some ErrNotPermitted\<rparr>)"
  "c_conn cancelled_session = c_conn one_session" "c_ctx cancelled_session = Some ErrNotPermitted"
proof -
  have "client_step cps ns ident one_session cancelled_session"
    using one_session_live one_session_sess(3)
    by (simp add: client_step_def cancelled_session_def client_act.cancel)
  then show "client_reach cps ns ident no_tunnels cancelled_session"
    by (rule client_reach_step [OF one_session_reach])
  show "client_live cancelled_session" using one_session_live
    by (auto simp: client_live_def cancelled_session_def cancel_all_def alive_def)
qed (simp_all add: cancelled_session_def cancel_all_def one_session_sess)

text \<open>Its session comes to an end, without any request, and so does the connection.\<close>

lemma cancelled_session_ends:
  obtains t where "(\<lambda>t t'. own_act t t' \<and> alive t')\<^sup>*\<^sup>* ((NewSession 0)\<lparr>s_ctx := Some ErrNotPermitted\<rparr>) t"
    "s_main t = Reported (errors_join [Some ErrNotPermitted, Some ErrNotPermitted])"
proof -
  let ?e = "Some ErrNotPermitted"
  let ?t1 = "(NewSession 0)\<lparr>s_ctx := ?e\<rparr>"
  let ?t2 = "?t1\<lparr>s_worker := Finished ?e\<rparr>"
  let ?t3 = "?t2\<lparr>s_main := Waiting True\<rparr>"
  let ?t4 = "?t3\<lparr>s_main := Returned (errors_join [?e, ?e])\<rparr>"
  let ?r = "\<lambda>t t'. own_act t t' \<and> alive t'"
  have "session_act ?t1 ?t2" by (rule session_act.worker_cancelled) (simp_all add: NewSession_def)
  then have 1: "?r ?t1 ?t2" by (simp add: own_act_def alive_def NewSession_def)
  have "session_act ?t2 ?t3" by (rule session_act.child_ended) (simp_all add: NewSession_def child_done_def)
  then have 2: "?r ?t2 ?t3" by (simp add: own_act_def alive_def NewSession_def)
  have "session_act ?t3 (?t3\<lparr>s_main := Returned (return_value True ?e (s_ctx ?t3))\<rparr>)"
    by (rule session_act.returned) simp_all
  then have 3: "?r ?t3 ?t4" by (simp add: own_act_def alive_def return_value_def)
  have "session_act ?t4 (report_status (errors_join [?e, ?e]) ?t4)" by (rule session_act.reported) simp
  then have 4: "?r ?t4 (report_status (errors_join [?e, ?e]) ?t4)"
    by (simp add: own_act_def alive_def report_status_def)
  show thesis
  proof (rule that)
    note step = converse_rtranclp_into_rtranclp [where r = ?r]
    show "?r\<^sup>*\<^sup>* ?t1 (report_status (errors_join [?e, ?e]) ?t4)"
      by (rule step [OF 1 step [OF 2 step [OF 3 step [OF 4 rtranclp.rtrancl_refl]]]])
  qed (simp add: report_status_def)
qed

lemma cancelled_session_over:
  obtains s t e where "client_reach cps ns ident no_tunnels s" "k_phase (c_conn s) = Over e"
    "c_sess s 0 = Some t" "(0, 1) \<in> set (k_status (c_conn s))" "c_gauges s = c_gauges one_session"
proof -
  let ?e = "errors_join [Some ErrNotPermitted, Some ErrNotPermitted]"
  obtain t where t: "(\<lambda>t t'. own_act t t' \<and> alive t')\<^sup>*\<^sup>* ((NewSession 0)\<lparr>s_ctx := Some ErrNotPermitted\<rparr>) t" "s_main t = Reported ?e"
    by (rule cancelled_session_ends)
  let ?s1 = "cancelled_session\<lparr>c_sess := (c_sess cancelled_session)(0 \<mapsto> t)\<rparr>"
  note c = cancelled_session_reach(1) [of cps ns ident] cancelled_session_reach(2-5)
  have s1: "client_reach cps ns ident no_tunnels ?s1" "client_live ?s1"
    using session_runs [OF t(1) c(1-3)] by simp_all
  have k1: "c_conn ?s1 = c_conn one_session" by (simp add: c(4))
  have live: "client_live (?s1\<lparr>c_conn := k\<rparr>)" if "k_phase k \<noteq> Panicked" for k
    using s1(2) that by (simp add: client_live_def)
  have start: "k_phase (c_conn one_session) = Serving" "k_forwarded (c_conn one_session) = []"
    "k_tasks (c_conn one_session) = [SessionTask 0, GlobalTask]"
    by (simp_all add: one_session_def open_session_def client_start_def conn_op_defs conn_start_def perConnGoroutineCap_def)
  let ?k2 = "task_end (SessionTask 0) ?e (c_conn one_session)"
  let ?k3 = "task_end GlobalTask (Some ErrNotPermitted) ?k2"
  let ?k4 = "leave_loop ?k3" let ?k5 = "?k4\<lparr>k_phase := Draining\<rparr>" let ?k6 = "?k5\<lparr>k_phase := Over (k_err ?k5)\<rparr>"
  have fields: "k_phase ?k2 = Serving" "k_tasks ?k2 = [GlobalTask]" "k_phase ?k3 = Serving" "k_tasks ?k3 = []"
    "k_forwarded ?k3 = []" "k_tasks ?k5 = []" "k_phase ?k4 = Closing []" "(0, 1) \<in> set (k_status ?k6)"
    by (simp_all add: task_end_def task_channel_def leave_loop_def start Let_def)
  have "client_act cps ns ident ?s1 (?s1\<lparr>c_conn := task_end (SessionTask 0) ?e (c_conn ?s1)\<rparr>)"
    by (rule client_act.session_returns [where t = t]) (use start t(2) in \<open>simp_all add: k1\<close>)
  then have r2: "client_reach cps ns ident no_tunnels (?s1\<lparr>c_conn := ?k2\<rparr>)"
    using client_reach_step [OF s1(1)] s1(2) by (simp add: client_step_def k1)
  let ?s2 = "?s1\<lparr>c_conn := ?k2\<rparr>"
  have "client_act cps ns ident ?s2 (?s2\<lparr>c_conn := task_end GlobalTask (Some ErrNotPermitted) (c_conn ?s2)\<rparr>)"
    by (rule client_act.global_returns [where es = "[GlobalDone ErrNotPermitted]" and replies = "[]"])
       (use fields c(5) in simp_all)
  then have r3: "client_reach cps ns ident no_tunnels (?s1\<lparr>c_conn := ?k3\<rparr>)"
    using client_reach_step [OF r2] live [of ?k2] fields by (simp add: client_step_def)
  let ?s3 = "?s1\<lparr>c_conn := ?k3\<rparr>"
  have "client_act cps ns ident ?s3 (?s3\<lparr>c_conn := leave_loop (c_conn ?s3)\<rparr>)"
    by (rule client_act.leave) (use fields in simp)
  then have r4: "client_reach cps ns ident no_tunnels (?s1\<lparr>c_conn := ?k4\<rparr>)"
    using client_reach_step [OF r3] live [of ?k3] fields by (simp add: client_step_def)
  let ?s4 = "?s1\<lparr>c_conn := ?k4\<rparr>"
  have "client_act cps ns ident ?s4 (?s4\<lparr>c_conn := (c_conn ?s4)\<lparr>k_phase := Draining\<rparr>\<rparr>)"
    by (rule client_act.drain) (use fields in simp)
  then have r5: "client_reach cps ns ident no_tunnels (?s1\<lparr>c_conn := ?k5\<rparr>)"
    using client_reach_step [OF r4] live [of ?k4] fields by (simp add: client_step_def)
  let ?s5 = "?s1\<lparr>c_conn := ?k5\<rparr>"
  have "client_act cps ns ident ?s5 (?s5\<lparr>c_conn := (c_conn ?s5)\<lparr>k_phase := Over (k_err (c_conn ?s5))\<rparr>\<rparr>)"
    by (rule client_act.wait) (use fields in simp_all)
  then have r6: "client_reach cps ns ident no_tunnels (?s1\<lparr>c_conn := ?k6\<rparr>)"
    using client_reach_step [OF r5] live [of ?k5] by (simp add: client_step_def)
  show thesis
    by (rule that [OF r6, of "k_err ?k5" t]) (use fields in \<open>simp_all add: cancelled_session_def cancel_all_def\<close>)
qed

theorem client_refines_witness:
  "conn_step conn_start (c_conn one_session) \<or> c_conn one_session = conn_start"
  using client_refines [of "{}" "''apps''" ann_web no_tunnels "client_start no_tunnels" one_session,
      OF client_reach_start one_session_step]
  by (simp add: client_start_def)

text \<open>The session had reported the same status last.\<close>

lemma reported_last:
  assumes "session_reach t" "s_main t = Reported e"
  shows "\<exists>xs. s_status t = status_of e # xs"
proof -
  let ?I = "\<lambda>t. result_inv t \<and> (\<forall>e. s_main t = Reported e \<longrightarrow> (\<exists>xs. s_status t = status_of e # xs))"
  have "?I t"
    using assms(1)
  proof (rule session_reach_invariant)
    fix t t' assume I: "?I t" "session_act t t'"
    from I(2,1) have "\<forall>e. s_main t' = Reported e \<longrightarrow> (\<exists>xs. s_status t' = status_of e # xs)"
    proof (induction rule: session_act.induct)
      case (request t r)
      then show ?case by (cases "(r, t)" rule: handle_request.cases) (simp_all add: session_op_defs)
    next
      case (finish t h e se)
      then show ?case by (cases h) (auto simp: finish_handler_def result_inv_def)
    qed (auto simp: session_op_defs status_of_def)
    with act_result_inv I show "?I t'" by blast
  qed (simp add: result_inv_def NewSession_def)
  with assms(2) show ?thesis by blast
qed

text \<open>C15. The status a session channel is closed with is that of its session: 0 exactly when what the
  session ran returned no error; it comes once, after the session's own end, with at most one handler
  run; and it is the one the session itself has reported last.\<close>

theorem exit_status:
  assumes "client_reach cps ns ident g0 s" "c_sess s c = Some t" "(c, st) \<in> set (k_status (c_conn s))"
  shows "SessionTask c \<notin> set (k_tasks (c_conn s))
    \<and> (\<exists>e. s_main t = Reported e \<and> st = (if e = None then 0 else 1) \<and> st = hd (s_status t))
    \<and> length (s_started t) \<le> 1 \<and> (\<forall>st'. (c, st') \<in> set (k_status (c_conn s)) \<longrightarrow> st' = st)"
proof -
  have inv: "conn_reach (c_conn s)" "sess_ok s" using client_reach_inv [OF assms(1)] by (simp_all add: client_inv_def)
  note dist = distinct_tasks [OF inv(1)]
  have closed: "map fst (k_status (c_conn s)) = k_closed (c_conn s)"
    using conn_reach_ok(1) [OF inv(1)] by (simp add: channels_ok_def)
  have "c \<in> set (k_closed (c_conn s))" using assms(3) unfolding closed [symmetric] by force
  with dist(3) have task: "SessionTask c \<notin> set (k_tasks (c_conn s))"
    using task_in_channels [of "SessionTask c"] by (auto simp: task_channel_def)
  have one: "st' = st''" if "(c, st') \<in> set (k_status (c_conn s))" "(c, st'') \<in> set (k_status (c_conn s))" for st' st''
    using that dist(2) closed by (metis eq_key_imp_eq_value)
  from inv(2) assms(2) task obtain e where e: "session_reach t" "s_main t = Reported e"
    "(c, status_of e) \<in> set (k_status (c_conn s))" unfolding sess_ok_def by blast
  with one [OF assms(3)] have "st = status_of e" by simp
  with reported_last [OF e(1,2)] session_inv_reach [OF e(1)] e(2) task one [OF _ assms(3)] show ?thesis
    by (auto simp: status_of_def session_inv_def one_handler_def)
qed

theorem exit_status_witness:
  "\<exists>s t. client_reach {} ''apps'' ann_web no_tunnels s \<and> c_sess s 0 = Some t \<and> (0, 1) \<in> set (k_status (c_conn s))
    \<and> hd (s_status t) = 1"
proof -
  obtain s t e where s: "client_reach {} ''apps'' ann_web no_tunnels s" "k_phase (c_conn s) = Over e"
    "c_sess s 0 = Some t" "(0, 1) \<in> set (k_status (c_conn s))"
    by (rule cancelled_session_over)
  with exit_status [OF s(1,3,4)] show ?thesis by metis
qed

text \<open>C5. When a connection is over, nothing of it is left: every session has reported and its handler has
  returned, every tunnel is closed with its calls returned, the two tunnel gauges are back where they
  were, and every channel it accepted is closed.\<close>

theorem client_over:
  assumes "client_reach cps ns ident g0 s" "k_phase (c_conn s) = Over e"
  shows "c_gauges s = g0 \<and> e = k_err (c_conn s)
    \<and> (\<forall>c t. c_sess s c = Some t \<longrightarrow> (\<exists>r. s_main t = Reported r) \<and> (\<exists>r. s_worker t = Finished r))
    \<and> (\<forall>fm \<in> set (c_mgrs s). fm_closed fm \<and> \<not> fm_conn_open fm \<and> list_all (\<lambda>c. \<exists>r. c = CallDone r) (fm_calls fm))
    \<and> mset (k_closed (c_conn s)) = mset (k_accepted (c_conn s))"
proof -
  have inv: "conn_reach (c_conn s)" "sess_ok s" "mgrs_ok g0 s" "calls_ok s"
    using client_reach_inv [OF assms(1)] by (simp_all add: client_inv_def)
  note over = over_result [OF inv(1) assms(2)]
  have sess: "(\<exists>r. s_main t = Reported r) \<and> (\<exists>r. s_worker t = Finished r)" if "c_sess s c = Some t" for c t
  proof -
    from that inv(2) over obtain r where "session_reach t" "s_main t = Reported r" by (auto simp: sess_ok_def)
    then show ?thesis using result_inv_reach [of t] by (auto simp: result_inv_def)
  qed
  have closed: "fm_closed (c_mgrs s ! f)" if f: "f < length (c_mgrs s)" for f
  proof -
    have "Some f \<in> set (map snd (k_forwarded (c_conn s)))" using inv(3) f by (simp add: mgrs_ok_def)
    then obtain key where key: "(key, Some f) \<in> set (k_forwarded (c_conn s))" by auto
    have "mset (k_fwclosed (c_conn s)) = mset (map fst (k_forwarded (c_conn s)))"
      using conn_reach_ok(2) [OF inv(1)] assms(2) by (simp add: tunnels_ok_def)
    from mset_eq_setD [OF this] key have "key \<in> set (k_fwclosed (c_conn s))" by force
    with key inv(3) show ?thesis by (auto simp: mgrs_ok_def)
  qed
  have done': "list_all (\<lambda>c. \<exists>r. c = CallDone r) (fm_calls (c_mgrs s ! f))" if "f < length (c_mgrs s)" for f
    using calls_ok_call [OF inv(4) that] over by (auto simp: list_all_length)
  have all: "fm_closed fm \<and> \<not> fm_conn_open fm \<and> list_all (\<lambda>c. \<exists>r. c = CallDone r) (fm_calls fm)"
    if "fm \<in> set (c_mgrs s)" for fm
    using that closed done' inv(3) by (fastforce simp: in_set_conv_nth mgrs_ok_def fm_inv_def)
  have "piping cs = []" if "list_all (\<lambda>c. \<exists>r. c = CallDone r) cs" for cs
    using that by (induction cs) auto
  with all have shares: "\<forall>fm \<in> set (c_mgrs s). forwards_of fm = 0" "\<forall>fm \<in> set (c_mgrs s). streams_of fm = 0"
    by (simp_all add: forwards_of_def streams_of_def)
  have "(\<Sum>x \<leftarrow> xs. h x) = (0 :: int)" if "\<forall>x \<in> set xs. h x = 0" for h and xs :: "forward_manager list"
    using that by (induction xs) simp_all
  note sums = this [OF shares(1)] this [OF shares(2)]
  from inv(3) have "ActiveTunnelForwards (c_gauges s) = ActiveTunnelForwards g0"
    "ActiveTunnelStreams (c_gauges s) = ActiveTunnelStreams g0"
    unfolding mgrs_ok_def sums by simp_all
  then have "c_gauges s = g0" by simp
  moreover have "mset (k_closed (c_conn s)) = mset (k_accepted (c_conn s))"
    using all_closed [OF inv(1)] over by blast
  ultimately show ?thesis using sess all over by blast
qed

theorem client_over_witness:
  "\<exists>s e t r. client_reach {} ''apps'' ann_web no_tunnels s \<and> k_phase (c_conn s) = Over e \<and> c_sess s 0 = Some t
    \<and> s_worker t = Finished r \<and> c_gauges s = no_tunnels"
proof -
  obtain s t e where s: "client_reach {} ''apps'' ann_web no_tunnels s" "k_phase (c_conn s) = Over e" "c_sess s 0 = Some t"
    by (rule cancelled_session_over)
  with client_over [OF s(1,2)] show ?thesis by blast
qed

text \<open>A run of a connection, with the number of times its loop and goroutines have moved on.\<close>

inductive client_run :: "pod set \<Rightarrow> string \<Rightarrow> identity \<Rightarrow> client \<Rightarrow> nat \<Rightarrow> client \<Rightarrow> bool"
  for cps :: "pod set" and ns :: string and ident :: identity where
  run_refl: "client_run cps ns ident s 0 s"
| run_step: "client_run cps ns ident s n u \<Longrightarrow> client_step cps ns ident u v \<Longrightarrow>
     m = (if c_conn v = c_conn u then n else Suc n) \<Longrightarrow> client_run cps ns ident s m v"

lemma client_run_loop:
  assumes "client_run cps ns ident s n s'" "k_phase (c_conn s) \<noteq> Serving"
  shows "k_phase (c_conn s') \<noteq> Serving \<and> steps_left (c_conn s') + n \<le> steps_left (c_conn s)
    \<and> k_next (c_conn s') = k_next (c_conn s) \<and> k_accepted (c_conn s') = k_accepted (c_conn s)
    \<and> k_opened (c_conn s') = k_opened (c_conn s) \<and> set (k_tasks (c_conn s')) \<subseteq> set (k_tasks (c_conn s))"
  using assms
proof (induction rule: client_run.induct)
  case (run_step s n u v m)
  have act: "conn_step (c_conn u) (c_conn v) \<or> c_conn v = c_conn u"
    using run_step.hyps(2) act_conn [of cps ns ident u v] by (simp add: client_step_def)
  show ?case
  proof (cases "c_conn v = c_conn u")
    case False
    with act have "conn_step (c_conn u) (c_conn v)" by simp
    from step_left [OF this] step_begins_nothing [OF this] run_step False show ?thesis by auto
  qed (use run_step in simp)
qed simp

text \<open>While the loop has been left but not finished, it can go on by itself, unless it waits for goroutines.\<close>

lemma loop_goes_on:
  assumes "client_live s" "k_phase (c_conn s) \<noteq> Serving"
    and stop: "\<And>v. client_step cps ns ident s v \<Longrightarrow> c_conn v = c_conn s"
  shows "(\<exists>e. k_phase (c_conn s) = Over e) \<or> k_phase (c_conn s) = Draining \<and> k_tasks (c_conn s) \<noteq> []"
proof (cases "k_phase (c_conn s)")
  case (Closing keys)
  show ?thesis
  proof (cases keys)
    case Nil
    with Closing assms(1) have "client_step cps ns ident s (s\<lparr>c_conn := (c_conn s)\<lparr>k_phase := Draining\<rparr>\<rparr>)"
      by (simp add: client_step_def client_act.drain)
    from arg_cong [OF stop [OF this], of k_phase] Closing show ?thesis by simp
  next
    case (Cons key ks)
    with Closing assms(1) have "client_step cps ns ident s (close_forwarded keys key s)"
      by (simp add: client_step_def client_act.close)
    moreover have "c_conn (close_forwarded keys key s) = close_tunnel keys key (c_conn s)"
      by (simp add: close_forwarded_def Let_def case_prod_beta split: option.split)
    ultimately have "k_phase (close_tunnel keys key (c_conn s)) = Closing keys" using stop Closing by fastforce
    with Cons show ?thesis by (auto simp: close_tunnel_def split: option.splits)
  qed
next
  case Draining
  have "k_tasks (c_conn s) \<noteq> []"
  proof
    assume "k_tasks (c_conn s) = []"
    with Draining assms(1) have "client_step cps ns ident s (s\<lparr>c_conn := (c_conn s)\<lparr>k_phase := Over (k_err (c_conn s))\<rparr>\<rparr>)"
      by (simp add: client_step_def client_act.wait)
    from arg_cong [OF stop [OF this], of k_phase] Draining show False by simp
  qed
  with Draining show ?thesis by blast
qed (use assms(1,2) in \<open>auto simp: client_live_def\<close>)

text \<open>C20. Once the loop is left, the connection winds down within bounds: whatever its sessions and tunnels do,
  its loop and its goroutines move on at most once for each tunnel and each goroutine and twice more, and no
  channel is accepted, no tunnel opened and no goroutine started any more. Where none of this moves on
  whatever the next step is, the connection is over or it waits for goroutines that have not ended, after the
  tunnels were closed; it is never held up before that, and it may be there for good (a session whose send
  nobody receives).\<close>

theorem loop_winds_down:
  assumes "client_reach cps ns ident g0 s" "k_phase (c_conn s) \<noteq> Serving" "client_run cps ns ident s n s'"
  shows "n \<le> length (k_forwarded (c_conn s)) + 12
    \<and> k_accepted (c_conn s') = k_accepted (c_conn s) \<and> k_next (c_conn s') = k_next (c_conn s)
    \<and> k_opened (c_conn s') = k_opened (c_conn s) \<and> set (k_tasks (c_conn s')) \<subseteq> set (k_tasks (c_conn s))
    \<and> (client_live s' \<longrightarrow> (\<forall>v. client_step cps ns ident s' v \<longrightarrow> c_conn v = c_conn s') \<longrightarrow>
         (\<exists>e. k_phase (c_conn s') = Over e) \<or> k_phase (c_conn s') = Draining \<and> k_tasks (c_conn s') \<noteq> [])"
proof -
  have "conn_reach (c_conn s)" using client_reach_inv [OF assms(1)] by (simp add: client_inv_def)
  then have "steps_left (c_conn s) \<le> length (k_forwarded (c_conn s)) + 12" by (rule steps_left_bound)
  with client_run_loop [OF assms(3,2)] loop_goes_on [of s' cps ns ident] show ?thesis by auto
qed

theorem loop_winds_down_witness:
  "\<exists>s s'. client_reach {} ''apps'' ann_web no_tunnels s \<and> client_run {} ''apps'' ann_web s 1 s' \<and> k_phase (c_conn s') = Draining
    \<and> 1 \<le> length (k_forwarded (c_conn s)) + 12 \<and> k_accepted (c_conn s') = k_accepted (c_conn s)"
proof -
  let ?k = "leave_loop conn_start"
  let ?s = "(client_start no_tunnels)\<lparr>c_conn := ?k\<rparr>" and ?s' = "(client_start no_tunnels)\<lparr>c_conn := ?k\<lparr>k_phase := Draining\<rparr>\<rparr>"
  have start: "c_conn (client_start no_tunnels) = conn_start" "client_live (client_start no_tunnels)"
    by (simp_all add: client_live_def client_start_def conn_start_def)
  have "client_act {} ''apps'' ann_web (client_start no_tunnels) ?s"
    using client_act.leave [of "client_start no_tunnels" "{}" "''apps''" ann_web] by (simp add: start(1)) (simp add: conn_start_def)
  with start(2) have r: "client_reach {} ''apps'' ann_web no_tunnels ?s"
    by (intro client_reach_step [OF client_reach_start]) (simp add: client_step_def)
  have k: "k_phase ?k = Closing []" by (simp add: leave_loop_def conn_start_def)
  then have "client_step {} ''apps'' ann_web ?s ?s'"
    using client_act.drain [of ?s "{}" "''apps''" ann_web] start(2) by (simp add: client_step_def client_live_def)
  then have run: "client_run {} ''apps'' ann_web ?s 1 ?s'"
    by (rule client_run.run_step [OF client_run.run_refl]) (use k in \<open>auto dest: arg_cong [where f = k_phase]\<close>)
  from loop_winds_down [OF r _ run] r run k show ?thesis by (intro exI [of _ ?s] exI [of _ ?s']) simp
qed

text \<open>One client never gets out of its own pods: all that its handlers do in the cluster, streams and
  patches alike, is on ready pods of the namespace that carry its user id as owner, and so are the tunnels
  its channels are piped into, whose streams carry the very port the channel asked for.\<close>

theorem client_isolated:
  assumes "client_reach cps ns ident g0 s" "label_value (UserID ident)"
  shows "(\<forall>e namespace name. e \<in> set (c_effects s) \<longrightarrow> effect_target e = Some (namespace, name) \<longrightarrow>
           own_pod cps ns ident namespace name)
    \<and> (\<forall>c q f. ForwardTask c (direct_key q) f \<in> set (k_tasks (c_conn s)) \<longrightarrow> f < length (c_mgrs s)
         \<and> own_pod cps ns ident (fm_namespace (c_mgrs s ! f)) (fm_pod (c_mgrs s ! f))
         \<and> (\<forall>h \<in> set (fm_requested (c_mgrs s ! f)). Port h = nat_str (unat (DestPort q))))"
  using client_pods [OF assms] by blast

theorem client_isolated_witness:
  "\<exists>s. client_reach (set [web_pod]) ''apps'' ann_web no_tunnels s
    \<and> ForwardTask 0 (direct_key web_request) 0 \<in> set (k_tasks (c_conn s))
    \<and> own_pod (set [web_pod]) ''apps'' ann_web (fm_namespace (c_mgrs s ! 0)) (fm_pod (c_mgrs s ! 0))"
proof -
  obtain s where s: "client_reach (set [web_pod]) ''apps'' ann_web no_tunnels s"
    "ForwardTask 0 (direct_key web_request) 0 \<in> set (k_tasks (c_conn s))"
    by (rule web_tunnel)
  have "label_value (UserID ann_web)" by code_simp
  from client_isolated [OF s(1) this] s show ?thesis by blast
qed

text \<open>A step does not free a session that is stuck, nor end its goroutine.\<close>

definition stuck_at :: "nat \<Rightarrow> client \<Rightarrow> bool" where
  "stuck_at c s \<longleftrightarrow> (\<exists>t. c_sess s c = Some t \<and> stuck t) \<and> SessionTask c \<in> set (k_tasks (c_conn s))"

lemma stuck_step:
  assumes "client_reach cps ns ident g0 u" "stuck_at c u" "client_step cps ns ident u v"
  shows "stuck_at c v"
proof -
  obtain t where t: "c_sess u c = Some t" "stuck t" and task: "SessionTask c \<in> set (k_tasks (c_conn u))"
    using assms(2) by (auto simp: stuck_at_def)
  have inv: "conn_reach (c_conn u)" "ctx_ok u" "sess_ok u"
    using client_reach_inv assms(1) by (auto simp: client_inv_def)
  have act: "client_act cps ns ident u v" "client_live u" using assms(3) by (simp_all add: client_step_def)
  have dom: "\<forall>c. c_sess u c \<noteq> None \<longrightarrow> c < k_next (c_conn u)" using inv(3) by (auto simp: sess_ok_def)
  have "c_sess v c \<noteq> None"
    using act(1) t(1)
    by (cases rule: client_act.cases)
       (auto simp: open_session_def open_direct_def enter_forward_def close_forwarded_def cancel_all_def Let_def
         split: prod.splits sum.splits option.splits)
  then obtain t' where t': "c_sess v c = Some t'" by blast
  with act_session [OF act inv(2) dom t'] t(1) have run: "session_step\<^sup>*\<^sup>* t t'" by simp
  then have "stuck t' \<and> s_main t' = s_main t"
    using t(2) by (induction rule: rtranclp_induct) (auto simp: session_step_def dest: act_stuck)
  moreover have "SessionTask c \<in> set (k_tasks (c_conn v))"
  proof (rule ccontr)
    assume "SessionTask c \<notin> set (k_tasks (c_conn v))"
    with act_tasks(4) [OF act(1) inv(1), of c] task t' obtain e where "s_main t' = Reported e" by auto
    with calculation show False by (simp add: stuck_def)
  qed
  ultimately show ?thesis using t' by (simp add: stuck_at_def)
qed

lemma stuck_not_over:
  assumes "client_reach cps ns ident g0 s" "stuck_at c s"
  shows "k_phase (c_conn s) \<noteq> Over e"
proof
  assume "k_phase (c_conn s) = Over e"
  with over_result client_reach_inv [OF assms(1)] have "k_tasks (c_conn s) = []" by (auto simp: client_inv_def)
  with assms(2) show False by (simp add: stuck_at_def)
qed

lemma changes_run:
  "s_main t = InLoop \<Longrightarrow> length (s_resize t) + n \<le> resize_cap \<Longrightarrow>
     (\<lambda>t t'. own_act t t' \<and> alive t')\<^sup>*\<^sup>* t ((receive_request plain_change ^^ n) t)
     \<and> s_main ((receive_request plain_change ^^ n) t) = InLoop
     \<and> length (s_resize ((receive_request plain_change ^^ n) t)) = length (s_resize t) + n
     \<and> s_worker ((receive_request plain_change ^^ n) t) = s_worker t
     \<and> s_reader ((receive_request plain_change ^^ n) t) = s_reader t
     \<and> s_ctx ((receive_request plain_change ^^ n) t) = s_ctx t"
proof (induction n)
  case (Suc n)
  let ?u = "(receive_request plain_change ^^ n) t"
  from Suc have u: "s_main ?u = InLoop" "length (s_resize ?u) < resize_cap"
    "(\<lambda>t t'. own_act t t' \<and> alive t')\<^sup>*\<^sup>* t ?u" by simp_all
  note r = receive_change [of ?u]
  have "own_act ?u (receive_request plain_change ?u) \<and> alive (receive_request plain_change ?u)"
    using session_act.request [OF u(1)] r u by (simp add: own_act_def alive_def)
  with Suc u r show ?case by (auto intro: rtranclp.rtrancl_into_rtrancl)
qed simp

text \<open>Nine window changes to a cancelled session.\<close>

lemma stuck_client:
  obtains s t where "client_reach {} ''apps'' ann_web no_tunnels s" "c_ctx s = Some ErrNotPermitted"
    "client_live s" "c_sess s 0 = Some t" "stuck t" "SessionTask 0 \<in> set (k_tasks (c_conn s))"
proof -
  let ?t = "(NewSession 0)\<lparr>s_ctx := Some ErrNotPermitted\<rparr>"
  let ?r = "\<lambda>t t'. own_act t t' \<and> alive t'"
  define u where "u = (receive_request plain_change ^^ 8) ?t"
  have u: "?r\<^sup>*\<^sup>* ?t u" "s_main u = InLoop" "length (s_resize u) = resize_cap" "s_worker u = Selecting"
    "s_ctx u = Some ErrNotPermitted" "\<not> s_reader u"
    using changes_run [of ?t 8] by (simp_all add: u_def NewSession_def resize_cap_def)
  let ?v = "receive_request plain_change u"
  obtain ev where v: "s_main ?v = SendingResize ev plain_change" "s_resize ?v = s_resize u" "s_worker ?v = Selecting"
    "s_ctx ?v = Some ErrNotPermitted" "\<not> s_reader ?v"
    using receive_change [of u] u by auto
  let ?w = "?v\<lparr>s_worker := Finished (Some ErrNotPermitted)\<rparr>"
  have uv: "?r u ?v" using session_act.request [OF u(2)] v u by (simp add: own_act_def alive_def)
  have "session_act ?v ?w" using v by (intro session_act.worker_cancelled)
  then have vw: "?r ?v ?w" using v by (simp add: own_act_def alive_def)
  note step = rtranclp.rtrancl_into_rtrancl [where r = ?r]
  have run: "?r\<^sup>*\<^sup>* ?t ?w" by (rule step [OF step [OF u(1) uv] vw])
  let ?s = "cancelled_session\<lparr>c_sess := (c_sess cancelled_session)(0 \<mapsto> ?w)\<rparr>"
  have r: "client_reach {} ''apps'' ann_web no_tunnels ?s" "client_live ?s"
    using session_runs [OF run cancelled_session_reach(1-3)] by simp_all
  have "stuck ?w" using v u(3) by (simp add: stuck_def)
  then show thesis
    using r one_session_sess(2) by (intro that [of ?s ?w]) (simp_all add: cancelled_session_reach)
qed

end
