(* ===== verification/Sync_History.thy ===== *)
theory Sync_History
  imports Sync_Auth
begin

text \<open>
  What the authenticator knows after any run of the sync worker. The writes of a run form a log, read
  off the documents alone; the directory says of a key which write of the log, if any, was the last to
  reach Redis, and when. The worker and Redis together implement this directory, whatever the store:
  an entry counts from its write until its expiry.
\<close>

section \<open>The log of a run\<close>

text \<open>The keys of a document that are written, with the document.\<close>

definition keys_log :: "'k crypto \<Rightarrow> user_doc \<Rightarrow> (string \<times> user_doc) list" where
  "keys_log cr u =
     List.map_filter
       (\<lambda>pk. case NormalizePublicKey cr pk of Inl err \<Rightarrow> None | Inr norm \<Rightarrow> Some (ComputeKey cr norm, u))
       (u_PublicKeys u)"

fun docs_log :: "'k crypto \<Rightarrow> (gerror + user_doc) list \<Rightarrow> (string \<times> user_doc) list" where
  "docs_log cr [] = []"
| "docs_log cr (Inl err # docs) = docs_log cr docs"
| "docs_log cr (Inr u # docs) = keys_log cr u @ docs_log cr docs"

text \<open>A run ends with its context, or with the first pass whose query fails.\<close>

fun loop_log :: "'k crypto \<Rightarrow> sync_event list \<Rightarrow> (string \<times> user_doc) list" where
  "loop_log cr [] = []"
| "loop_log cr (CtxDone err # es) = []"
| "loop_log cr (Tick (Inl err) # es) = []"
| "loop_log cr (Tick (Inr docs) # es) = docs_log cr docs @ loop_log cr es"

section \<open>The directory\<close>

text \<open>Time and document of the last write of a key that succeeded; writes are numbered from \<open>n\<close>.\<close>

fun directory :: "env \<Rightarrow> nat \<Rightarrow> (string \<times> user_doc) list \<Rightarrow> string \<Rightarrow> (int \<times> user_doc) option" where
  "directory env n [] key = None"
| "directory env n ((k, u) # log) key =
     (case directory env (Suc n) log key of
        Some entry \<Rightarrow> Some entry
      | None \<Rightarrow> if k = key \<and> env_fail env n = None then Some (env_now env n, u) else None)"

text \<open>The answer of the authenticator for an entry, at a time.\<close>

definition directory_answer ::
    "int \<Rightarrow> int \<Rightarrow> (int \<times> user_doc) option \<Rightarrow> gerror + identity option \<Rightarrow> gerror + identity option" where
  "directory_answer interval t entry before =
     (case entry of
        None \<Rightarrow> before
      | Some (written, u) \<Rightarrow>
          if t < written + expiry_millis (interval + 5 * second) * nanos_per_milli
          then Inr (Some (no_identity\<lparr>UserID := to_valid (u_ID u)\<rparr>))
          else Inl (Dynamic ''identity not found''))"

lemma directory_entry:
  "directory env n log key = Some (written, u) \<Longrightarrow>
     (key, u) \<in> set log \<and> (\<exists>i < length log. written = env_now env (n + i) \<and> env_fail env (n + i) = None)"
proof (induction env n log key rule: directory.induct)
  case (2 env n k v log key)
  show ?case
  proof (cases "directory env (Suc n) log key")
    case None
    with 2(2) show ?thesis by (force split: if_splits)
  next
    case (Some entry)
    with 2 have "(key, u) \<in> set log" "\<exists>i < length log. written = env_now env (Suc n + i) \<and> env_fail env (Suc n + i) = None"
      by auto
    then show ?thesis by (metis add_Suc add_Suc_right length_Cons list.set_intros(2) not_less_eq)
  qed
qed simp

lemma keys_log_lists: "(key, u) \<in> set (keys_log cr v) \<longleftrightarrow> u = v \<and> lists_key cr v key"
proof -
  have "(key, u) \<in> set (List.map_filter (\<lambda>pk. case NormalizePublicKey cr pk of
      Inl err \<Rightarrow> None | Inr norm \<Rightarrow> Some (ComputeKey cr norm, v)) pks)
    \<longleftrightarrow> u = v \<and> (\<exists>pk \<in> set pks. \<exists>k. ParseAuthorizedKey cr pk = Inr k \<and> ComputeKey cr (Marshal cr k) = key)" for pks
    by (induction pks) (auto simp: map_filter_simps NormalizePublicKey_def split: sum.splits)
  then show ?thesis by (simp add: keys_log_def lists_key_def)
qed

lemma docs_log_lists: "(key, u) \<in> set (docs_log cr docs) \<longleftrightarrow> Inr u \<in> set docs \<and> lists_key cr u key"
  by (induction cr docs rule: docs_log.induct) (auto simp: keys_log_lists)

lemma loop_log_lists:
  "(key, u) \<in> set (loop_log cr es) \<Longrightarrow> \<exists>docs. Tick (Inr docs) \<in> set es \<and> Inr u \<in> set docs \<and> lists_key cr u key"
  by (induction cr es rule: loop_log.induct) (auto simp: docs_log_lists)

section \<open>The worker writes the log\<close>

definition cache_write ::
    "'s kv_setter \<Rightarrow> env \<Rightarrow> int \<Rightarrow> 's redis_conn \<Rightarrow> string \<times> user_doc \<Rightarrow> 's redis_conn" where
  "cache_write kv_set env ttl c = (\<lambda>(key, u). snd (redis_Set kv_set env key (marshal_model (user_identity u)) ttl c))"

lemma sync_keys_log:
  "sync_keys cr kv_set env i (marshal_model (user_identity u)) pks c =
     foldl (cache_write kv_set env (i + 5 * second)) c
       (List.map_filter (\<lambda>pk. case NormalizePublicKey cr pk of
          Inl err \<Rightarrow> None | Inr norm \<Rightarrow> Some (ComputeKey cr norm, u)) pks)"
  by (induction pks arbitrary: c)
     (auto simp: map_filter_simps cache_write_def case_prod_unfold Let_def split: sum.splits)

lemma sync_docs_log:
  "sync_docs cr kv_set env i docs c = foldl (cache_write kv_set env (i + 5 * second)) c (docs_log cr docs)"
  by (induction cr docs arbitrary: c rule: docs_log.induct) (simp_all add: sync_keys_log keys_log_def Let_def)

lemma periodic_loop_log:
  "snd (snd (periodic_loop cr kv_set env es w c)) =
     foldl (cache_write kv_set env (ps_interval w + 5 * second)) c (loop_log cr es)"
  by (induction cr es arbitrary: w c rule: loop_log.induct) (simp_all add: syncOnce_def sync_docs_log Let_def)

text \<open>The connection after the first \<open>k\<close> writes of a run: the states of the cache another process may see.\<close>

definition cache_after ::
    "'k crypto \<Rightarrow> 's kv_setter \<Rightarrow> env \<Rightarrow> sync_event list \<Rightarrow> periodic_syncer \<Rightarrow> 's redis_conn \<Rightarrow> nat \<Rightarrow> 's redis_conn" where
  "cache_after cr kv_set env es w c k =
     foldl (cache_write kv_set env (ps_interval w + 5 * second)) c (take k (loop_log cr es))"

lemma cache_after_all:
  assumes "periodic_loop cr kv_set env es w c = (r, w', c')"
  shows "cache_after cr kv_set env es w c (length (loop_log cr es)) = c'"
  using periodic_loop_log [of cr kv_set env es w c] assms by (simp add: cache_after_def)

lemma cache_write_writes [simp]: "rc_writes (cache_write kv_set env ttl c x) = Suc (rc_writes c)"
  by (cases x) (simp add: cache_write_def redis_Set_def Let_def split: option.split)

section \<open>Reading it back\<close>

text \<open>On any store: a key is answered by the last of the writes that reached it, until its expiry.\<close>

context identity_cache
begin

lemma write_read:
  assumes "0 < expiry_millis ttl" "env_now env (rc_writes c) \<le> t"
  shows "kv_get (rc_store (cache_write kv_set env ttl c (k, u))) t key =
    (if k = key \<and> env_fail env (rc_writes c) = None
     then (if t < env_now env (rc_writes c) + expiry_millis ttl * nanos_per_milli
           then Some (marshal_model (user_identity u)) else None)
     else kv_get (rc_store c) t key)"
  using assms get_set_live get_set_expired get_set_other
  by (cases "env_fail env (rc_writes c)") (auto simp: cache_write_def redis_Set_def Let_def)

lemma log_read:
  assumes "0 < expiry_millis ttl" "\<And>i. i < length log \<Longrightarrow> env_now env (rc_writes c + i) \<le> t"
  shows "kv_get (rc_store (foldl (cache_write kv_set env ttl) c log)) t key =
    (case directory env (rc_writes c) log key of
       None \<Rightarrow> kv_get (rc_store c) t key
     | Some (written, u) \<Rightarrow>
         if t < written + expiry_millis ttl * nanos_per_milli then Some (marshal_model (user_identity u)) else None)"
  using assms(2)
proof (induction log arbitrary: c)
  case (Cons x log)
  obtain k u where x: "x = (k, u)" by (cases x)
  let ?c = "cache_write kv_set env ttl c (k, u)"
  have now: "env_now env (rc_writes c) \<le> t" using Cons.prems [of 0] by simp
  have "env_now env (rc_writes ?c + i) \<le> t" if "i < length log" for i
    using Cons.prems [of "Suc i"] that by simp
  from Cons.IH [OF this] write_read [OF assms(1) now, of k u key] show ?case
    by (auto simp: x split: option.splits)
qed simp

end

section \<open>Properties\<close>

lemma log_answer:
  assumes "kv_store kv_get kv_set" "0 \<le> i" "\<And>j. j < length log \<Longrightarrow> env_now env (rc_writes c + j) \<le> t"
  shows "redis_Authenticate cr (redis_Get kv_get None
      (rc_store (foldl (cache_write kv_set env (i + 5 * second)) c log)) t) meta pubKey =
    directory_answer i t (directory env (rc_writes c) log (ComputeKey cr pubKey))
      (redis_Authenticate cr (redis_Get kv_get None (rc_store c) t) meta pubKey)"
proof -
  have ic: "identity_cache kv_get kv_set" using assms(1) by (simp add: identity_cache_def)
  show ?thesis
    using identity_cache.log_read [OF ic expiry_millis_sync [OF assms(2)] assms(3), where key = "ComputeKey cr pubKey"]
    by (auto simp: directory_answer_def redis_Authenticate_missing redis_Authenticate_def redis_Get_def unmarshal_model
        user_identity_def redis_Nil_def split: option.split)
qed

lemma sync_answer:
  assumes "kv_store kv_get kv_set" "0 \<le> ps_interval w"
    and "\<And>i. i < length (loop_log cr es) \<Longrightarrow> env_now env (rc_writes c + i) \<le> t"
    and "periodic_loop cr kv_set env es w c = (r, w', c')"
  shows "redis_Authenticate cr (redis_Get kv_get None (rc_store c') t) meta pubKey =
    directory_answer (ps_interval w) t (directory env (rc_writes c) (loop_log cr es) (ComputeKey cr pubKey))
      (redis_Authenticate cr (redis_Get kv_get None (rc_store c) t) meta pubKey)"
  using log_answer [OF assms(1-3), where log = "loop_log cr es"] cache_after_all [OF assms(4)]
  by (simp add: cache_after_def)

text \<open>A key that authenticates after some of the writes, and was not cached before them, has a fresh entry.\<close>

lemma authenticated_entry:
  assumes "kv_store kv_get kv_set" "0 \<le> ps_interval w" "\<And>i. i < k \<Longrightarrow> env_now env (rc_writes c + i) \<le> t"
    and "kv_get (rc_store c) t (ComputeKey cr key) = None"
    and "redis_Authenticate cr (redis_Get kv_get down (rc_store (cache_after cr kv_set env es w c k)) t) meta key = Inr x"
  shows "\<exists>docs written u. Tick (Inr docs) \<in> set es \<and> Inr u \<in> set docs \<and> lists_key cr u (ComputeKey cr key)
    \<and> directory env (rc_writes c) (take k (loop_log cr es)) (ComputeKey cr key) = Some (written, u)
    \<and> t < written + expiry_millis (ps_interval w + 5 * second) * nanos_per_milli
    \<and> x = Some (no_identity\<lparr>UserID := to_valid (u_ID u)\<rparr>)"
proof -
  have down: "down = None"
    using assms(5) by (auto simp: redis_Authenticate_def redis_Get_def split: option.splits if_splits)
  have "redis_Authenticate cr (redis_Get kv_get None (rc_store c) t) meta key = Inl (Dynamic ''identity not found'')"
    using assms(4) by (rule redis_Authenticate_missing [where kv_get = kv_get])
  with log_answer [OF assms(1,2), of "take k (loop_log cr es)" env c t cr meta key] assms(3,5) down obtain written u where
    d: "directory env (rc_writes c) (take k (loop_log cr es)) (ComputeKey cr key) = Some (written, u)"
      "t < written + expiry_millis (ps_interval w + 5 * second) * nanos_per_milli"
      "x = Some (no_identity\<lparr>UserID := to_valid (u_ID u)\<rparr>)"
    by (auto simp: directory_answer_def cache_after_def split: option.splits if_splits)
  have "(ComputeKey cr key, u) \<in> set (loop_log cr es)"
    using directory_entry [OF d(1), THEN conjunct1] by (rule in_set_takeD)
  from loop_log_lists [OF this] d show ?thesis by blast
qed

text \<open>C11. The worker and the cache implement the directory: after any run of the worker, over any number
  of passes, with documents that cannot be decoded, keys that cannot be parsed and writes that fail, a
  key authenticates exactly as the user of the document in the last write of it that succeeded, while
  that write is younger than the interval and five seconds; an older one is unknown; and a key that was
  never written is answered as before the run. So a key that leaves the collection stops working.\<close>

theorem sync_directory:
  assumes "kv_store kv_get kv_set" "0 \<le> ps_interval w"
    and "\<And>i. i < length (loop_log cr es) \<Longrightarrow> env_now env (rc_writes c + i) \<le> t"
    and "periodic_loop cr kv_set env es w c = (r, w', c')"
  shows "redis_Authenticate cr (redis_Get kv_get None (rc_store c') t) meta pubKey =
    directory_answer (ps_interval w) t (directory env (rc_writes c) (loop_log cr es) (ComputeKey cr pubKey))
      (redis_Authenticate cr (redis_Get kv_get None (rc_store c) t) meta pubKey)"
  using assms by (rule sync_answer)

text \<open>Ann's key is in the first of two passes only; the clock stands at 0 while they run.\<close>

definition two_passes :: "sync_event list" where
  "two_passes = [Tick (Inr [Inl (Dynamic ''decode''), Inr ann]), Tick (Inr [])]"

definition ann_log :: "(string \<times> user_doc) list" where
  "ann_log = [(ComputeKey plain_crypto [7], ann)]"

lemma two_passes_log: "loop_log plain_crypto two_passes = ann_log"
  by (simp add: two_passes_def ann_log_def keys_log_def ann_def NormalizePublicKey_def plain_crypto_def map_filter_simps)

lemma two_passes_answer:
  assumes "periodic_loop plain_crypto ref_set still_env two_passes (newPeriodicSyncer (5 * second)) empty_conn = (r, w', c')"
  shows "directory still_env (rc_writes empty_conn) (loop_log plain_crypto two_passes) (ComputeKey plain_crypto [7]) = Some (0, ann)"
    and "0 \<le> t \<Longrightarrow> redis_Authenticate plain_crypto (redis_Get ref_get None (rc_store c') t) meta [7] =
      (if t < 10000000000 then Inr (Some (no_identity\<lparr>UserID := ''ann-id''\<rparr>)) else Inl (Dynamic ''identity not found''))"
proof -
  let ?w = "newPeriodicSyncer (5 * second)"
  show d: "directory still_env (rc_writes empty_conn) (loop_log plain_crypto two_passes) (ComputeKey plain_crypto [7]) = Some (0, ann)"
    unfolding two_passes_log by (simp add: ann_log_def still_env_def)
  have i: "0 \<le> ps_interval ?w" by (simp add: newPeriodicSyncer_def second_def)
  show "0 \<le> t \<Longrightarrow> redis_Authenticate plain_crypto (redis_Get ref_get None (rc_store c') t) meta [7] =
      (if t < 10000000000 then Inr (Some (no_identity\<lparr>UserID := ''ann-id''\<rparr>)) else Inl (Dynamic ''identity not found''))"
    using sync_answer [OF ref.kv_store_axioms i _ assms, of t meta "[7]"] five_second_sync d
    by (simp add: directory_answer_def still_env_def nanos_per_milli_def ann_def)
qed

theorem sync_directory_witness:
  "\<exists>r w' c'. periodic_loop plain_crypto ref_set still_env two_passes (newPeriodicSyncer (5 * second)) empty_conn = (r, w', c')
    \<and> redis_Authenticate plain_crypto (redis_Get ref_get None (rc_store c') 9999999999)
        \<lparr>cm_Deployment = [], cm_RemoteAddr = []\<rparr> [7] = Inr (Some (no_identity\<lparr>UserID := ''ann-id''\<rparr>))
    \<and> redis_Authenticate plain_crypto (redis_Get ref_get None (rc_store c') 10000000000)
        \<lparr>cm_Deployment = [], cm_RemoteAddr = []\<rparr> [7] = Inl (Dynamic ''identity not found'')"
proof -
  let ?w = "newPeriodicSyncer (5 * second)"
  obtain r w' c' where l: "periodic_loop plain_crypto ref_set still_env two_passes ?w empty_conn = (r, w', c')"
    by (metis surj_pair)
  have i: "0 \<le> ps_interval ?w" by (simp add: newPeriodicSyncer_def second_def)
  note answer = sync_directory [OF ref.kv_store_axioms i _ l, of _ "\<lparr>cm_Deployment = [], cm_RemoteAddr = []\<rparr>" "[7]"]
  with l answer [of 9999999999] answer [of 10000000000] five_second_sync two_passes_answer(1) [OF l] show ?thesis
    by (simp add: directory_answer_def still_env_def nanos_per_milli_def ann_def)
qed

end
