(* ===== verification/Gateway.thy ===== *)
theory Gateway
  imports Listen Client_Safety
begin

text \<open>
  The running gateway: \<open>ListenAndServe\<close> of \<open>internal/sshd/listen.go\<close> as a state machine, with the
  limiter, the tarpit and a \<open>Handle\<close> for every connection that is served, up to its login and from
  there on as the machine of theory \<open>Client_Conn\<close>. All of them are interleaved. Connections are
  numbered as they are accepted; \<open>gw_events\<close>, \<open>gw_fates\<close>, \<open>gw_ended\<close> and \<open>gw_done\<close> record what was
  accepted, what became of it, which \<open>Handle\<close>s have returned and with what; \<open>gw_logins\<close> has, for each
  login, when it was and what the client offered: its user name, its address and its key. The limiter, the answers the
  authenticator may give over time, the pods of the cluster, the namespace and the size of the tarpit are
  given. The tunnel gauges of a client count its own part of the gauges of the process.
\<close>

record offer =
  of_user :: string
  of_addr :: string
  of_key :: bytes

record 's gateway =
  gw_limiter :: 's
  gw_tarpit :: tarpit
  gw_next :: nat
  gw_events :: "(int \<times> accept) list"
  gw_fates :: "outcome list"
  gw_handshake :: "conn list"
  gw_clients :: "(conn \<times> identity \<times> client) list"
  gw_logins :: "(conn \<times> int \<times> offer) list"
  gw_ended :: "conn list"
  gw_done :: "completion list"
  gw_counters :: auth_counters
  gw_ctx :: "gerror option"
  gw_accepting :: bool
  gw_over :: "gerror option option"

definition gateway_start :: "'s \<Rightarrow> int \<Rightarrow> 's gateway" where
  "gateway_start l0 now =
     \<lparr>gw_limiter = l0, gw_tarpit = NewTarpit now, gw_next = 0, gw_events = [], gw_fates = [], gw_handshake = [],
      gw_clients = [], gw_logins = [], gw_ended = [], gw_done = [], gw_counters = \<lparr>PodshFailedAuth = 0, PodshSuccessfulAuth = 0\<rparr>,
      gw_ctx = None, gw_accepting = True, gw_over = None\<rparr>"

text \<open>One connection accepted, with the answer of the hasher.\<close>

definition gw_accept :: "'s allow_fun option \<Rightarrow> string option \<Rightarrow> 's gateway \<Rightarrow> 's gateway" where
  "gw_accept rlim hashed g =
     (let c = gw_next g; now = clock (gw_tarpit g);
          (fate, lst, tp) = listen_conn rlim now c hashed (gw_limiter g, gw_tarpit g)
      in g\<lparr>gw_limiter := lst, gw_tarpit := tp, gw_next := Suc c, gw_events := gw_events g @ [(now, NewConn c hashed)],
           gw_fates := fate # gw_fates g,
           gw_handshake := (case fate of Served c' k \<Rightarrow> c' # gw_handshake g | _ \<Rightarrow> gw_handshake g)\<rparr>)"

definition gw_accept_error :: "gerror option \<Rightarrow> 's gateway \<Rightarrow> 's gateway" where
  "gw_accept_error err g =
     (let g' = g\<lparr>gw_events := gw_events g @ [(clock (gw_tarpit g), AcceptError err)]\<rparr>
      in case err of None \<Rightarrow> g' | Some e \<Rightarrow> g'\<lparr>gw_accepting := False, gw_done := gw_done g @ [AcceptDone err]\<rparr>)"

text \<open>A client that starts under a context which has ended already.\<close>

definition new_client :: "gerror option \<Rightarrow> client" where
  "new_client ctx =
     (case ctx of None \<Rightarrow> client_start no_tunnels | Some e \<Rightarrow> cancel_all e (client_start no_tunnels))"

text \<open>
  The login of one connection, with what the client offered: its \<open>Handle\<close> goes on, or returns with the
  error.
\<close>

definition gw_login ::
    "conn \<Rightarrow> gerror option \<Rightarrow> offer \<Rightarrow> gerror + extensions option \<Rightarrow> 's gateway \<Rightarrow> 's gateway" where
  "gw_login c deadline_err off server_conn g =
     (let (r, m) = login deadline_err server_conn (gw_counters g);
          g' = g\<lparr>gw_handshake := remove1 c (gw_handshake g), gw_counters := m\<rparr>
      in case r of
           Inl err \<Rightarrow> g'\<lparr>gw_ended := c # gw_ended g, gw_done := gw_done g @ [HandleDone (Some err)]\<rparr>
         | Inr ident \<Rightarrow>
             g'\<lparr>gw_clients := (c, ident, new_client (gw_ctx g)) # gw_clients g,
                gw_logins := (c, clock (gw_tarpit g), off) # gw_logins g\<rparr>)"

definition gw_client_ends :: "conn \<times> identity \<times> client \<Rightarrow> gerror option \<Rightarrow> 's gateway \<Rightarrow> 's gateway" where
  "gw_client_ends cl e g =
     g\<lparr>gw_clients := remove1 cl (gw_clients g), gw_ended := fst cl # gw_ended g, gw_done := gw_done g @ [HandleDone e]\<rparr>"

definition gw_cancel :: "gerror \<Rightarrow> 's gateway \<Rightarrow> 's gateway" where
  "gw_cancel e g =
     g\<lparr>gw_ctx := Some e, gw_tarpit := (gw_tarpit g)\<lparr>cancelled := True\<rparr>,
       gw_clients := map (\<lambda>(c, ident, s). (c, ident, cancel_all e s)) (gw_clients g)\<rparr>"

text \<open>\<open>eg.Wait\<close>, once no goroutine of the group is left.\<close>

definition gw_return :: "'s gateway \<Rightarrow> 's gateway" where
  "gw_return g = g\<lparr>gw_over := Some (sshd_ListenAndServe None (gw_done g))\<rparr>"

text \<open>
  The permissions of a connection are those the public key callback returned for the user name, the
  address and the key of the client: \<open>ssh.NewServerConn\<close> keeps the permissions of the key whose
  possession the client has proved, and of no other that it may have asked about before.
\<close>

definition granted_by :: "authenticator set \<Rightarrow> offer \<Rightarrow> extensions option \<Rightarrow> bool" where
  "granted_by auths off perms \<longleftrightarrow>
     (\<exists>auth \<in> auths. \<exists>ps. perms = Some ps
        \<and> publicKeyCallback (Some auth) (of_user off) (of_addr off) (of_key off) = Ret (Inr ps))"

definition gw_live :: "'s gateway \<Rightarrow> bool" where
  "gw_live g \<longleftrightarrow> gw_over g = None \<and> (\<forall>(c, ident, s) \<in> set (gw_clients g). client_live s)"

inductive gw_act ::
    "'s allow_fun option \<Rightarrow> (int \<Rightarrow> authenticator set) \<Rightarrow> pod set \<Rightarrow> string \<Rightarrow> nat \<Rightarrow> 's gateway \<Rightarrow> 's gateway \<Rightarrow> bool"
  for rlim :: "'s allow_fun option" and auths :: "int \<Rightarrow> authenticator set" and cps :: "pod set" and ns :: string and n :: nat where
  accept: "gw_accepting g \<Longrightarrow> gw_act rlim auths cps ns n g (gw_accept rlim hashed g)"
| accept_error: "gw_accepting g \<Longrightarrow> gw_act rlim auths cps ns n g (gw_accept_error (gw_ctx g) g)"
| login: "c \<in> set (gw_handshake g) \<Longrightarrow>
     (\<And>perms. server_conn = Inr perms \<Longrightarrow> granted_by (auths (clock (gw_tarpit g))) off perms) \<Longrightarrow>
     gw_act rlim auths cps ns n g (gw_login c deadline_err off server_conn g)"
| client: "i < length (gw_clients g) \<Longrightarrow> gw_clients g ! i = (c, ident, s) \<Longrightarrow> client_step cps ns ident s s' \<Longrightarrow>
     c_ctx s' = c_ctx s \<Longrightarrow> gw_act rlim auths cps ns n g (g\<lparr>gw_clients := (gw_clients g)[i := (c, ident, s')]\<rparr>)"
| client_ends: "(c, ident, s) \<in> set (gw_clients g) \<Longrightarrow> k_phase (c_conn s) = Over e \<Longrightarrow>
     gw_act rlim auths cps ns n g (gw_client_ends (c, ident, s) e g)"
| tarpit: "tarpit_step n (gw_tarpit g) tp \<Longrightarrow> added tp = added (gw_tarpit g) \<Longrightarrow>
     cancelled tp = cancelled (gw_tarpit g) \<Longrightarrow> gw_act rlim auths cps ns n g (g\<lparr>gw_tarpit := tp\<rparr>)"
| cancel: "gw_ctx g = None \<Longrightarrow> gw_act rlim auths cps ns n g (gw_cancel e g)"
| return: "\<not> gw_accepting g \<Longrightarrow> gw_handshake g = [] \<Longrightarrow> gw_clients g = [] \<Longrightarrow>
     gw_act rlim auths cps ns n g (gw_return g)"

definition gw_step ::
    "'s allow_fun option \<Rightarrow> (int \<Rightarrow> authenticator set) \<Rightarrow> pod set \<Rightarrow> string \<Rightarrow> nat \<Rightarrow> 's gateway \<Rightarrow> 's gateway \<Rightarrow> bool" where
  "gw_step rlim auths cps ns n g g' \<longleftrightarrow> gw_live g \<and> gw_act rlim auths cps ns n g g'"

definition gw_reach ::
    "'s allow_fun option \<Rightarrow> (int \<Rightarrow> authenticator set) \<Rightarrow> pod set \<Rightarrow> string \<Rightarrow> nat \<Rightarrow> 's \<Rightarrow> 's gateway \<Rightarrow> bool" where
  "gw_reach rlim auths cps ns n l0 =
     reach (\<lambda>g. \<exists>now. g = gateway_start l0 now) (gw_step rlim auths cps ns n)"

section \<open>The loop refines\<close>

lemma gw_start_sel [simp]:
  "gw_limiter (gateway_start l0 now) = l0" "gw_tarpit (gateway_start l0 now) = NewTarpit now"
  "gw_next (gateway_start l0 now) = 0" "gw_events (gateway_start l0 now) = []" "gw_fates (gateway_start l0 now) = []"
  "gw_handshake (gateway_start l0 now) = []" "gw_clients (gateway_start l0 now) = []" "gw_logins (gateway_start l0 now) = []"
  "gw_counters (gateway_start l0 now) = \<lparr>PodshFailedAuth = 0, PodshSuccessfulAuth = 0\<rparr>"
  "gw_ended (gateway_start l0 now) = []" "gw_done (gateway_start l0 now) = []" "gw_ctx (gateway_start l0 now) = None"
  "gw_accepting (gateway_start l0 now)" "gw_over (gateway_start l0 now) = None"
  by (simp_all add: gateway_start_def)

text \<open>The fate of a connection and the state of the limiter do not depend on the tarpit.\<close>

lemma listen_conn_tarpit:
  "fst (listen_conn rlim now c hashed (l, tp)) = fst (listen_conn rlim now c hashed (l, tp'))"
  "fst (snd (listen_conn rlim now c hashed (l, tp))) = fst (snd (listen_conn rlim now c hashed (l, tp')))"
  by (auto simp: listen_conn_def Let_def split: option.split prod.split)

lemma listen_conn_conn: "outcome_conn (fst (listen_conn rlim now c hashed st)) = c"
  by (auto simp: listen_conn_def Let_def split: option.split prod.split)

lemma listen_conn_step:
  obtains (same) "snd (snd (listen_conn rlim now c hashed (l, tp))) = tp"
      "\<And>c' d. fst (listen_conn rlim now c hashed (l, tp)) \<noteq> Tarpitted c' d"
  | (add) d where "fst (listen_conn rlim now c hashed (l, tp)) = Tarpitted c d" "0 < d"
      "snd (snd (listen_conn rlim now c hashed (l, tp))) = Add c d tp"
proof -
  let ?r = "listen_conn rlim now c hashed (l, tp)"
  have "(snd (snd ?r) = tp \<and> (\<forall>c' d. fst ?r \<noteq> Tarpitted c' d)) \<or> (\<exists>d. fst ?r = Tarpitted c d \<and> 0 < d \<and> snd (snd ?r) = Add c d tp)"
    by (auto simp: listen_conn_def Let_def split: option.split prod.split)
  then show thesis using that by blast
qed

lemma accept_loop_append:
  "accept_loop rlim (es @ fs) st =
     (let (os, r, st1) = accept_loop rlim es st; (os', r', st2) = accept_loop rlim fs st1
      in if r = None then (os @ os', r', st2) else (os, r, st1))"
  by (induction rlim es st rule: accept_loop.induct) (auto simp: Let_def split: prod.split)

text \<open>What the loop has done so far is the accept loop run on what it has accepted.\<close>

definition loop_ok :: "'s allow_fun option \<Rightarrow> 's \<Rightarrow> 's gateway \<Rightarrow> bool" where
  "loop_ok rlim l0 g \<longleftrightarrow>
     (\<forall>tp. \<exists>tp'. accept_loop rlim (gw_events g) (l0, tp) =
        (rev (gw_fates g), if gw_accepting g then None else gw_ctx g, gw_limiter g, tp'))
     \<and> (\<not> gw_accepting g \<longrightarrow> gw_ctx g \<noteq> None)"

lemma gw_accept_fields:
  "gw_limiter (gw_accept rlim hashed g)
     = fst (snd (listen_conn rlim (clock (gw_tarpit g)) (gw_next g) hashed (gw_limiter g, gw_tarpit g)))"
  "gw_tarpit (gw_accept rlim hashed g)
     = snd (snd (listen_conn rlim (clock (gw_tarpit g)) (gw_next g) hashed (gw_limiter g, gw_tarpit g)))"
  "gw_fates (gw_accept rlim hashed g)
     = fst (listen_conn rlim (clock (gw_tarpit g)) (gw_next g) hashed (gw_limiter g, gw_tarpit g)) # gw_fates g"
  "gw_events (gw_accept rlim hashed g) = gw_events g @ [(clock (gw_tarpit g), NewConn (gw_next g) hashed)]"
  "gw_next (gw_accept rlim hashed g) = Suc (gw_next g)" "gw_clients (gw_accept rlim hashed g) = gw_clients g"
  "gw_ended (gw_accept rlim hashed g) = gw_ended g" "gw_done (gw_accept rlim hashed g) = gw_done g"
  "gw_ctx (gw_accept rlim hashed g) = gw_ctx g" "gw_accepting (gw_accept rlim hashed g) = gw_accepting g"
  "gw_over (gw_accept rlim hashed g) = gw_over g" "gw_logins (gw_accept rlim hashed g) = gw_logins g"
  "gw_counters (gw_accept rlim hashed g) = gw_counters g"
  by (simp_all add: gw_accept_def Let_def split: prod.split)

lemma act_loop_ok:
  assumes "gw_act rlim auths cps ns n g g'" "loop_ok rlim l0 g"
  shows "loop_ok rlim l0 g'"
  using assms(1)
proof (cases rule: gw_act.cases)
  case (accept hashed)
  note f = gw_accept_fields [of rlim hashed g]
  have "\<exists>tp'. accept_loop rlim (gw_events g') (l0, tp) =
      (rev (gw_fates g'), if gw_accepting g' then None else gw_ctx g', gw_limiter g', tp')" for tp
  proof -
    obtain tp' where "accept_loop rlim (gw_events g) (l0, tp) = (rev (gw_fates g), None, gw_limiter g, tp')"
      using assms(2) accept(2) unfolding loop_ok_def by metis
    moreover obtain o1 l1 t1 where
      l: "listen_conn rlim (clock (gw_tarpit g)) (gw_next g) hashed (gw_limiter g, tp') = (o1, l1, t1)"
      by (metis surj_pair)
    moreover have "fst (listen_conn rlim (clock (gw_tarpit g)) (gw_next g) hashed (gw_limiter g, gw_tarpit g)) = o1"
      "fst (snd (listen_conn rlim (clock (gw_tarpit g)) (gw_next g) hashed (gw_limiter g, gw_tarpit g))) = l1"
      by (metis l listen_conn_tarpit(1) fst_conv, metis l listen_conn_tarpit(2) fst_conv snd_conv)
    ultimately show ?thesis using accept f by (simp add: accept_loop_append)
  qed
  with accept f show ?thesis by (simp add: loop_ok_def)
next
  case accept_error
  have "\<exists>tp'. accept_loop rlim (gw_events g') (l0, tp) =
      (rev (gw_fates g'), if gw_accepting g' then None else gw_ctx g', gw_limiter g', tp')" for tp
  proof -
    obtain tp' where "accept_loop rlim (gw_events g) (l0, tp) = (rev (gw_fates g), None, gw_limiter g, tp')"
      using assms(2) accept_error(2) unfolding loop_ok_def by metis
    then show ?thesis
      using accept_error by (simp add: accept_loop_append gw_accept_error_def Let_def split: option.split)
  qed
  moreover have "\<not> gw_accepting g' \<longrightarrow> gw_ctx g' \<noteq> None"
    using accept_error by (auto simp: gw_accept_error_def Let_def split: option.split)
  ultimately show ?thesis by (simp add: loop_ok_def)
next
  case cancel
  with assms(2) show ?thesis unfolding loop_ok_def gw_cancel_def by auto
qed (use assms(2) in \<open>auto simp: loop_ok_def gw_login_def gw_client_ends_def gw_return_def Let_def
    split: prod.split sum.split\<close>)

section \<open>Invariants\<close>

text \<open>Every connection accepted is in exactly one place.\<close>

definition closed_at_accept :: "outcome list \<Rightarrow> conn list" where
  "closed_at_accept os = concat (map (\<lambda>r. case r of ClosedNow c \<Rightarrow> [c] | _ \<Rightarrow> []) os)"

definition place_ok :: "'s gateway \<Rightarrow> bool" where
  "place_ok g \<longleftrightarrow>
     mset [0..<gw_next g] =
       mset (gw_handshake g) + mset (map fst (gw_clients g)) + mset (gw_ended g) + mset (closed_at_accept (gw_fates g))
       + mset (map fst (added (gw_tarpit g)))
     \<and> length (gw_ended g) = length (filter (\<lambda>d. \<exists>h. d = HandleDone h) (gw_done g))
     \<and> mset (map fst (gw_logins g)) \<subseteq># mset (map fst (gw_clients g)) + mset (gw_ended g)
     \<and> PodshSuccessfulAuth (gw_counters g) = length (gw_logins g)"

lemma added_Add [simp]: "added (Add c d t) = (c, clock t, d) # added t"
  by (simp add: Add_def close_conn_def Let_def)

lemma cancelled_Add [simp]: "cancelled (Add c d t) = cancelled t"
  by (simp add: Add_def close_conn_def Let_def)

lemma mset_remove1_fst: "x \<in> set xs \<Longrightarrow> mset (map fst xs) = add_mset (fst x) (mset (map fst (remove1 x xs)))"
  by (metis image_mset_add_mset insert_DiffM mset_map mset_remove1 set_mset_mset)

lemma sub_add_mset: "A \<subseteq># B \<Longrightarrow> A \<subseteq># add_mset x B"
  by (metis add_mset_add_single mset_subset_eq_add_left subset_mset.order_trans)

lemma mset_upt_Suc: "mset [0..<Suc n] = add_mset n (mset [0..<n])"
  by simp

lemma act_place_ok:
  assumes "gw_act rlim auths cps ns n g g'" "place_ok g"
  shows "place_ok g'"
  using assms(1)
proof (cases rule: gw_act.cases)
  case (accept hashed)
  note f = gw_accept_fields [of rlim hashed g]
  let ?r = "listen_conn rlim (clock (gw_tarpit g)) (gw_next g) hashed (gw_limiter g, gw_tarpit g)"
  have h: "gw_handshake g' = (case fst ?r of Served c k \<Rightarrow> c # gw_handshake g | _ \<Rightarrow> gw_handshake g)"
    using accept by (simp add: gw_accept_def Let_def split: prod.split)
  have c: "outcome_conn (fst ?r) = gw_next g" by (rule listen_conn_conn)
  show ?thesis
  proof (cases rule: listen_conn_step [of rlim "clock (gw_tarpit g)" "gw_next g" hashed "gw_limiter g" "gw_tarpit g"])
    case same
    have t: "gw_tarpit g' = gw_tarpit g" "gw_fates g' = fst ?r # gw_fates g" using f accept(1) same(1) by simp_all
    note frame = accept(1) f(5-8,11-) t h mset_upt_Suc
    show ?thesis
    proof (cases "fst ?r")
      case (Served c' k)
      with c frame assms(2) show ?thesis by (simp add: place_ok_def closed_at_accept_def del: mset_upt upt_Suc)
    next
      case (ClosedNow c')
      with c frame assms(2) show ?thesis by (simp add: place_ok_def closed_at_accept_def del: mset_upt upt_Suc)
    qed (use same(2) in blast)
  next
    case (add d)
    have "gw_handshake g' = gw_handshake g" "closed_at_accept (gw_fates g') = closed_at_accept (gw_fates g)"
      "added (gw_tarpit g') = (gw_next g, clock (gw_tarpit g), d) # added (gw_tarpit g)"
      using h f accept(1) add by (simp_all add: closed_at_accept_def)
    with accept(1) f(5-8,11-) assms(2) show ?thesis by (simp add: place_ok_def mset_upt_Suc del: mset_upt upt_Suc)
  qed
next
  case (login c server_conn off deadline_err)
  obtain r m where r: "login deadline_err server_conn (gw_counters g) = (r, m)" by (metis surj_pair)
  define hs where "hs = remove1 c (gw_handshake g)"
  have "mset (gw_handshake g) = add_mset c (mset hs)" using login(2) by (simp add: hs_def)
  moreover have "PodshSuccessfulAuth m = (case r of Inl err \<Rightarrow> 0 | Inr ident \<Rightarrow> 1) + PodshSuccessfulAuth (gw_counters g)"
    using r by (auto simp: login_def Let_def split: option.splits sum.splits if_splits)
  ultimately show ?thesis using login(1) r assms(2)
    by (cases r) (auto simp: place_ok_def gw_login_def Let_def sub_add_mset simp flip: hs_def)
next
  case (client i c ident s s')
  then have "map fst ((gw_clients g)[i := (c, ident, s')]) = map fst (gw_clients g)"
    by (metis fst_conv list_update_id map_update nth_map)
  with client assms(2) show ?thesis by (simp add: place_ok_def)
next
  case (client_ends c ident s e)
  define cls where "cls = remove1 (c, ident, s) (gw_clients g)"
  have "mset (map fst (gw_clients g)) = add_mset c (mset (map fst cls))"
    using mset_remove1_fst [OF client_ends(2)] by (simp add: cls_def)
  with client_ends(1) assms(2) show ?thesis
    by (simp add: place_ok_def gw_client_ends_def flip: cls_def)
qed (use assms(2) in \<open>auto simp: place_ok_def gw_accept_error_def gw_cancel_def gw_return_def Let_def
    case_prod_unfold comp_def split: option.split\<close>)

lemma sub_upt_distinct:
  assumes "mset xs \<subseteq># mset [0..<n]"
  shows "distinct xs"
proof -
  have "count (mset xs) a \<le> 1" for a
  proof -
    have "count (mset [0..<n]) a \<le> 1" by (simp add: count_mset_set' del: mset_upt) (simp add: count_mset_set')
    with mset_subset_eq_count [OF assms, of a] show ?thesis by (rule order_trans)
  qed
  then show ?thesis unfolding distinct_count_atmost_1
    by (metis One_nat_def Suc_leI count_eq_zero_iff le_antisym not_gr_zero set_mset_mset)
qed

text \<open>What has been returned so far, and by \<open>ListenAndServe\<close>.\<close>

definition handles_only :: "completion list \<Rightarrow> bool" where
  "handles_only ds \<longleftrightarrow> list_all (\<lambda>d. \<exists>h. d = HandleDone h) ds"

lemma handles_only_simps [simp]:
  "handles_only []" "handles_only (ds @ [HandleDone h]) \<longleftrightarrow> handles_only ds"
  by (auto simp: handles_only_def)

lemma handles_only_map: "handles_only ds \<Longrightarrow> \<exists>hs. ds = map HandleDone hs"
proof (induction ds)
  case (Cons d ds)
  then obtain h hs where "d = HandleDone h" "ds = map HandleDone hs" by (auto simp: handles_only_def)
  then show ?case by (intro exI [of _ "h # hs"]) simp
qed simp

definition done_ok :: "'s gateway \<Rightarrow> bool" where
  "done_ok g \<longleftrightarrow>
     (if gw_accepting g then handles_only (gw_done g)
      else \<exists>ds e ds'. gw_ctx g = Some e \<and> gw_done g = ds @ AcceptDone (Some e) # ds' \<and> handles_only ds \<and> handles_only ds')
     \<and> (\<forall>r. gw_over g = Some r \<longrightarrow> \<not> gw_accepting g \<and> gw_handshake g = [] \<and> gw_clients g = []
          \<and> r = sshd_ListenAndServe None (gw_done g))"

lemma done_ok_left:
  assumes "gw_done g = ds @ AcceptDone (Some e) # ds'" "gw_ctx g = Some e" "handles_only ds" "handles_only ds'"
    "\<not> gw_accepting g" "gw_over g = None"
  shows "done_ok g"
proof -
  have "\<exists>ds e ds'. gw_ctx g = Some e \<and> gw_done g = ds @ AcceptDone (Some e) # ds' \<and> handles_only ds \<and> handles_only ds'"
    using assms by blast
  with assms(5,6) show ?thesis by (simp add: done_ok_def)
qed

lemma done_ok_HandleDone:
  assumes "done_ok g" "gw_done g' = gw_done g @ [HandleDone h]" "gw_accepting g' = gw_accepting g"
    "gw_ctx g' = gw_ctx g" "gw_over g' = None"
  shows "done_ok g'"
proof (cases "gw_accepting g")
  case True
  with assms show ?thesis by (simp add: done_ok_def)
next
  case False
  with assms(1) obtain ds e ds' where d: "gw_ctx g = Some e" "gw_done g = ds @ AcceptDone (Some e) # ds'"
    "handles_only ds" "handles_only ds'" by (auto simp: done_ok_def)
  show ?thesis
    by (rule done_ok_left [of g' ds e "ds' @ [HandleDone h]"]) (use d False assms in simp_all)
qed

lemma act_done_ok:
  assumes "gw_act rlim auths cps ns n g g'" "gw_over g = None" "done_ok g"
  shows "done_ok g'"
  using assms(1)
proof (cases rule: gw_act.cases)
  case (accept hashed)
  with assms gw_accept_fields [of rlim hashed g] show ?thesis by (simp add: done_ok_def)
next
  case accept_error
  show ?thesis
  proof (cases "gw_ctx g")
    case (Some e)
    show ?thesis
      by (rule done_ok_left [of g' "gw_done g" e "[]"])
         (use Some accept_error assms(2,3) in \<open>simp_all add: gw_accept_error_def done_ok_def\<close>)
  qed (use accept_error assms(2,3) in \<open>simp add: done_ok_def gw_accept_error_def\<close>)
next
  case (login c server_conn off deadline_err)
  show ?thesis
  proof (cases "fst (login deadline_err server_conn (gw_counters g))")
    case (Inl err)
    with login assms show ?thesis
      by (intro done_ok_HandleDone [OF assms(3)]) (auto simp: gw_login_def Let_def split: prod.split)
  next
    case (Inr ident)
    with login assms show ?thesis by (auto simp: gw_login_def done_ok_def Let_def split: prod.split)
  qed
next
  case (client_ends c ident s e)
  with assms show ?thesis by (intro done_ok_HandleDone [OF assms(3)]) (simp_all add: gw_client_ends_def)
next
  case cancel
  with assms show ?thesis by (auto simp: done_ok_def gw_cancel_def)
qed (use assms(2,3) in \<open>auto simp: done_ok_def gw_return_def\<close>)

text \<open>The tarpit and the clients are in states of their own machines; a client is who it logged in as.\<close>

definition logged_in :: "authenticator set \<Rightarrow> offer \<Rightarrow> identity \<Rightarrow> bool" where
  "logged_in auths off ident \<longleftrightarrow>
     (\<exists>auth \<in> auths. \<exists>x. auth \<lparr>cm_Deployment = of_user off, cm_RemoteAddr = of_addr off\<rparr> (of_key off) = Inr (Some x)
        \<and> (metadata_ok (Metadata x) \<longrightarrow> ident = (identity_valid x)\<lparr>RequestedHostname := of_user off\<rparr>))"

definition parts_ok :: "(int \<Rightarrow> authenticator set) \<Rightarrow> pod set \<Rightarrow> string \<Rightarrow> nat \<Rightarrow> 's gateway \<Rightarrow> bool" where
  "parts_ok auths cps ns n g \<longleftrightarrow>
     tarpit_reach n (gw_tarpit g) \<and> (cancelled (gw_tarpit g) \<longleftrightarrow> gw_ctx g \<noteq> None)
     \<and> (\<forall>(c, ident, s) \<in> set (gw_clients g).
          client_reach cps ns ident no_tunnels s \<and> c_ctx s = gw_ctx g
          \<and> (\<exists>t off. (c, t, off) \<in> set (gw_logins g) \<and> logged_in (auths t) off ident))"

lemma login_logged_in:
  assumes "login deadline_err server_conn m = (Inr ident, m')"
    and "\<And>perms. server_conn = Inr perms \<Longrightarrow> granted_by auths off perms"
  shows "logged_in auths off ident"
proof -
  obtain perms where s: "deadline_err = None" "server_conn = Inr perms"
    using assms(1) by (auto simp: login_def split: option.splits sum.splits)
  from assms(2) [OF s(2)] obtain auth ps where p: "auth \<in> auths" "perms = Some ps"
    "publicKeyCallback (Some auth) (of_user off) (of_addr off) (of_key off) = Ret (Inr ps)" by (auto simp: granted_by_def)
  then obtain x where x: "auth \<lparr>cm_Deployment = of_user off, cm_RemoteAddr = of_addr off\<rparr> (of_key off) = Inr (Some x)"
    by (auto simp: publicKeyCallback_def split: sum.splits option.splits)
  have "ident = (identity_valid x)\<lparr>RequestedHostname := of_user off\<rparr>" if "metadata_ok (Metadata x)"
    using login_accepted [OF p(3) x that, of m] assms(1) s p(2) by (auto split: if_splits)
  with p(1) x show ?thesis unfolding logged_in_def by blast
qed

lemma new_client_reach: "client_reach cps ns ident no_tunnels (new_client ctx) \<and> c_ctx (new_client ctx) = ctx"
proof (cases ctx)
  case None
  then show ?thesis by (simp add: new_client_def client_reach_start) (simp add: client_start_def)
next
  case (Some e)
  have "client_step cps ns ident (client_start no_tunnels) (cancel_all e (client_start no_tunnels))"
    by (simp add: client_step_def client_live_def client_start_def conn_start_def client_act.cancel)
  with Some client_reach_start client_reach_step show ?thesis
    by (simp add: new_client_def cancel_all_def) blast
qed

lemma act_parts_ok:
  assumes "gw_act rlim auths cps ns n g g'" "gw_live g" "parts_ok auths cps ns n g"
  shows "parts_ok auths cps ns n g'"
  using assms(1)
proof (cases rule: gw_act.cases)
  case (accept hashed)
  note f = gw_accept_fields [of rlim hashed g]
  have "tarpit_reach n (gw_tarpit g') \<and> cancelled (gw_tarpit g') = cancelled (gw_tarpit g)"
    using assms(3) accept f tarpit_reach_next [OF _ tarpit_step.add] cancelled_Add
    by (cases rule: listen_conn_step [of rlim "clock (gw_tarpit g)" "gw_next g" hashed "gw_limiter g" "gw_tarpit g"])
       (simp_all add: parts_ok_def)
  with accept f assms(3) show ?thesis by (simp add: parts_ok_def)
next
  case (login c server_conn off deadline_err)
  obtain r m where r: "login deadline_err server_conn (gw_counters g) = (r, m)" by (metis surj_pair)
  show ?thesis
  proof (cases r)
    case (Inl err)
    with login r assms(3) show ?thesis by (simp add: parts_ok_def gw_login_def)
  next
    case (Inr ident)
    have "logged_in (auths (clock (gw_tarpit g))) off ident" by (rule login_logged_in [OF r [unfolded Inr] login(3)])
    with login r Inr assms(3) new_client_reach show ?thesis
      by (fastforce simp: parts_ok_def gw_login_def)
  qed
next
  case (client i c ident s s')
  then have "(c, ident, s) \<in> set (gw_clients g)" by (metis nth_mem)
  with assms(3) have "client_reach cps ns ident no_tunnels s" "c_ctx s = gw_ctx g" "\<exists>t off. (c, t, off) \<in> set (gw_logins g) \<and> logged_in (auths t) off ident"
    by (auto simp: parts_ok_def)
  with client have "case (c, ident, s') of (c, ident, s) \<Rightarrow>
      client_reach cps ns ident no_tunnels s \<and> c_ctx s = gw_ctx g
        \<and> (\<exists>t off. (c, t, off) \<in> set (gw_logins g) \<and> logged_in (auths t) off ident)"
    using client_reach_step by auto
  then have "\<forall>x \<in> set ((gw_clients g)[i := (c, ident, s')]). case x of (c, ident, s) \<Rightarrow>
      client_reach cps ns ident no_tunnels s \<and> c_ctx s = gw_ctx g
        \<and> (\<exists>t off. (c, t, off) \<in> set (gw_logins g) \<and> logged_in (auths t) off ident)"
    using assms(3) by (intro all_update) (simp_all add: parts_ok_def)
  with client(1) assms(3) show ?thesis by (simp add: parts_ok_def)
next
  case (client_ends c ident s e)
  with assms(3) show ?thesis
    by (auto simp: parts_ok_def gw_client_ends_def dest: set_remove1_subset [THEN subsetD])
next
  case (tarpit tp)
  with assms(3) tarpit_reach_next show ?thesis by (auto simp: parts_ok_def)
next
  case (cancel e)
  have "client_reach cps ns ident no_tunnels (cancel_all e s) \<and> c_ctx (cancel_all e s) = Some e"
    if "client_reach cps ns ident no_tunnels s" "c_ctx s = None" "client_live s" for ident s
    using that client_reach_step [OF that(1)] client_act.cancel [OF that(2)]
    by (simp add: client_step_def) (simp add: cancel_all_def)
  moreover have "tarpit_reach n ((gw_tarpit g)\<lparr>cancelled := True\<rparr>)"
    using assms(3) tarpit_reach_next [OF _ tarpit_step.cancel] by (simp add: parts_ok_def)
  ultimately show ?thesis using cancel assms(2,3)
    by (fastforce simp: parts_ok_def gw_cancel_def gw_live_def)
qed (use assms(3) in \<open>auto simp: parts_ok_def gw_accept_error_def gw_return_def Let_def split: option.split\<close>)

lemma gw_reach_inv:
  assumes "gw_reach rlim auths cps ns n l0 g"
  shows "loop_ok rlim l0 g" "place_ok g" "done_ok g" "parts_ok auths cps ns n g"
proof -
  have "loop_ok rlim l0 g \<and> place_ok g \<and> done_ok g \<and> parts_ok auths cps ns n g"
    using assms unfolding gw_reach_def
  proof (induction rule: reach_invariant)
    case (init g)
    then show ?case
      by (auto simp: loop_ok_def place_ok_def done_ok_def parts_ok_def closed_at_accept_def tarpit_reach_new)
         (simp_all add: NewTarpit_def)
  next
    case (step g g')
    then have act: "gw_act rlim auths cps ns n g g'" "gw_live g" "gw_over g = None"
      by (simp_all add: gw_step_def gw_live_def)
    from step have "loop_ok rlim l0 g \<and> place_ok g \<and> done_ok g \<and> parts_ok auths cps ns n g" by simp
    with act_loop_ok [OF act(1)] act_place_ok [OF act(1)] act_done_ok [OF act(1,3)] act_parts_ok [OF act(1,2)]
    show ?case by blast
  qed
  then show "loop_ok rlim l0 g" "place_ok g" "done_ok g" "parts_ok auths cps ns n g" by simp_all
qed

lemma gw_reach_step: "gw_reach rlim auths cps ns n l0 g \<Longrightarrow> gw_step rlim auths cps ns n g g' \<Longrightarrow> gw_reach rlim auths cps ns n l0 g'"
  unfolding gw_reach_def by (rule reach_step)

text \<open>Whatever one client can do by itself, it can do in the gateway.\<close>

lemma client_act_ctx:
  "client_act cps ns ident s s' \<Longrightarrow> c_ctx s' = c_ctx s \<or> (\<exists>e. c_ctx s = None \<and> s' = cancel_all e s)"
  by (erule client_act.cases)
     (auto simp: open_session_def open_direct_def enter_forward_def close_forwarded_def Let_def
       split: prod.splits sum.splits option.splits)

lemma client_lifts:
  assumes "gw_reach rlim auths cps ns n l0 g" "gw_clients g = [(c, ident, client_start no_tunnels)]"
    "gw_ctx g = None" "gw_over g = None" "client_reach cps ns ident no_tunnels s"
  obtains g' where "gw_reach rlim auths cps ns n l0 g'" "gw_clients g' = [(c, ident, s)]" "gw_ctx g' = c_ctx s"
    "gw_over g' = None" "(gw_step rlim auths cps ns n)\<^sup>*\<^sup>* g g'"
proof -
  have "\<exists>g'. gw_reach rlim auths cps ns n l0 g' \<and> gw_clients g' = [(c, ident, s)] \<and> gw_ctx g' = c_ctx s
      \<and> gw_over g' = None \<and> (gw_step rlim auths cps ns n)\<^sup>*\<^sup>* g g'"
    using assms(5) unfolding client_reach_def
  proof (induction rule: reach_invariant)
    case (init s)
    with assms(1-4) show ?case by (intro exI [of _ g]) (simp add: client_start_def)
  next
    case (step s s')
    then obtain g1 where g1: "gw_reach rlim auths cps ns n l0 g1" "gw_clients g1 = [(c, ident, s)]" "gw_ctx g1 = c_ctx s"
      "gw_over g1 = None" "(gw_step rlim auths cps ns n)\<^sup>*\<^sup>* g g1" by blast
    have act: "client_act cps ns ident s s'" "client_live s" using step by (simp_all add: client_step_def)
    have "\<exists>g2. gw_step rlim auths cps ns n g1 g2 \<and> gw_clients g2 = [(c, ident, s')] \<and> gw_ctx g2 = c_ctx s'
        \<and> gw_over g2 = None"
    proof (cases "c_ctx s' = c_ctx s")
      case True
      have "gw_act rlim auths cps ns n g1 (g1\<lparr>gw_clients := (gw_clients g1)[0 := (c, ident, s')]\<rparr>)"
        using g1 step True by (intro gw_act.client) simp_all
      with g1 act True show ?thesis by (intro exI [of _ "g1\<lparr>gw_clients := [(c, ident, s')]\<rparr>"]) (simp add: gw_step_def gw_live_def)
    next
      case False
      with client_act_ctx [OF act(1)] obtain e where e: "c_ctx s = None" "s' = cancel_all e s" by blast
      then have "gw_act rlim auths cps ns n g1 (gw_cancel e g1)" using g1 by (intro gw_act.cancel) simp
      with g1 act e show ?thesis
        by (intro exI [of _ "gw_cancel e g1"]) (simp add: gw_step_def gw_live_def gw_cancel_def cancel_all_def)
    qed
    with g1 show ?case by (meson gw_reach_step rtranclp.rtrancl_into_rtrancl)
  qed
  with that show thesis by blast
qed

text \<open>Instances: one client has logged in; and one has failed to, after which the server is stopped.\<close>

definition ann_auth :: authenticator where
  "ann_auth meta key = Inr (Some (no_identity\<lparr>UserID := ''ann-id''\<rparr>))"

lemma one_served:
  fixes l0 :: 's
  defines "g \<equiv> gw_accept None None (gateway_start l0 0)"
  shows "gw_reach None auths cps ns n l0 g" "gw_handshake g = [0]" "gw_clients g = []" "gw_ctx g = None" "gw_over g = None"
    "gw_accepting g" "gw_done g = []" "gw_next g = 1" "gw_fates g = [Served 0 None]" "gw_tarpit g = NewTarpit 0"
    "gw_counters g = \<lparr>PodshFailedAuth = 0, PodshSuccessfulAuth = 0\<rparr>" "gw_ended g = []"
proof -
  have "gw_step None auths cps ns n (gateway_start l0 0) g"
    unfolding gw_step_def g_def by (simp add: gw_live_def gw_act.accept)
  then show "gw_reach None auths cps ns n l0 g"
    by (rule gw_reach_step [rotated]) (auto simp: gw_reach_def intro: reach_init)
qed (simp_all add: g_def gw_accept_def Let_def listen_conn_def gateway_start_def NewTarpit_def)

lemma ann_gateway:
  assumes "auth \<in> auths 0" "\<And>meta. auth meta [7] = Inr (Some (no_identity\<lparr>UserID := ''ann-id''\<rparr>))"
  obtains g where "gw_reach None auths cps ns n l0 g" "gw_clients g = [(0, ann_web, client_start no_tunnels)]"
    "gw_ctx g = None" "gw_over g = None" "gw_next g = 1"
proof -
  let ?g = "gw_accept None None (gateway_start l0 0)"
  note g = one_served [where ?l0.0 = l0]
  obtain perms where p: "publicKeyCallback (Some auth) ''web'' ''10.0.0.1'' [7] = Ret (Inr perms)"
    using assms(2) by (simp add: publicKeyCallback_def Let_def)
  obtain m' where l: "login None (Inr (Some perms)) (gw_counters ?g) = (Inr ann_web, m')"
    using login_accepted [OF p assms(2), of "gw_counters ?g"]
    by (simp add: no_identity_def map_sorted_def metadata_ok_def identity_valid_def ann_web_def)
  let ?g' = "gw_login 0 None \<lparr>of_user = ''web'', of_addr = ''10.0.0.1'', of_key = [7]\<rparr> (Inr (Some perms)) ?g"
  have "gw_act None auths cps ns n ?g ?g'"
    by (rule gw_act.login) (use g p assms(1) in \<open>auto simp: granted_by_def NewTarpit_def\<close>)
  then have "gw_reach None auths cps ns n l0 ?g'"
    by (intro gw_reach_step [OF g(1)]) (simp add: gw_step_def gw_live_def g)
  moreover have "gw_clients ?g' = [(0, ann_web, client_start no_tunnels)]" "gw_ctx ?g' = None" "gw_over ?g' = None"
    "gw_next ?g' = 1"
    using l by (simp_all add: gw_login_def new_client_def Let_def g(2-8))
  ultimately show thesis by (rule that)
qed

definition EOF :: gerror where
  "EOF = Sentinel ''EOF''"

lemma one_refused:
  obtains g where "gw_reach None auths cps ns n l0 g" "gw_over g = Some (Some (Joined [EOF, ErrNotPermitted]))"
    "gw_ctx g = Some context_Canceled" "gw_next g = 1" "gw_ended g = [0]"
proof -
  note g = one_served [where ?l0.0 = l0]
  define g1 where "g1 = gw_accept None None (gateway_start l0 0)"
  define g2 where "g2 = gw_login 0 None \<lparr>of_user = [], of_addr = [], of_key = []\<rparr> (Inl EOF) g1"
  define g3 where "g3 = gw_cancel context_Canceled g2"
  define g4 where "g4 = gw_accept_error (gw_ctx g3) g3"
  note g1 = g [folded g1_def]
  have "gw_act None auths cps ns n g1 g2" unfolding g2_def by (rule gw_act.login) (simp_all add: g1)
  then have r2: "gw_reach None auths cps ns n l0 g2"
    by (intro gw_reach_step [OF g1(1)]) (simp add: gw_step_def gw_live_def g1)
  have g2: "gw_handshake g2 = []" "gw_clients g2 = []" "gw_ctx g2 = None" "gw_over g2 = None" "gw_accepting g2"
    "gw_done g2 = [HandleDone (Some (Joined [EOF, ErrNotPermitted]))]" "gw_next g2 = 1" "0 \<in> set (gw_ended g2)"
    by (simp_all add: g2_def gw_login_def login_def g1)
  have "gw_act None auths cps ns n g2 g3" unfolding g3_def by (rule gw_act.cancel) (rule g2)
  then have r3: "gw_reach None auths cps ns n l0 g3"
    by (intro gw_reach_step [OF r2]) (simp add: gw_step_def gw_live_def g2)
  have g3: "gw_handshake g3 = []" "gw_clients g3 = []" "gw_ctx g3 = Some context_Canceled" "gw_over g3 = None"
    "gw_accepting g3" "gw_done g3 = gw_done g2" by (simp_all add: g3_def gw_cancel_def g2)
  have "gw_act None auths cps ns n g3 g4" unfolding g4_def by (rule gw_act.accept_error) (rule g3)
  then have r4: "gw_reach None auths cps ns n l0 g4"
    by (intro gw_reach_step [OF r3]) (simp add: gw_step_def gw_live_def g3)
  have g4: "gw_handshake g4 = []" "gw_clients g4 = []" "gw_over g4 = None" "\<not> gw_accepting g4"
    "gw_done g4 = [HandleDone (Some (Joined [EOF, ErrNotPermitted])), AcceptDone (Some context_Canceled)]"
    by (simp_all add: g4_def gw_accept_error_def g3 g2)
  have "gw_act None auths cps ns n g4 (gw_return g4)" by (rule gw_act.return) (simp_all add: g4)
  then have "gw_reach None auths cps ns n l0 (gw_return g4)"
    by (intro gw_reach_step [OF r4]) (simp add: gw_step_def gw_live_def g4)
  moreover have "gw_over (gw_return g4) = Some (Some (Joined [EOF, ErrNotPermitted]))"
    by (simp add: gw_return_def sshd_ListenAndServe_def eg_wait_def completion_error_def opt_is_def
        context_Canceled_def ErrNotPermitted_def EOF_def g4)
  ultimately show thesis
    by (intro that [of "gw_return g4"])
       (simp_all add: gw_return_def g4_def gw_accept_error_def g3 g3_def gw_cancel_def g2 g2_def gw_login_def login_def g1)
qed

section \<open>A window of time\<close>

text \<open>What is accepted is accepted in the order of time.\<close>

lemma clock_Add [simp]: "clock (Add c d t) = clock t"
  by (simp add: Add_def close_conn_def Let_def)

lemma act_events:
  assumes "gw_act rlim auths cps ns n g g'"
  shows "\<exists>es. gw_events g' = gw_events g @ es \<and> sorted (clock (gw_tarpit g) # map fst es @ [clock (gw_tarpit g')])
    \<and> (\<not> gw_accepting g \<longrightarrow> es = [] \<and> gw_fates g' = gw_fates g \<and> \<not> gw_accepting g')"
  using assms
proof (cases rule: gw_act.cases)
  case (accept hashed)
  note f = gw_accept_fields [of rlim hashed g]
  have "clock (gw_tarpit g') = clock (gw_tarpit g)"
    using accept f
    by (cases rule: listen_conn_step [of rlim "clock (gw_tarpit g)" "gw_next g" hashed "gw_limiter g" "gw_tarpit g"]) simp_all
  with accept f show ?thesis by (intro exI [of _ "[(clock (gw_tarpit g), NewConn (gw_next g) hashed)]"]) simp
next
  case accept_error
  then show ?thesis
    by (intro exI [of _ "[(clock (gw_tarpit g), AcceptError (gw_ctx g))]"])
       (simp add: gw_accept_error_def Let_def split: option.split)
qed (auto simp: gw_login_def gw_client_ends_def gw_cancel_def gw_return_def Let_def dest: tarpit_step_mono
    split: prod.split sum.split)

lemma steps_events:
  assumes "(gw_step rlim auths cps ns n)\<^sup>*\<^sup>* g g'"
  shows "\<exists>es. gw_events g' = gw_events g @ es \<and> sorted (clock (gw_tarpit g) # map fst es @ [clock (gw_tarpit g')])
    \<and> (\<not> gw_accepting g \<longrightarrow> es = [] \<and> gw_fates g' = gw_fates g \<and> \<not> gw_accepting g')"
  using assms
proof (induction rule: rtranclp_induct)
  case (step u v)
  then obtain es where es: "gw_events u = gw_events g @ es" "sorted (clock (gw_tarpit g) # map fst es @ [clock (gw_tarpit u)])"
    "\<not> gw_accepting g \<longrightarrow> es = [] \<and> gw_fates u = gw_fates g \<and> \<not> gw_accepting u" by blast
  from step have "gw_act rlim auths cps ns n u v" by (simp add: gw_step_def)
  from act_events [OF this] obtain fs where fs: "gw_events v = gw_events u @ fs"
    "sorted (clock (gw_tarpit u) # map fst fs @ [clock (gw_tarpit v)])"
    "\<not> gw_accepting u \<longrightarrow> fs = [] \<and> gw_fates v = gw_fates u \<and> \<not> gw_accepting v" by blast
  have "sorted (clock (gw_tarpit g) # map fst (es @ fs) @ [clock (gw_tarpit v)])"
    using es(2) fs(2) by (fastforce simp: sorted_append)
  with es fs show ?case by (intro exI [of _ "es @ fs"]) auto
qed simp

lemma calls_of_sorted: "sorted (t0 # map fst es @ [t1]) \<Longrightarrow> calls_within t0 t1 (limiter_calls es)"
proof (induction es arbitrary: t0 rule: limiter_calls.induct)
  case (4 now c es)
  then show ?case by (cases es) auto
qed (auto simp: sorted_append)

text \<open>What is served in a window is what the accept loop serves on what comes in it.\<close>

lemma gw_window:
  assumes "(gw_step rlim auths cps ns n)\<^sup>*\<^sup>* (gateway_start l0 s0) g" "(gw_step rlim auths cps ns n)\<^sup>*\<^sup>* g g'"
  obtains es os r tp s' tp' r' where "accept_loop rlim (gw_events g) (l0, NewTarpit s0) = (rev (gw_fates g), r, gw_limiter g, tp)"
    "accept_loop rlim es (gw_limiter g, tp) = (os, r', s', tp')" "gw_fates g' = rev os @ gw_fates g"
    "calls_within s0 (clock (gw_tarpit g)) (limiter_calls (gw_events g))"
    "calls_within (clock (gw_tarpit g)) (clock (gw_tarpit g')) (limiter_calls es)"
proof -
  have start: "gw_reach rlim auths cps ns n l0 (gateway_start l0 s0)" by (auto simp: gw_reach_def intro: reach_init)
  then have g: "gw_reach rlim auths cps ns n l0 g" "gw_reach rlim auths cps ns n l0 g'"
    using assms unfolding gw_reach_def by (meson reach_steps)+
  obtain es where es: "gw_events g' = gw_events g @ es" "sorted (clock (gw_tarpit g) # map fst es @ [clock (gw_tarpit g')])"
    "\<not> gw_accepting g \<longrightarrow> es = [] \<and> gw_fates g' = gw_fates g" using steps_events [OF assms(2)] by blast
  have past: "calls_within s0 (clock (gw_tarpit g)) (limiter_calls (gw_events g))"
    using steps_events [OF assms(1)] by (intro calls_of_sorted) (auto simp: NewTarpit_def)
  obtain tp where l: "accept_loop rlim (gw_events g) (l0, NewTarpit s0)
      = (rev (gw_fates g), if gw_accepting g then None else gw_ctx g, gw_limiter g, tp)"
    using gw_reach_inv(1) [OF g(1)] unfolding loop_ok_def by metis
  obtain os r' s' tp' where e: "accept_loop rlim es (gw_limiter g, tp) = (os, r', s', tp')" by (metis surj_pair)
  have f: "gw_fates g' = rev os @ gw_fates g"
  proof (cases "gw_accepting g")
    case True
    obtain r2 s2 tp2 where "accept_loop rlim (gw_events g @ es) (l0, NewTarpit s0) = (rev (gw_fates g'), r2, s2, tp2)"
      using gw_reach_inv(1) [OF g(2)] es(1) unfolding loop_ok_def by metis
    with l e True have "rev (gw_fates g') = rev (gw_fates g) @ os" by (simp add: accept_loop_append)
    then show ?thesis by (metis rev_append rev_rev_ident)
  next
    case False
    with es(3) e show ?thesis by auto
  qed
  show thesis by (rule that [OF l e f past calls_of_sorted [OF es(2)]])
qed

section \<open>Properties\<close>

text \<open>The login of a client, found by its connection; and the pods it stays in.\<close>

lemma logins_distinct:
  assumes "gw_reach rlim auths cps ns n l0 g"
  shows "distinct (map fst (gw_logins g))"
proof (rule sub_upt_distinct)
  have "mset [0..<gw_next g] = mset (map fst (gw_clients g)) + mset (gw_ended g)
      + (mset (gw_handshake g) + mset (closed_at_accept (gw_fates g)) + mset (map fst (added (gw_tarpit g))))"
    using gw_reach_inv(2) [OF assms] by (simp add: place_ok_def ac_simps)
  then have "mset (map fst (gw_clients g)) + mset (gw_ended g) \<subseteq># mset [0..<gw_next g]" by simp
  with gw_reach_inv(2) [OF assms] show "mset (map fst (gw_logins g)) \<subseteq># mset [0..<gw_next g]"
    unfolding place_ok_def by (blast intro: subset_mset.order_trans)
qed

lemma gateway_login:
  assumes "gw_reach rlim auths cps ns n l0 g" "(c, ident, s) \<in> set (gw_clients g)"
  obtains t off where "map_of (gw_logins g) c = Some (t, off)" "logged_in (auths t) off ident"
    "client_reach cps ns ident no_tunnels s"
proof -
  obtain t off where "client_reach cps ns ident no_tunnels s" "logged_in (auths t) off ident" "(c, t, off) \<in> set (gw_logins g)"
    using gw_reach_inv(4) [OF assms(1)] assms(2) by (fastforce simp: parts_ok_def)
  with logins_distinct [OF assms(1)] show thesis by (intro that [of t off]) (simp_all add: map_of_eq_Some_iff)
qed

text \<open>C6. No connection is lost: each connection the gateway has accepted is in exactly one place, in its
  handshake, served, ended, closed at once, in the tarpit or closed by it; only after the context has ended
  may the tarpit drop one. As many results are kept as connections have ended, the tarpit never holds more
  than its capacities, and no connection is both waiting in it and served.\<close>

theorem gateway_accounts:
  assumes "gw_reach rlim auths cps ns n l0 g"
  shows "mset [0..<gw_next g] =
      mset (gw_handshake g) + mset (map fst (gw_clients g)) + mset (gw_ended g) + mset (closed_at_accept (gw_fates g))
      + held (gw_tarpit g) + mset (map fst (closed (gw_tarpit g))) + mset (lost (gw_tarpit g))
    \<and> (gw_ctx g = None \<longrightarrow> lost (gw_tarpit g) = [])
    \<and> length (gw_ended g) = length (filter (\<lambda>d. \<exists>h. d = HandleDone h) (gw_done g))
    \<and> distinct (map fst (gw_logins g)) \<and> PodshSuccessfulAuth (gw_counters g) = length (gw_logins g)
    \<and> length (jobs (gw_tarpit g)) \<le> jobs_cap \<and> length (workers (gw_tarpit g)) \<le> n
    \<and> set (map fst (gw_clients g)) \<inter> set_mset (held (gw_tarpit g)) = {}"
proof -
  note inv = gw_reach_inv [OF assms]
  let ?t = "gw_tarpit g"
  have t: "tarpit_bounded n ?t" "conserved ?t" "timed ?t" "cancelled ?t \<longleftrightarrow> gw_ctx g \<noteq> None"
    using inv(4) tarpit_reach_inv by (auto simp: parts_ok_def)
  have m: "mset [0..<gw_next g] =
      mset (gw_handshake g) + mset (map fst (gw_clients g)) + mset (gw_ended g) + mset (closed_at_accept (gw_fates g))
      + held ?t + mset (map fst (closed ?t)) + mset (lost ?t)"
    using inv(2) t(2) unfolding place_ok_def conserved_def by (simp add: ac_simps)
  have "set (map fst (gw_clients g)) \<inter> set_mset (held ?t) = {}"
  proof (rule ccontr)
    assume "\<not> ?thesis"
    then obtain c where "c \<in># mset (map fst (gw_clients g))" "c \<in># held ?t" by auto
    then have "1 \<le> count (mset (map fst (gw_clients g))) c" "1 \<le> count (held ?t) c"
      by (simp_all only: count_greater_eq_one_iff)
    then have "2 \<le> count (mset [0..<gw_next g]) c" unfolding m count_union by linarith
    moreover have "count (mset [0..<gw_next g]) c \<le> 1" using distinct_count_atmost_1 [of "[0..<gw_next g]"]
      by (simp add: count_mset_set')
    ultimately show False by simp
  qed
  moreover have "length (jobs ?t) \<le> jobs_cap" "length (workers ?t) \<le> n" using t(1) by (simp_all add: tarpit_bounded_def)
  moreover have "gw_ctx g = None \<longrightarrow> lost ?t = []" using t(3,4) unfolding timed_def by blast
  moreover have "length (gw_ended g) = length (filter (\<lambda>d. \<exists>h. d = HandleDone h) (gw_done g))"
    using inv(2) by (simp add: place_ok_def)
  moreover have "distinct (map fst (gw_logins g))" by (rule logins_distinct [OF assms])
  moreover have "PodshSuccessfulAuth (gw_counters g) = length (gw_logins g)" using inv(2) by (simp add: place_ok_def)
  ultimately show ?thesis using m by blast
qed

theorem gateway_accounts_witness:
  "\<exists>g. gw_reach None (\<lambda>_. {ann_auth}) {} ''apps'' 10 () g \<and> mset (map fst (gw_clients g)) = {#0#} \<and> gw_ended g = []
    \<and> held (gw_tarpit g) = {#}"
proof -
  obtain g where g: "gw_reach None (\<lambda>_. {ann_auth}) {} ''apps'' 10 () g" "gw_clients g = [(0, ann_web, client_start no_tunnels)]"
    "gw_next g = 1" by (rule ann_gateway [of ann_auth "\<lambda>_. {ann_auth}"]) (simp_all add: ann_auth_def)
  from gateway_accounts [OF g(1)] g(2,3) have "{#0#} = {#0#} + (mset (gw_handshake g) + mset (gw_ended g)
      + mset (closed_at_accept (gw_fates g)) + held (gw_tarpit g) + mset (map fst (closed (gw_tarpit g)))
      + mset (lost (gw_tarpit g)))"
    by (simp add: ac_simps)
  then have "gw_ended g = [] \<and> held (gw_tarpit g) = {#}" by simp
  with g show ?thesis by auto
qed

text \<open>C21. The running gateway is made of its parts, however they are interleaved: the fates of its
  connections, its limiter and its result are those of the accept loop on what it has accepted; its tarpit
  is in a state of the tarpit; and each of its clients is in a state it can be in alone, under the context
  of the gateway, served as who the authenticator said it is for the key it offered.\<close>

theorem gateway_refines:
  assumes "gw_reach rlim auths cps ns n l0 g"
  shows "(\<forall>tp. \<exists>tp'. accept_loop rlim (gw_events g) (l0, tp) =
        (rev (gw_fates g), if gw_accepting g then None else gw_ctx g, gw_limiter g, tp'))
    \<and> tarpit_reach n (gw_tarpit g) \<and> (cancelled (gw_tarpit g) \<longleftrightarrow> gw_ctx g \<noteq> None)
    \<and> (\<forall>c ident s. (c, ident, s) \<in> set (gw_clients g) \<longrightarrow>
         client_reach cps ns ident no_tunnels s \<and> c_ctx s = gw_ctx g
         \<and> (\<exists>t off. (c, t, off) \<in> set (gw_logins g) \<and> logged_in (auths t) off ident))"
  using gw_reach_inv [OF assms] by (auto simp: loop_ok_def parts_ok_def)

theorem gateway_refines_witness:
  "\<exists>g. gw_reach None (\<lambda>_. {ann_auth}) {} ''apps'' 10 () g \<and> rev (gw_fates g) = fst (accept_loop None (gw_events g) ((), NewTarpit 0))
    \<and> gw_clients g \<noteq> []"
proof -
  obtain g where g: "gw_reach None (\<lambda>_. {ann_auth}) {} ''apps'' 10 () g" "gw_clients g = [(0, ann_web, client_start no_tunnels)]"
    by (rule ann_gateway [of ann_auth "\<lambda>_. {ann_auth}"]) (simp_all add: ann_auth_def)
  from gateway_refines [OF g(1)] have "rev (gw_fates g) = fst (accept_loop None (gw_events g) ((), NewTarpit 0))"
    by (metis fst_conv)
  with g show ?thesis by auto
qed

text \<open>C14. When \<open>ListenAndServe\<close> returns, the context has ended, no \<open>Handle\<close> is left and every connection it
  served has ended with its result; and what it returns is the first failure of a \<open>Handle\<close>, cancellations
  apart, that came before the end of the accept loop, or else the error of the context. Failures after
  that are dropped.\<close>

theorem gateway_returns:
  assumes "gw_reach rlim auths cps ns n l0 g" "gw_over g = Some r"
  shows "\<exists>hs e hs'. gw_ctx g = Some e \<and> gw_handshake g = [] \<and> gw_clients g = []
    \<and> gw_done g = map HandleDone hs @ AcceptDone (Some e) # map HandleDone hs'
    \<and> length hs + length hs' = length (gw_ended g)
    \<and> r = (case filter (\<lambda>h. h \<noteq> None \<and> \<not> opt_is h context_Canceled) hs of [] \<Rightarrow> Some e | h # _ \<Rightarrow> h)"
proof -
  note inv = gw_reach_inv [OF assms(1)]
  from inv(3) assms(2) obtain ds e ds' where d: "gw_ctx g = Some e" "gw_done g = ds @ AcceptDone (Some e) # ds'"
    "handles_only ds" "handles_only ds'" "gw_handshake g = []" "gw_clients g = []"
    "r = sshd_ListenAndServe None (gw_done g)" by (auto simp: done_ok_def)
  obtain hs hs' where h: "ds = map HandleDone hs" "ds' = map HandleDone hs'"
    using handles_only_map [OF d(3)] handles_only_map [OF d(4)] by blast
  have len: "length (filter (\<lambda>d. \<exists>h. d = HandleDone h) (map HandleDone xs)) = length xs" for xs
    by (induction xs) auto
  then have "length hs + length hs' = length (gw_ended g)"
    using inv(2) d(2) h by (simp add: place_ok_def)
  moreover have "sshd_ListenAndServe None (map HandleDone hs @ AcceptDone (Some e) # map HandleDone hs') =
      (case filter (\<lambda>h. h \<noteq> None \<and> \<not> opt_is h context_Canceled) hs of [] \<Rightarrow> Some e | h # _ \<Rightarrow> h)"
    by (induction hs) (auto simp: sshd_ListenAndServe_def eg_wait_def completion_error_def)
  ultimately show ?thesis using d h by auto
qed

theorem gateway_returns_witness:
  "\<exists>g. gw_reach None (\<lambda>_. {ann_auth}) {} ''apps'' 10 () g \<and> gw_over g = Some (Some (Joined [EOF, ErrNotPermitted]))
    \<and> gw_ctx g = Some context_Canceled \<and> gw_clients g = []"
proof -
  obtain g where g: "gw_reach None (\<lambda>_. {ann_auth}) {} ''apps'' 10 () g"
    "gw_over g = Some (Some (Joined [EOF, ErrNotPermitted]))" "gw_ctx g = Some context_Canceled" by (rule one_refused)
  from gateway_returns [OF g(1,2)] g show ?thesis by blast
qed

text \<open>While a session of a client is stuck, \<open>ListenAndServe\<close> does not return, whatever happens.\<close>

lemma gateway_stuck:
  assumes "gw_reach rlim auths cps ns n l0 g" "(c, ident, s) \<in> set (gw_clients g)" "stuck_at ch s" "gw_over g = None"
    and "(gw_step rlim auths cps ns n)\<^sup>*\<^sup>* g g'"
  shows "gw_over g' = None \<and> (\<exists>s'. (c, ident, s') \<in> set (gw_clients g') \<and> stuck_at ch s')"
proof -
  let ?I = "\<lambda>g. gw_reach rlim auths cps ns n l0 g \<and> gw_over g = None \<and> (\<exists>s. (c, ident, s) \<in> set (gw_clients g) \<and> stuck_at ch s)"
  have "?I g'"
    using assms(5)
  proof (rule steps_invariant)
    show "?I g" using assms(1-4) by blast
  next
    fix u v assume I: "?I u" and step: "gw_step rlim auths cps ns n u v"
    then obtain s where s: "(c, ident, s) \<in> set (gw_clients u)" "stuck_at ch s" by blast
    have r: "client_reach cps ns ident no_tunnels s" "c_ctx s = gw_ctx u"
      using gw_reach_inv(4) I s(1) by (fastforce simp: parts_ok_def)+
    have act: "gw_act rlim auths cps ns n u v" and live: "client_live s" "gw_over u = None"
      using step s(1) by (auto simp: gw_step_def gw_live_def)
    from act have "gw_over v = None \<and> (\<exists>s. (c, ident, s) \<in> set (gw_clients v) \<and> stuck_at ch s)"
    proof (cases rule: gw_act.cases)
      case (accept hashed)
      with s live gw_accept_fields [of rlim hashed u] show ?thesis by auto
    next
      case (client i c' ident' s' s'')
      show ?thesis
      proof (cases "gw_clients u ! i = (c, ident, s)")
        case True
        with client r stuck_step [OF r(1) s(2)] have "stuck_at ch s''" by simp
        moreover have "(c, ident, s'') \<in> set (gw_clients v)"
          using client True set_update_memI [of i "gw_clients u" "(c, ident, s'')"] by simp
        ultimately show ?thesis using client live by auto
      next
        case False
        obtain j where j: "j < length (gw_clients u)" "gw_clients u ! j = (c, ident, s)"
          using s(1) by (auto simp: in_set_conv_nth)
        with False have "i \<noteq> j" by auto
        with j client have "gw_clients v ! j = (c, ident, s)" "j < length (gw_clients v)" by simp_all
        then have "(c, ident, s) \<in> set (gw_clients v)" by (metis nth_mem)
        with client live s(2) show ?thesis by auto
      qed
    next
      case (client_ends c' ident' s' e)
      have "(c, ident, s) \<noteq> (c', ident', s')" using stuck_not_over [OF r(1) s(2)] client_ends by auto
      with s(1) have "(c, ident, s) \<in> set (remove1 (c', ident', s') (gw_clients u))" by (metis in_set_remove1)
      with client_ends(1) s(2) live show ?thesis by (auto simp: gw_client_ends_def)
    next
      case (cancel e)
      have "client_step cps ns ident s (cancel_all e s)"
        using live r(2) cancel by (simp add: client_step_def client_act.cancel)
      from stuck_step [OF r(1) s(2) this] cancel s live show ?thesis by (force simp: gw_cancel_def)
    qed (use s live in \<open>auto simp: gw_accept_error_def gw_login_def Let_def split: option.split prod.split sum.split\<close>)
    moreover have "gw_reach rlim auths cps ns n l0 v" using I step by (blast intro: gw_reach_step)
    ultimately show "?I v" by simp
  qed
  then show ?thesis by blast
qed

end
