(* ===== verification/Shutdown.thy ===== *)
theory Shutdown
  imports Gateway
begin

text \<open>
  How a connection and the gateway come to an end, and what may keep them from it. The machines of
  theories \<open>Client_Conn\<close> and \<open>Gateway\<close> have many runs; shown is that from every state there is one to
  the end, exactly as long as no session is stuck in a send that nobody will receive. The run is put
  together from the runs of the parts: each goroutine of the connection gets done, the loop is left,
  the tunnels are closed.
\<close>

section \<open>A call that has entered its manager\<close>

definition entered_ok :: "client \<Rightarrow> bool" where
  "entered_ok s \<longleftrightarrow>
     (\<forall>c key f i. ForwardTask c key f \<in> set (k_tasks (c_conn s)) \<longrightarrow> c_calls s c = Some i \<longrightarrow>
        i < length (fm_calls (c_mgrs s ! f)))"

lemma entered_mono:
  assumes "entered_ok s" "calls_ok s" "c_calls s' = c_calls s"
    and "\<And>c key f. ForwardTask c key f \<in> set (k_tasks (c_conn s')) \<Longrightarrow>
      ForwardTask c key f \<in> set (k_tasks (c_conn s)) \<or> c = k_next (c_conn s)"
    and "\<And>c key f. ForwardTask c key f \<in> set (k_tasks (c_conn s)) \<Longrightarrow>
      length (fm_calls (c_mgrs s ! f)) \<le> length (fm_calls (c_mgrs s' ! f))"
  shows "entered_ok s'"
  unfolding entered_ok_def
proof (intro allI impI)
  fix c key f i assume task: "ForwardTask c key f \<in> set (k_tasks (c_conn s'))" and i: "c_calls s' c = Some i"
  have "c \<noteq> k_next (c_conn s)" using assms(2,3) i by (auto simp: calls_ok_def)
  with assms(4) [OF task] have t: "ForwardTask c key f \<in> set (k_tasks (c_conn s))" by blast
  with assms(1,3) i have "i < length (fm_calls (c_mgrs s ! f))" by (simp add: entered_ok_def)
  with assms(5) [OF t] show "i < length (fm_calls (c_mgrs s' ! f))" by simp
qed

lemma handle_channel_forward_tasks:
  "ForwardTask c key f \<in> set (k_tasks (handle_channel ch k)) \<Longrightarrow> ForwardTask c key f \<in> set (k_tasks k) \<or> c = k_next k"
  by (rule handle_channel_adds [of ch k]) (force simp: task_channel_def)

lemma same_channel_task:
  assumes "distinct (task_channels ts)" "t \<in> set ts" "u \<in> set ts" "task_channel t = Some c" "task_channel u = Some c"
  shows "u = t"
  using one_task [OF assms(1,2,4), of u] assms(3,5) by (metis in_set_remove1)

lemma fm_call_length: "fm_call (g, fm) (g', fm') \<Longrightarrow> length (fm_calls fm') = length (fm_calls fm)"
  by (erule fm_call.cases) (auto simp: fm_op_defs split: option.splits)

lemma task_end_tasks: "set (k_tasks (task_end t e k)) \<subseteq> set (k_tasks k)"
  by (auto simp: task_end_def Let_def split: option.split dest: set_remove1_subset [THEN subsetD])

lemma calls_update:
  "length (fm_calls fm) = length (fm_calls (fms ! j)) \<Longrightarrow> length (fm_calls (fms[j := fm] ! f)) = length (fm_calls (fms ! f))"
  by (cases "j = f"; cases "j < length fms") (simp_all add: list_update_beyond)

lemma act_entered_ok:
  assumes "client_act cps ns ident s s'" "conn_reach (c_conn s)" "calls_ok s" "entered_ok s"
    and "\<And>c key f. ForwardTask c key f \<in> set (k_tasks (c_conn s)) \<Longrightarrow> f < length (c_mgrs s)"
  shows "entered_ok s'"
  using assms(1)
proof (cases rule: client_act.cases)
  case (direct_new q list_pods te dial opened accepted)
  then show ?thesis
    by (intro entered_mono [OF assms(4,3)])
       (auto simp: open_direct_def nth_append dest: assms(5) handle_channel_forward_tasks split: prod.splits sum.splits)
next
  case (forward_enters c key f)
  show ?thesis
    unfolding entered_ok_def
  proof (intro allI impI)
    fix c' key' f' i
    assume t: "ForwardTask c' key' f' \<in> set (k_tasks (c_conn s'))" and i: "c_calls s' c' = Some i"
    have t': "ForwardTask c' key' f' \<in> set (k_tasks (c_conn s))" using t forward_enters(1) by (simp add: enter_forward_def)
    have len: "length (fm_calls (forward_enter fm)) = Suc (length (fm_calls fm))" for fm by (simp add: forward_enter_def)
    show "i < length (fm_calls (c_mgrs s' ! f'))"
    proof (cases "c' = c")
      case True
      have "ForwardTask c' key' f' = ForwardTask c key f"
        using same_channel_task [OF distinct_tasks(1) [OF assms(2)] forward_enters(2) t', of c] True
        by (simp add: task_channel_def)
      with i forward_enters(1) assms(5) [OF t'] len show ?thesis by (simp add: enter_forward_def)
    next
      case False
      with i forward_enters(1) have "c_calls s c' = Some i" by (simp add: enter_forward_def)
      with assms(4) t' have "i < length (fm_calls (c_mgrs s ! f'))" by (simp add: entered_ok_def)
      with forward_enters(1) assms(5) [OF t'] len show ?thesis by (cases "f' = f") (simp_all add: enter_forward_def)
    qed
  qed
next
  case (forward_moves f g fm)
  then show ?thesis
    by (intro entered_mono [OF assms(4,3)]) (auto simp: calls_update dest: fm_call_length)
next
  case (close keys key)
  have "k_tasks (close_tunnel keys key (c_conn s)) = k_tasks (c_conn s)"
    by (simp add: close_tunnel_def split: option.split)
  with close show ?thesis
    by (intro entered_mono [OF assms(4,3)])
       (auto simp: close_forwarded_def Let_def fm_Close_def calls_update split: option.splits prod.splits)
qed (intro entered_mono [OF assms(4,3)];
     auto simp: open_session_def cancel_all_def leave_loop_def Let_def dest: assms(5) handle_channel_forward_tasks
       task_end_tasks [THEN subsetD])+

lemma client_reach_entered: "client_reach cps ns ident g0 s \<Longrightarrow> entered_ok s"
  unfolding client_reach_def
proof (induction rule: reach_invariant)
  case (init s)
  then show ?case by (simp add: entered_ok_def client_start_def conn_start_def)
next
  case (step s s')
  then have inv: "conn_reach (c_conn s)" "mgrs_ok g0 s" "calls_ok s"
    using client_reach_inv [of cps ns ident g0 s] by (simp_all add: client_reach_def client_inv_def)
  from step have "client_act cps ns ident s s'" "entered_ok s" by (simp_all add: client_step_def)
  with inv forward_task_mgr [OF inv(1,2)] show ?case by (blast intro: act_entered_ok)
qed

section \<open>Runs of the parts in the connection\<close>

lemma client_reach_steps: "client_reach cps ns ident g0 s \<Longrightarrow> (client_step cps ns ident)\<^sup>*\<^sup>* s s' \<Longrightarrow> client_reach cps ns ident g0 s'"
  unfolding client_reach_def by (rule reach_steps)

lemma client_runI: "client_live s \<Longrightarrow> client_act cps ns ident s s' \<Longrightarrow> (client_step cps ns ident)\<^sup>*\<^sup>* s s'"
  by (simp add: client_step_def r_into_rtranclp)

text \<open>Every handler can return: when the pods cannot be listed, it does so with that error.\<close>

definition returns_of :: "pod set \<Rightarrow> string \<Rightarrow> identity \<Rightarrow> handler \<Rightarrow> gerror option \<Rightarrow> bool" where
  "returns_of cps ns ident h e \<longleftrightarrow>
     (\<exists>list_pods cl got events effs. pod_lister cps list_pods
        \<and> run_handler cl (label_Resolve list_pods ns) got events ident h = Ret (Some e, effs))"

lemma every_handler_returns: "\<exists>e. returns_of cps ns ident h e"
proof -
  let ?list = "\<lambda>_ _. Inl (Dynamic ''unavailable'')"
  have lister: "pod_lister cps ?list" by unfold_locales simp_all
  obtain err where r: "label_Resolve ?list ns ident = Ret (Inl err)"
    by (cases "RequestedHostname ident = [] \<or> UserID ident = []") (auto simp: label_Resolve_def)
  have "run_handler calm_cluster (label_Resolve ?list ns) got events ident h = Ret (Some (Some err), [])" for got events
    by (cases h) (simp_all add: run_handler_def HandleShell_def HandleExec_def HandleSFTP_def with_target_def r)
  with lister show ?thesis unfolding returns_of_def by blast
qed

text \<open>A handler that runs can do what it has still to do, and one that has not begun can begin and do it all.\<close>

lemma handler_flushes:
  assumes "client_live s" "c_runs s c = Some (e, effs)"
  shows "(client_step cps ns ident)\<^sup>*\<^sup>* s
    (s\<lparr>c_runs := (c_runs s)(c \<mapsto> (e, [])), c_effects := rev effs @ c_effects s\<rparr>)"
  using assms
proof (induction effs arbitrary: s)
  case Nil
  then have "s\<lparr>c_runs := (c_runs s)(c \<mapsto> (e, [])), c_effects := rev [] @ c_effects s\<rparr> = s"
    by (simp add: fun_upd_idem)
  then show ?case by (metis rtranclp.rtrancl_refl)
next
  case (Cons x effs)
  let ?s = "s\<lparr>c_runs := (c_runs s)(c \<mapsto> (e, effs)), c_effects := x # c_effects s\<rparr>"
  have live: "client_live ?s" and runs: "c_runs ?s c = Some (e, effs)" using Cons.prems(1) by (simp_all add: client_live_def)
  have eq: "?s\<lparr>c_runs := (c_runs ?s)(c \<mapsto> (e, [])), c_effects := rev effs @ c_effects ?s\<rparr>
      = s\<lparr>c_runs := (c_runs s)(c \<mapsto> (e, [])), c_effects := rev (x # effs) @ c_effects s\<rparr>" by simp
  have "(client_step cps ns ident)\<^sup>*\<^sup>* ?s
      (s\<lparr>c_runs := (c_runs s)(c \<mapsto> (e, [])), c_effects := rev (x # effs) @ c_effects s\<rparr>)"
    using Cons.IH [OF live runs] unfolding eq .
  with client_runI [OF Cons.prems(1) client_act.handler_acts [OF Cons.prems(2)]] show ?case by (rule rtranclp_trans)
qed

lemma handler_runs:
  assumes "client_live s" "c_sess s c = Some t" "s_worker t = Running h" "c_runs s c = None" "returns_of cps ns ident h e"
  obtains effs where "(client_step cps ns ident)\<^sup>*\<^sup>* s (s\<lparr>c_runs := (c_runs s)(c \<mapsto> (e, [])), c_effects := effs\<rparr>)"
proof -
  from assms(5) obtain list_pods cl got events effs where "pod_lister cps list_pods"
    "run_handler cl (label_Resolve list_pods ns) got events ident h = Ret (Some e, effs)" by (auto simp: returns_of_def)
  from client_act.handler_begins [OF assms(2-4) this]
  have begins: "(client_step cps ns ident)\<^sup>*\<^sup>* s (s\<lparr>c_runs := (c_runs s)(c \<mapsto> (e, effs))\<rparr>)" by (rule client_runI [OF assms(1)])
  have "client_live (s\<lparr>c_runs := (c_runs s)(c \<mapsto> (e, effs))\<rparr>)" using assms(1) by (simp add: client_live_def)
  from handler_flushes [OF this, of c e effs cps ns ident] begins that [of "rev effs @ c_effects s"] show thesis
    by (simp add: rtranclp_trans)
qed

text \<open>What the handler of a channel can return: its result, once it has begun.\<close>

definition returns_at :: "pod set \<Rightarrow> string \<Rightarrow> identity \<Rightarrow> nat \<Rightarrow> client \<Rightarrow> handler \<Rightarrow> gerror option \<Rightarrow> bool" where
  "returns_at cps ns ident c s h e \<longleftrightarrow>
     (case c_runs s c of None \<Rightarrow> returns_of cps ns ident h e | Some (r, effs) \<Rightarrow> e = r)"

lemma some_return: "\<exists>e. returns_at cps ns ident c s h e"
  using every_handler_returns [of cps ns ident h] by (cases "c_runs s c") (auto simp: returns_at_def)

lemma own_act_finished: "own_act t t' \<Longrightarrow> s_worker t = Finished e \<Longrightarrow> s_worker t' = Finished e"
  unfolding own_act_def
proof (elim conjE)
  assume "session_act t t'" "s_worker t = Finished e"
  then show "s_worker t' = Finished e"
  proof (induction rule: session_act.induct)
    case (request s r)
    then show ?case by (cases "(r, s)" rule: handle_request.cases) (simp_all add: session_op_defs)
  qed (simp_all add: session_op_defs)
qed

lemma session_lifts:
  assumes "(own_run (returns_at cps ns ident c s))\<^sup>*\<^sup>* t t'" "client_live s" "c_sess s c = Some t"
  shows "\<exists>runs effs. (client_step cps ns ident)\<^sup>*\<^sup>* s
      (s\<lparr>c_sess := (c_sess s)(c \<mapsto> t'), c_runs := runs, c_effects := effs\<rparr>)
    \<and> client_live (s\<lparr>c_sess := (c_sess s)(c \<mapsto> t'), c_runs := runs, c_effects := effs\<rparr>)
    \<and> (runs = c_runs s \<or> (\<exists>e. s_worker t' = Finished e))"
  using assms(1)
proof (induction rule: rtranclp_induct)
  case base
  have "s\<lparr>c_sess := (c_sess s)(c \<mapsto> t), c_runs := c_runs s, c_effects := c_effects s\<rparr> = s"
    using assms(3) by (simp add: fun_upd_idem)
  with assms(2) show ?case by (metis rtranclp.rtrancl_refl)
next
  case (step u v)
  let ?at = "\<lambda>t runs effs. s\<lparr>c_sess := (c_sess s)(c \<mapsto> t), c_runs := runs, c_effects := effs\<rparr>"
  from step.IH obtain runs effs where e: "(client_step cps ns ident)\<^sup>*\<^sup>* s (?at u runs effs)" "client_live (?at u runs effs)"
    "runs = c_runs s \<or> (\<exists>e. s_worker u = Finished e)" by blast
  have alive: "alive v" using step(2) by (simp add: own_run_def)
  have live: "client_live (?at v runs' effs')" for runs' effs'
    using e(2) alive by (auto simp: client_live_def split: if_splits)
  from step(2) consider (own) "own_act u v" | (returns) h e se where
    "s_worker u = Running h" "returns_at cps ns ident c s h e" "v = finish_handler h e se u" by (auto simp: own_run_def)
  then show ?case
  proof cases
    case own
    have u: "c_sess (?at u runs effs) c = Some u" by simp
    have eq: "(?at u runs effs)\<lparr>c_sess := (c_sess (?at u runs effs))(c \<mapsto> v)\<rparr> = ?at v runs effs" by simp
    have "client_act cps ns ident (?at u runs effs) (?at v runs effs)"
      using client_act.session [OF u own, of cps ns ident] unfolding eq .
    with e(1) client_runI [OF e(2)] have "(client_step cps ns ident)\<^sup>*\<^sup>* s (?at v runs effs)" by (meson rtranclp_trans)
    with live e(3) own_act_finished [OF own] show ?thesis by blast
  next
    case returns
    with e(3) have runs: "runs = c_runs s" by auto
    obtain effs' where begun: "(client_step cps ns ident)\<^sup>*\<^sup>* (?at u runs effs) (?at u (runs(c \<mapsto> (e, []))) effs')"
    proof (cases "runs c")
      case None
      with returns(2) runs have "returns_of cps ns ident h e" by (simp add: returns_at_def)
      then obtain effs' where "(client_step cps ns ident)\<^sup>*\<^sup>* (?at u runs effs)
          ((?at u runs effs)\<lparr>c_runs := (c_runs (?at u runs effs))(c \<mapsto> (e, [])), c_effects := effs'\<rparr>)"
        using None returns(1) by (elim handler_runs [OF e(2), of c u h, rotated -1]) simp_all
      then show thesis by (intro that [of effs']) simp
    next
      case (Some p)
      with returns(2) runs obtain left where "runs c = Some (e, left)" by (cases p) (simp add: returns_at_def)
      then have "(client_step cps ns ident)\<^sup>*\<^sup>* (?at u runs effs)
          ((?at u runs effs)\<lparr>c_runs := (c_runs (?at u runs effs))(c \<mapsto> (e, [])), c_effects := rev left @ effs\<rparr>)"
        using handler_flushes [OF e(2), of c e left cps ns ident] by simp
      then show thesis by (intro that [of "rev left @ effs"]) simp
    qed
    let ?u = "?at u (runs(c \<mapsto> (e, []))) effs'"
    have u: "c_sess ?u c = Some u" "c_runs ?u c = Some (e, [])" by simp_all
    have eq: "?u\<lparr>c_sess := (c_sess ?u)(c \<mapsto> v)\<rparr> = ?at v (runs(c \<mapsto> (e, []))) effs'" using returns(3) by simp
    have "client_act cps ns ident ?u (?at v (runs(c \<mapsto> (e, []))) effs')"
      using client_act.handler_ends [OF u(1) returns(1) u(2), of cps ns ident se] unfolding returns(3) [symmetric] eq .
    moreover have "client_live (?at u (runs(c \<mapsto> (e, []))) effs')" using e(2) by (simp add: client_live_def)
    ultimately have "(client_step cps ns ident)\<^sup>*\<^sup>* s (?at v (runs(c \<mapsto> (e, []))) effs')"
      using e(1) begun client_runI by (meson rtranclp_trans)
    moreover have "\<exists>e'. s_worker v = Finished e'" using returns(3) by (cases h) (simp_all add: finish_handler_def)
    ultimately show ?thesis using live by blast
  qed
qed

lemma calls_lift:
  assumes "fm_call\<^sup>*\<^sup>* (g, fm) (g', fm')" "client_live s" "f < length (c_mgrs s)" "c_gauges s = g" "c_mgrs s ! f = fm"
  shows "(client_step cps ns ident)\<^sup>*\<^sup>* s (s\<lparr>c_gauges := g', c_mgrs := (c_mgrs s)[f := fm']\<rparr>)"
  using assms(1)
proof (induction rule: rtranclp_induct2)
  case refl
  have "s\<lparr>c_gauges := g, c_mgrs := (c_mgrs s)[f := fm]\<rparr> = s" using assms(4,5) by auto
  then show ?case by simp
next
  case (step g1 fm1 g2 fm2)
  let ?s = "s\<lparr>c_gauges := g1, c_mgrs := (c_mgrs s)[f := fm1]\<rparr>"
  have "client_act cps ns ident ?s (?s\<lparr>c_gauges := g2, c_mgrs := (c_mgrs ?s)[f := fm2]\<rparr>)"
    using step(2) assms(3) by (intro client_act.forward_moves) simp_all
  moreover have "client_live ?s" using assms(2) by (simp add: client_live_def)
  ultimately show ?case using step(3) client_runI by (fastforce intro: rtranclp_trans)
qed

text \<open>A call of \<open>Forward\<close> ends: what it is waiting for may fail.\<close>

lemma call_ends:
  assumes "i < length (fm_calls fm)"
  shows "\<exists>g' fm' r. fm_call\<^sup>*\<^sup>* (g, fm) (g', fm') \<and> i < length (fm_calls fm') \<and> fm_calls fm' ! i = CallDone r"
proof -
  let ?ends = "\<lambda>fm. \<exists>g' fm' r. fm_call\<^sup>*\<^sup>* (g, fm) (g', fm') \<and> i < length (fm_calls fm') \<and> fm_calls fm' ! i = CallDone r"
  have one: "?ends fm" if "fm_call (g, fm) (g', fm')" "i < length (fm_calls fm')" "fm_calls fm' ! i = CallDone r"
    for fm g' fm' r using that by blast
  have num: "?ends fm" if "i < length (fm_calls fm)" "fm_calls fm ! i = Numbered n" for fm n
    using fm_call.create [OF that, of g "Some EOF" None] that(1)
    by (intro one [of _ "fst (forward_create i n (Some EOF) None (g, fm))" "snd (forward_create i n (Some EOF) None (g, fm))"])
       (simp_all add: forward_create_def)
  show ?thesis
  proof (cases "fm_calls fm ! i")
    case Entered
    have "fm_call (g, fm) (g, forward_number i fm)" by (rule fm_call.number [OF assms Entered])
    moreover have "?ends (forward_number i fm)"
      using assms by (intro num [of _ "fm_reqID fm + 1"]) (simp_all add: forward_number_def Let_def)
    ultimately show ?thesis by (meson converse_rtranclp_into_rtranclp)
  next
    case (Piping n)
    show ?thesis
      using fm_call.finish [OF assms Piping, of g None] assms
      by (intro one [of _ "fst (forward_finish i n None (g, fm))" "snd (forward_finish i n None (g, fm))"])
         (simp_all add: forward_finish_def close_all_def set_call_def)
  next
    case (Torn n)
    show ?thesis
      using fm_call.torn [OF assms Torn, of g None] assms
      by (intro one [of _ g "snd (set_call i (CallDone None) (g, fm))"]) (simp_all add: set_call_def)
  qed (use assms num in blast)+
qed

section \<open>A connection comes to its end\<close>

text \<open>The states on the way: nothing is stuck, and the context is as it was.\<close>

definition ending :: "pod set \<Rightarrow> string \<Rightarrow> identity \<Rightarrow> tunnel_gauges \<Rightarrow> gerror option \<Rightarrow> client \<Rightarrow> bool" where
  "ending cps ns ident g0 ctx s \<longleftrightarrow>
     client_reach cps ns ident g0 s \<and> client_live s \<and> c_ctx s = ctx \<and> (\<forall>c. \<not> stuck_at c s)"

lemma endingI:
  assumes "client_reach cps ns ident g0 s" "(client_step cps ns ident)\<^sup>*\<^sup>* s s'" "c_ctx s' = ctx"
    and "\<not> c_panic s'" "\<And>c t. c_sess s' c = Some t \<Longrightarrow> alive t" "\<And>c. \<not> stuck_at c s'"
  shows "ending cps ns ident g0 ctx s'"
proof -
  have r: "client_reach cps ns ident g0 s'" using assms(1,2) by (rule client_reach_steps)
  with assms(3-6) client_reach_inv [OF r] show ?thesis by (simp add: ending_def client_live_def client_inv_def)
qed

text \<open>One goroutine gets done.\<close>

lemma task_done:
  assumes "ending cps ns ident g0 ctx s" "t \<in> set (k_tasks (c_conn s))"
    and "client_act cps ns ident s1 (s1\<lparr>c_conn := task_end t e (c_conn s1)\<rparr>)" "(client_step cps ns ident)\<^sup>*\<^sup>* s s1"
    and "client_live s1" "c_conn s1 = c_conn s" "c_ctx s1 = ctx" "\<And>c. \<not> stuck_at c s1"
  shows "\<exists>s'. (client_step cps ns ident)\<^sup>*\<^sup>* s s' \<and> ending cps ns ident g0 ctx s'
    \<and> length (k_tasks (c_conn s')) < length (k_tasks (c_conn s))"
proof -
  let ?s = "s1\<lparr>c_conn := task_end t e (c_conn s1)\<rparr>"
  have run: "(client_step cps ns ident)\<^sup>*\<^sup>* s ?s" using assms(4) client_runI [OF assms(5,3)] by (rule rtranclp_trans)
  have tasks: "k_tasks (task_end t e (c_conn s)) = remove1 t (k_tasks (c_conn s))"
    by (simp add: task_end_def Let_def split: option.split)
  have "\<not> stuck_at c ?s" for c
    using assms(8) [of c] assms(6) by (auto simp: stuck_at_def tasks dest: set_remove1_subset [THEN subsetD])
  then have "ending cps ns ident g0 ctx ?s"
    using assms(1,5,7) by (intro endingI [OF _ run]) (auto simp: ending_def client_live_def)
  moreover have "length (remove1 t (k_tasks (c_conn s))) < length (k_tasks (c_conn s))"
    using assms(2) by (simp add: length_remove1) (metis Suc_pred length_pos_if_in_set lessI)
  ultimately show ?thesis using run tasks assms(6) by auto
qed

lemma some_task_ends:
  assumes ends: "ending cps ns ident g0 ctx s" and task: "t \<in> set (k_tasks (c_conn s))"
  shows "\<exists>s'. (client_step cps ns ident)\<^sup>*\<^sup>* s s' \<and> ending cps ns ident g0 ctx s'
    \<and> length (k_tasks (c_conn s')) < length (k_tasks (c_conn s))"
proof -
  have s: "client_reach cps ns ident g0 s" "client_live s" "c_ctx s = ctx" "\<And>c. \<not> stuck_at c s"
    using ends by (simp_all add: ending_def)
  have inv: "conn_reach (c_conn s)" "sess_ok s" "mgrs_ok g0 s" using client_reach_inv [OF s(1)] by (simp_all add: client_inv_def)
  show ?thesis
  proof (cases t)
    case GlobalTask
    have "client_act cps ns ident s (s\<lparr>c_conn := task_end GlobalTask None (c_conn s)\<rparr>)"
      using task GlobalTask by (intro client_act.global_returns [where es = "[GlobalClosed]"]) simp_all
    with GlobalTask show ?thesis by (intro task_done [OF ends task _ rtranclp.rtrancl_refl s(2) refl s(3,4)]) simp
  next
    case (SessionTask c)
    then obtain u where u: "c_sess s c = Some u" "session_reach u" using task inv(2) by (auto simp: sess_ok_def)
    then have "alive u" "\<not> stuck u" using s(2) s(4) [of c] task SessionTask by (auto simp: client_live_def stuck_at_def)
    from unstuck_ends [OF u(2) this, of "returns_at cps ns ident c s"] some_return obtain u' r where
      u': "(own_run (returns_at cps ns ident c s))\<^sup>*\<^sup>* u u'" "s_main u' = Reported r" by blast
    from session_lifts [OF u'(1) s(2) u(1)] obtain runs effs where
      l: "(client_step cps ns ident)\<^sup>*\<^sup>* s (s\<lparr>c_sess := (c_sess s)(c \<mapsto> u'), c_runs := runs, c_effects := effs\<rparr>)"
      "client_live (s\<lparr>c_sess := (c_sess s)(c \<mapsto> u'), c_runs := runs, c_effects := effs\<rparr>)" by blast
    let ?s = "s\<lparr>c_sess := (c_sess s)(c \<mapsto> u'), c_runs := runs, c_effects := effs\<rparr>"
    have "\<not> stuck u'" using u'(2) by (simp add: stuck_def)
    then have "\<not> stuck_at d ?s" for d using s(4) [of d] by (auto simp: stuck_at_def)
    moreover have "client_act cps ns ident ?s (?s\<lparr>c_conn := task_end (SessionTask c) r (c_conn ?s)\<rparr>)"
      using task SessionTask u'(2) by (intro client_act.session_returns [where t = u']) simp_all
    ultimately show ?thesis using SessionTask l s(3) by (intro task_done [OF ends task, of ?s r]) simp_all
  next
    case (ForwardTask c key f)
    have f: "f < length (c_mgrs s)" using forward_task_mgr [OF inv(1,3)] task ForwardTask by blast
    obtain s1 i where s1: "(client_step cps ns ident)\<^sup>*\<^sup>* s s1" "client_live s1" "c_conn s1 = c_conn s" "c_ctx s1 = ctx"
      "c_sess s1 = c_sess s" "c_calls s1 c = Some i" "f < length (c_mgrs s1)" "i < length (fm_calls (c_mgrs s1 ! f))"
    proof (cases "c_calls s c")
      case None
      have "client_act cps ns ident s (enter_forward c f s)"
        using task ForwardTask None by (intro client_act.forward_enters) simp_all
      let ?s = "enter_forward c f s"
      have "client_live ?s" using s(2) by (auto simp: enter_forward_def client_live_def)
      moreover have "c_conn ?s = c_conn s" "c_ctx ?s = ctx" "c_sess ?s = c_sess s" "f < length (c_mgrs ?s)"
        "c_calls ?s c = Some (length (fm_calls (c_mgrs s ! f)))"
        using s(3) f by (simp_all add: enter_forward_def)
      moreover have "length (fm_calls (c_mgrs s ! f)) < length (fm_calls (c_mgrs ?s ! f))"
        using f by (simp add: enter_forward_def forward_enter_def)
      ultimately show thesis using client_runI [OF s(2) \<open>client_act cps ns ident s ?s\<close>] by (intro that)
    next
      case (Some i)
      with client_reach_entered [OF s(1)] task ForwardTask have "i < length (fm_calls (c_mgrs s ! f))"
        by (auto simp: entered_ok_def)
      with s f Some show thesis by (intro that [OF rtranclp.rtrancl_refl]) simp_all
    qed
    obtain g fm r where c: "fm_call\<^sup>*\<^sup>* (c_gauges s1, c_mgrs s1 ! f) (g, fm)" "i < length (fm_calls fm)"
      "fm_calls fm ! i = CallDone r" using call_ends [OF s1(8)] by blast
    let ?s = "s1\<lparr>c_gauges := g, c_mgrs := (c_mgrs s1)[f := fm]\<rparr>"
    have run: "(client_step cps ns ident)\<^sup>*\<^sup>* s ?s"
      using s1(1) calls_lift [OF c(1) s1(2,7) refl refl] by (rule rtranclp_trans)
    have "client_act cps ns ident ?s (?s\<lparr>c_conn := task_end (ForwardTask c key f) r (c_conn ?s)\<rparr>)"
      using task ForwardTask s1 c by (intro client_act.forward_returns [where i = i]) simp_all
    moreover have "\<not> stuck_at d ?s" for d using s(4) [of d] s1(3,5) by (simp add: stuck_at_def)
    ultimately show ?thesis
      using ForwardTask run s1 by (intro task_done [OF ends task, of ?s r]) (simp_all add: client_live_def)
  qed
qed

text \<open>The loop is left, the tunnels are closed, and \<open>Wait\<close> returns.\<close>

definition to_close :: "client \<Rightarrow> nat" where
  "to_close s = (case k_phase (c_conn s) of
     Serving \<Rightarrow> 3 + length (k_forwarded (c_conn s)) | Closing keys \<Rightarrow> 2 + length keys | Draining \<Rightarrow> 1 | _ \<Rightarrow> 0)"

lemma phase_moves:
  assumes ends: "ending cps ns ident g0 ctx s" and tasks: "k_tasks (c_conn s) = []" and "0 < to_close s"
  shows "\<exists>s'. (client_step cps ns ident)\<^sup>*\<^sup>* s s' \<and> (ending cps ns ident g0 ctx s' \<and> k_tasks (c_conn s') = [])
    \<and> to_close s' < to_close s"
proof -
  have s: "client_reach cps ns ident g0 s" "client_live s" "c_ctx s = ctx" "\<And>c. \<not> stuck_at c s"
    using ends by (simp_all add: ending_def)
  have step: ?thesis
    if "client_act cps ns ident s s'" "k_tasks (c_conn s') = []" "to_close s' < to_close s" "c_ctx s' = c_ctx s"
      "c_sess s' = c_sess s" "c_panic s' = c_panic s" for s'
  proof -
    have "ending cps ns ident g0 ctx s'"
      using s that tasks
      by (intro endingI [OF s(1) client_runI [OF s(2) that(1)]]) (auto simp: client_live_def stuck_at_def)
    with that client_runI [OF s(2) that(1)] show ?thesis by blast
  qed
  show ?thesis
  proof (cases "k_phase (c_conn s)")
    case Serving
    show ?thesis
      by (rule step [OF client_act.leave [OF Serving]]) (use Serving tasks in \<open>simp_all add: leave_loop_def to_close_def\<close>)
  next
    case (Closing keys)
    show ?thesis
    proof (cases keys)
      case Nil
      with Closing have c: "k_phase (c_conn s) = Closing []" by simp
      show ?thesis by (rule step [OF client_act.drain [OF c]]) (use c tasks in \<open>simp_all add: to_close_def\<close>)
    next
      case (Cons key ks)
      let ?s = "close_forwarded keys key s"
      have act: "client_act cps ns ident s ?s" by (rule client_act.close [OF Closing]) (simp add: Cons)
      then have "client_reach cps ns ident g0 ?s" using s(1) client_runI [OF s(2)] by (blast intro: client_reach_steps)
      then have "k_phase (c_conn ?s) \<noteq> Panicked" using client_reach_inv by (auto simp: client_inv_def)
      moreover have c: "c_conn ?s = close_tunnel keys key (c_conn s)" "c_ctx ?s = c_ctx s" "c_sess ?s = c_sess s"
        "c_panic ?s = c_panic s"
        by (auto simp: close_forwarded_def Let_def split: option.split prod.split)
      ultimately have "k_phase (c_conn ?s) = Closing ks \<and> k_tasks (c_conn ?s) = []"
        using tasks Cons by (auto simp: close_tunnel_def split: option.splits)
      with act c Closing Cons show ?thesis by (intro step [of ?s]) (simp_all add: to_close_def)
    qed
  next
    case Draining
    show ?thesis
      by (rule step [OF client_act.wait [OF Draining tasks]]) (use Draining tasks in \<open>simp_all add: to_close_def\<close>)
  qed (use assms(3) in \<open>simp_all add: to_close_def\<close>)
qed

lemma connection_ends:
  assumes "ending cps ns ident g0 ctx s"
  shows "\<exists>s' e. (client_step cps ns ident)\<^sup>*\<^sup>* s s' \<and> ending cps ns ident g0 ctx s' \<and> k_phase (c_conn s') = Over e"
proof -
  have "\<exists>u. (client_step cps ns ident)\<^sup>*\<^sup>* s u \<and> ending cps ns ident g0 ctx u \<and> length (k_tasks (c_conn u)) = 0"
  proof (rule steps_to_zero, rule assms)
    fix u assume "ending cps ns ident g0 ctx u" "0 < length (k_tasks (c_conn u))"
    then show "\<exists>s'. (client_step cps ns ident)\<^sup>*\<^sup>* u s' \<and> ending cps ns ident g0 ctx s'
        \<and> length (k_tasks (c_conn s')) < length (k_tasks (c_conn u))"
      by (intro some_task_ends [of cps ns ident g0 ctx u "hd (k_tasks (c_conn u))"]) simp_all
  qed
  then obtain u where u: "(client_step cps ns ident)\<^sup>*\<^sup>* s u" "ending cps ns ident g0 ctx u" "k_tasks (c_conn u) = []" by auto
  have "\<exists>v. (client_step cps ns ident)\<^sup>*\<^sup>* u v \<and> (ending cps ns ident g0 ctx v \<and> k_tasks (c_conn v) = []) \<and> to_close v = 0"
    by (rule steps_to_zero) (use u(2,3) phase_moves in blast)+
  then obtain v where v: "(client_step cps ns ident)\<^sup>*\<^sup>* u v" "ending cps ns ident g0 ctx v" "to_close v = 0" by blast
  have "k_phase (c_conn v) \<noteq> Panicked" using v(2) by (simp add: ending_def client_live_def)
  with v(3) obtain e where "k_phase (c_conn v) = Over e" by (cases "k_phase (c_conn v)") (auto simp: to_close_def)
  with u(1) v(1,2) show ?thesis by (meson rtranclp_trans)
qed

section \<open>The gateway comes to its end\<close>

text \<open>A run of one client is a run of the gateway, once its context has ended.\<close>

lemma client_run_lifts:
  assumes "(client_step cps ns ident)\<^sup>*\<^sup>* s s'" "client_live s'" "gw_live g" "gw_ctx g = Some e" "c_ctx s = Some e"
    and "i < length (gw_clients g)" "gw_clients g ! i = (c, ident, s)"
  shows "(gw_step rlim auths cps ns n)\<^sup>*\<^sup>* g (g\<lparr>gw_clients := (gw_clients g)[i := (c, ident, s')]\<rparr>) \<and> c_ctx s' = Some e"
  using assms(1,2)
proof (induction rule: rtranclp_induct)
  case base
  have "g\<lparr>gw_clients := (gw_clients g)[i := (c, ident, s)]\<rparr> = g" using assms(7) by (metis gateway.surjective gateway.update_convs(7) list_update_id)
  with assms(5) show ?case by simp
next
  case (step u v)
  have act: "client_act cps ns ident u v" "client_live u" using step(2) by (simp_all add: client_step_def)
  with step(3) have u: "(gw_step rlim auths cps ns n)\<^sup>*\<^sup>* g (g\<lparr>gw_clients := (gw_clients g)[i := (c, ident, u)]\<rparr>)" "c_ctx u = Some e"
    by simp_all
  let ?g = "g\<lparr>gw_clients := (gw_clients g)[i := (c, ident, u)]\<rparr>"
  have v: "c_ctx v = c_ctx u" using client_act_ctx [OF act(1)] u(2) by auto
  have "gw_act rlim auths cps ns n ?g (?g\<lparr>gw_clients := (gw_clients ?g)[i := (c, ident, v)]\<rparr>)"
    by (rule gw_act.client [OF _ _ step(2) v]) (simp_all add: assms(6))
  moreover have "\<forall>x \<in> set (gw_clients ?g). case x of (c, ident, s) \<Rightarrow> client_live s"
    using assms(3) act(2) by (simp add: gw_live_def) (intro all_update, simp_all)
  ultimately have "gw_step rlim auths cps ns n ?g (g\<lparr>gw_clients := (gw_clients g)[i := (c, ident, v)]\<rparr>)"
    using assms(3) by (simp add: gw_step_def gw_live_def)
  with u v show ?case by (auto intro: rtranclp.rtrancl_into_rtrancl)
qed

text \<open>The states of the gateway on the way.\<close>

definition gw_ending ::
    "'s allow_fun option \<Rightarrow> (int \<Rightarrow> authenticator set) \<Rightarrow> pod set \<Rightarrow> string \<Rightarrow> nat \<Rightarrow> 's \<Rightarrow> gerror \<Rightarrow> 's gateway \<Rightarrow> bool" where
  "gw_ending rlim auths cps ns n l0 e g \<longleftrightarrow>
     gw_reach rlim auths cps ns n l0 g \<and> gw_live g \<and> gw_ctx g = Some e
     \<and> (\<forall>c ident s ch. (c, ident, s) \<in> set (gw_clients g) \<longrightarrow> \<not> stuck_at ch s)"

definition gw_left :: "'s gateway \<Rightarrow> nat" where
  "gw_left g = of_bool (gw_accepting g) + length (gw_handshake g) + length (gw_clients g)"

lemma gw_endingI:
  assumes "gw_ending rlim auths cps ns n l0 e g" "(gw_step rlim auths cps ns n)\<^sup>*\<^sup>* g g'" "gw_ctx g' = Some e" "gw_over g' = None"
    and "\<And>c ident s. (c, ident, s) \<in> set (gw_clients g') \<Longrightarrow> client_live s \<and> (\<forall>ch. \<not> stuck_at ch s)"
  shows "gw_ending rlim auths cps ns n l0 e g'"
proof -
  have "gw_reach rlim auths cps ns n l0 g'"
    using assms(1,2) unfolding gw_ending_def gw_reach_def by (blast intro: reach_steps)
  with assms(3-5) show ?thesis by (auto simp: gw_ending_def gw_live_def)
qed

lemma gw_moves:
  assumes g: "gw_ending rlim auths cps ns n l0 e g" and left: "0 < gw_left g"
  shows "\<exists>g'. (gw_step rlim auths cps ns n)\<^sup>*\<^sup>* g g' \<and> gw_ending rlim auths cps ns n l0 e g' \<and> gw_left g' < gw_left g"
proof -
  have reach: "gw_reach rlim auths cps ns n l0 g" and live: "gw_live g" "gw_over g = None" and ctx: "gw_ctx g = Some e"
    and clients: "\<And>c ident s. (c, ident, s) \<in> set (gw_clients g) \<Longrightarrow> client_live s \<and> (\<forall>ch. \<not> stuck_at ch s)"
    using g by (auto simp: gw_ending_def gw_live_def)
  have step: ?thesis
    if "(gw_step rlim auths cps ns n)\<^sup>*\<^sup>* g u" "gw_live u" "gw_act rlim auths cps ns n u g'" "gw_ctx g' = Some e"
      "gw_over g' = None" "set (gw_clients g') \<subseteq> set (gw_clients g)" "gw_left g' < gw_left g" for u g'
  proof -
    have run: "(gw_step rlim auths cps ns n)\<^sup>*\<^sup>* g g'"
      using that(1-3) by (auto simp: gw_step_def intro: rtranclp.rtrancl_into_rtrancl)
    have "gw_ending rlim auths cps ns n l0 e g'"
      by (rule gw_endingI [OF g run that(4,5)]) (use clients that(6) in blast)
    with run that(7) show ?thesis by blast
  qed
  consider (accepting) "gw_accepting g" | (handshake) c cs where "gw_handshake g = c # cs"
    | (client) c ident s cls where "gw_clients g = (c, ident, s) # cls"
    using left by (cases "gw_handshake g"; cases "gw_clients g") (auto simp: gw_left_def)
  then show ?thesis
  proof cases
    case accepting
    show ?thesis
      by (rule step [OF rtranclp.rtrancl_refl live(1) gw_act.accept_error [OF accepting]])
         (use accepting ctx live in \<open>simp_all add: gw_accept_error_def gw_left_def\<close>)
  next
    case handshake
    have "gw_act rlim auths cps ns n g (gw_login c None \<lparr>of_user = [], of_addr = [], of_key = []\<rparr> (Inl EOF) g)" by (rule gw_act.login) (simp_all add: handshake)
    then show ?thesis
      by (rule step [OF rtranclp.rtrancl_refl live(1)])
         (use handshake ctx live in \<open>simp_all add: gw_login_def login_def gw_left_def\<close>)
  next
    case client
    have c: "(c, ident, s) \<in> set (gw_clients g)" "0 < length (gw_clients g)" "gw_clients g ! 0 = (c, ident, s)"
      by (simp_all add: client)
    have s: "client_reach cps ns ident no_tunnels s" "c_ctx s = Some e"
      using gw_reach_inv(4) [OF reach] c(1) ctx by (fastforce simp: parts_ok_def)+
    have "ending cps ns ident no_tunnels (Some e) s" using s clients [OF c(1)] by (simp add: ending_def)
    from connection_ends [OF this] obtain s' r where s': "(client_step cps ns ident)\<^sup>*\<^sup>* s s'"
      "ending cps ns ident no_tunnels (Some e) s'" "k_phase (c_conn s') = Over r" by blast
    let ?g = "g\<lparr>gw_clients := (gw_clients g)[0 := (c, ident, s')]\<rparr>"
    have s'_live: "client_live s'" using s'(2) by (simp add: ending_def)
    have run: "(gw_step rlim auths cps ns n)\<^sup>*\<^sup>* g ?g"
      using client_run_lifts [OF s'(1) s'_live live(1) ctx s(2) c(2,3)] by blast
    have "gw_live ?g" using live clients s'_live by (auto simp: gw_live_def client)
    moreover have "gw_act rlim auths cps ns n ?g (gw_client_ends (c, ident, s') r ?g)"
      by (rule gw_act.client_ends [OF _ s'(3)]) (simp add: client)
    ultimately show ?thesis
      by (rule step [OF run]) (use ctx live in \<open>auto simp: gw_client_ends_def gw_left_def client\<close>)
  qed
qed

text \<open>The end of the context frees nothing and blocks nothing.\<close>

lemma stuck_ctx: "stuck (t\<lparr>s_ctx := x\<rparr>) = stuck t"
  by (cases "s_main t") (simp_all add: stuck_def)

lemma cancel_all_same:
  "client_live (cancel_all e s) = client_live s" "stuck_at ch (cancel_all e s) = stuck_at ch s"
proof -
  have "alive (t\<lparr>s_ctx := x\<rparr>) = alive t" for t x by (simp add: alive_def)
  moreover have "(\<forall>c t. map_option (s_ctx_update (\<lambda>_. Some e)) (c_sess s c) = Some t \<longrightarrow> alive t)
      = (\<forall>c t. c_sess s c = Some t \<longrightarrow> alive (t\<lparr>s_ctx := Some e\<rparr>))" by auto
  ultimately show "client_live (cancel_all e s) = client_live s" by (simp add: client_live_def cancel_all_def)
  show "stuck_at ch (cancel_all e s) = stuck_at ch s"
    by (auto simp: stuck_at_def cancel_all_def stuck_ctx)
qed

lemma gateway_ends:
  assumes "gw_ending rlim auths cps ns n l0 e g"
  shows "\<exists>g' r. (gw_step rlim auths cps ns n)\<^sup>*\<^sup>* g g' \<and> gw_over g' = Some r"
proof -
  have "\<exists>u. (gw_step rlim auths cps ns n)\<^sup>*\<^sup>* g u \<and> gw_ending rlim auths cps ns n l0 e u \<and> gw_left u = 0"
    by (rule steps_to_zero, rule assms) (rule gw_moves)
  then obtain u where u: "(gw_step rlim auths cps ns n)\<^sup>*\<^sup>* g u" "gw_live u" "gw_left u = 0" by (auto simp: gw_ending_def)
  then have "gw_act rlim auths cps ns n u (gw_return u)" by (intro gw_act.return) (simp_all add: gw_left_def)
  with u(1,2) have "(gw_step rlim auths cps ns n)\<^sup>*\<^sup>* g (gw_return u)"
    by (auto simp: gw_step_def intro: rtranclp.rtrancl_into_rtrancl)
  then show ?thesis by (auto simp: gw_return_def)
qed

section \<open>Properties\<close>

text \<open>C8. A connection can come to its end exactly when none of its sessions is stuck, that is, held up in a send
  on a channel that is full and that nobody reads or will read.\<close>

theorem client_ends_iff:
  assumes "client_reach cps ns ident g0 s" "client_live s"
  shows "(\<exists>s' e. (client_step cps ns ident)\<^sup>*\<^sup>* s s' \<and> k_phase (c_conn s') = Over e) \<longleftrightarrow> (\<forall>c. \<not> stuck_at c s)"
proof
  assume "\<exists>s' e. (client_step cps ns ident)\<^sup>*\<^sup>* s s' \<and> k_phase (c_conn s') = Over e"
  then obtain s' e where s': "(client_step cps ns ident)\<^sup>*\<^sup>* s s'" "k_phase (c_conn s') = Over e" by blast
  have "stuck_at c s'" if "stuck_at c s" for c
  proof -
    have "client_reach cps ns ident g0 s' \<and> stuck_at c s'"
      using s'(1) by (rule steps_invariant) (use assms(1) that stuck_step client_reach_step in blast)+
    then show ?thesis ..
  qed
  with stuck_not_over client_reach_steps [OF assms(1) s'(1)] s'(2) show "\<forall>c. \<not> stuck_at c s" by blast
next
  assume "\<forall>c. \<not> stuck_at c s"
  then have "ending cps ns ident g0 (c_ctx s) s" using assms by (simp add: ending_def)
  from connection_ends [OF this] show "\<exists>s' e. (client_step cps ns ident)\<^sup>*\<^sup>* s s' \<and> k_phase (c_conn s') = Over e"
    by blast
qed

theorem client_ends_iff_witness:
  "\<exists>s s' e. client_reach {} ''apps'' ann_web no_tunnels s \<and> c_sess s 0 \<noteq> None
    \<and> (client_step {} ''apps'' ann_web)\<^sup>*\<^sup>* s s' \<and> k_phase (c_conn s') = Over e"
proof -
  have "\<not> stuck_at c one_session" for c
    by (auto simp: stuck_at_def one_session_def open_session_def client_start_def conn_op_defs conn_start_def stuck_def
        NewSession_def split: if_splits)
  with client_ends_iff [OF one_session_reach one_session_live, of "{}" "''apps''" ann_web] one_session_sess(1)
    one_session_reach show ?thesis by blast
qed

text \<open>C4. The server can stop exactly when no session of any client is stuck: from every state of a run in
  which the process lives there is a run to the return of \<open>ListenAndServe\<close>, with every handshake failing,
  every goroutine of every connection done and every tunnel closed, unless some session is held up in a send
  on a channel that is full and that nobody reads or will read; and then, whatever happens, there is none,
  also once the context has ended. One client brings that about with nine window changes on a channel that
  runs no shell.\<close>

theorem gateway_can_return:
  assumes "gw_reach rlim auths cps ns n l0 g" "gw_live g"
  shows "(\<exists>g' r. (gw_step rlim auths cps ns n)\<^sup>*\<^sup>* g g' \<and> gw_over g' = Some r)
    \<longleftrightarrow> (\<forall>c ident s ch. (c, ident, s) \<in> set (gw_clients g) \<longrightarrow> \<not> stuck_at ch s)"
proof
  assume "\<exists>g' r. (gw_step rlim auths cps ns n)\<^sup>*\<^sup>* g g' \<and> gw_over g' = Some r"
  with gateway_stuck [OF assms(1)] assms(2)
  show "\<forall>c ident s ch. (c, ident, s) \<in> set (gw_clients g) \<longrightarrow> \<not> stuck_at ch s" by (fastforce simp: gw_live_def)
next
  assume ok: "\<forall>c ident s ch. (c, ident, s) \<in> set (gw_clients g) \<longrightarrow> \<not> stuck_at ch s"
  show "\<exists>g' r. (gw_step rlim auths cps ns n)\<^sup>*\<^sup>* g g' \<and> gw_over g' = Some r"
  proof (cases "gw_ctx g")
    case (Some e)
    with assms ok have "gw_ending rlim auths cps ns n l0 e g" by (simp add: gw_ending_def)
    then show ?thesis by (rule gateway_ends)
  next
    case None
    let ?g = "gw_cancel context_Canceled g"
    have step: "gw_step rlim auths cps ns n g ?g" using assms(2) None by (simp add: gw_step_def gw_act.cancel)
    have "gw_ending rlim auths cps ns n l0 context_Canceled ?g"
      using gw_reach_step [OF assms(1) step] assms(2) ok cancel_all_same
      by (fastforce simp: gw_ending_def gw_live_def gw_cancel_def)
    from gateway_ends [OF this] step show ?thesis by (meson converse_rtranclp_into_rtranclp)
  qed
qed

theorem gateway_can_return_witness:
  "\<exists>g g1 g' r. gw_reach None (\<lambda>_. {ann_auth}) {} ''apps'' 10 () g \<and> gw_clients g \<noteq> []
    \<and> (gw_step None (\<lambda>_. {ann_auth}) {} ''apps'' 10)\<^sup>*\<^sup>* g g' \<and> gw_over g' = Some r
    \<and> (gw_step None (\<lambda>_. {ann_auth}) {} ''apps'' 10)\<^sup>*\<^sup>* g g1 \<and> gw_ctx g1 = Some ErrNotPermitted
    \<and> (\<forall>g'. (gw_step None (\<lambda>_. {ann_auth}) {} ''apps'' 10)\<^sup>*\<^sup>* g1 g' \<longrightarrow> gw_over g' = None)"
proof -
  obtain g where g: "gw_reach None (\<lambda>_. {ann_auth}) {} ''apps'' 10 () g" "gw_clients g = [(0, ann_web, client_start no_tunnels)]"
    "gw_ctx g = None" "gw_over g = None" by (rule ann_gateway [of ann_auth "\<lambda>_. {ann_auth}"]) (simp_all add: ann_auth_def)
  have "\<not> stuck_at ch (client_start no_tunnels)" for ch by (simp add: stuck_at_def client_start_def)
  moreover have "gw_live g" using g by (simp add: gw_live_def client_live_def client_start_def conn_start_def)
  ultimately obtain g' r where g': "(gw_step None (\<lambda>_. {ann_auth}) {} ''apps'' 10)\<^sup>*\<^sup>* g g'" "gw_over g' = Some r"
    using gateway_can_return [OF g(1)] g(2) by auto
  obtain s t where s: "client_reach {} ''apps'' ann_web no_tunnels s" "c_ctx s = Some ErrNotPermitted" "client_live s"
    "c_sess s 0 = Some t" "stuck t" "SessionTask 0 \<in> set (k_tasks (c_conn s))" by (rule stuck_client)
  obtain g1 where g1: "gw_reach None (\<lambda>_. {ann_auth}) {} ''apps'' 10 () g1" "gw_clients g1 = [(0, ann_web, s)]"
    "gw_ctx g1 = c_ctx s" "gw_over g1 = None" "(gw_step None (\<lambda>_. {ann_auth}) {} ''apps'' 10)\<^sup>*\<^sup>* g g1"
    by (rule client_lifts [OF g s(1)])
  have "stuck_at 0 s" using s by (auto simp: stuck_at_def)
  moreover have "gw_live g1" using g1 s(3) by (simp add: gw_live_def)
  ultimately have "\<forall>g'. (gw_step None (\<lambda>_. {ann_auth}) {} ''apps'' 10)\<^sup>*\<^sup>* g1 g' \<longrightarrow> gw_over g' = None"
    using gateway_can_return [OF g1(1)] g1(2) by auto
  with g(1,2) g' g1 s(2) show ?thesis by (metis list.distinct(1))
qed

end
