(* ===== verification/Spec2Isabelle.thy ===== *)
theory Spec2Isabelle
  imports Split_Args Notice Mono_Float Redis_Limiter Key_Hash Tarpit Sync_Auth Session Connector
    K8s_Resolver K8s_Handler Forward_Manager Validate Metrics Listen Server Commands Profiles Syncdb_Main
    Token_Bucket Dispatch Client_Safety Sync_History Gateway Shutdown
begin

text \<open>
  A verification library for podsh, the SSH gateway to the pods of a Kubernetes namespace, written in
  Go. A client connects with \<open>ssh <deployment>@host\<close>; its public key is looked up in a cache that
  a sync worker fills from the user collection; a pod with the deployment's name and the user's id as
  owner is found; and shells, commands, file transfers and port forwards are run in that pod.

  \<^bold>\<open>The way of a connection\<close>, with the theories that model its stages.
  \<^item> \<open>cmd/podsh/root.go\<close> reads flags, \<open>internal/profiles\<close> turns them into a configuration, after
    \<open>internal/k8s/validate\<close> has checked the permissions, and \<open>internal/server\<close> starts the SSH and the
    metrics server: \<open>Profiles\<close>, \<open>Logging\<close>, \<open>Host_Key\<close>, \<open>Validate\<close>, \<open>Server\<close>, \<open>Metrics\<close>, \<open>Notice\<close>.
  \<^item> \<open>internal/sshd/listen.go\<close> accepts a connection, has \<open>internal/ratelimit/key.go\<close> make its key
    and asks a limiter; a connection over its rate goes to \<open>internal/tarpit\<close>: \<open>Listen\<close>, \<open>Key_Hash\<close>,
    \<open>Limiter\<close> (the interface), \<open>Mono_Limiter\<close>, \<open>Mono_Float\<close>, \<open>Redis_Limiter\<close> (with \<open>gcra.lua\<close>),
    \<open>Token_Bucket\<close>, \<open>Tarpit\<close>. \<open>Listen\<close> has the loop as a function of what it accepts; \<open>Gateway\<close> is
    \<open>ListenAndServe\<close> as a state machine, with the limiter, the tarpit, the logins and a connection for
    each client that is served, up to its return; \<open>Shutdown\<close> has when it can return.
  \<^item> \<open>internal/sshd/auth_callback.go\<close> authenticates the key, \<open>internal/auth\<close> against the cache, and the
    identity travels through the SSH permissions as base64 of JSON: \<open>Sync_Auth\<close>, \<open>Redis_Store\<close>,
    \<open>Identity_Codec\<close>, \<open>Base64\<close>, \<open>Json\<close>, \<open>Json_Struct\<close>, \<open>Utf8\<close>.
  \<^item> \<open>internal/sshd/connector.go\<close> serves the channels of the connection: \<open>Connector\<close> (login, channel
    loop, tunnels), \<open>Session\<close> (one session channel), \<open>Requests\<close> (payloads), \<open>Dispatch\<close> (the contract of a
    session). \<open>Client_Conn\<close> puts the loop, its sessions with the handlers they run, and its tunnels together
    into the machine of one client; \<open>Client_Safety\<close> has what holds of it. The machine of \<open>Connector\<close> is the
    loop alone and leaves open when a goroutine ends; in \<open>Client_Conn\<close> it ends as its session or its call does.
  \<^item> \<open>internal/k8s\<close> resolves the pod and runs the streams: \<open>K8s_Resolver\<close>, \<open>K8s_Handler\<close> (shell, exec,
    SFTP with its agent container), \<open>Split_Args\<close> (the command line), \<open>Forward_Manager\<close>.
  \<^item> \<open>cmd/syncdb\<close> with \<open>internal/workers/syncdb\<close> fills the cache: \<open>Syncdb_Main\<close>, \<open>Sync_Auth\<close>; \<open>Sync_History\<close>
    has the cache after any number of passes.
  \<^item> The helpers that run in the pods, and the configuration directory: \<open>Commands\<close>.

  \<^bold>\<open>Conventions\<close> (\<open>Prelude\<close>). Structs are records and enumerations datatypes with the names of the
  source; a definition has the name of its Go function where Isabelle allows it. A Go error is a
  \<open>gerror\<close>, a result with an error a sum, a call that may panic an \<open>'a go\<close>. Strings are byte strings,
  machine integers words where their width matters. Concurrent parts are step relations over a state
  with the channels, the goroutines and a record of what happened (\<open>Transition\<close> has their runs and the
  invariant rule); everything between two channel operations is one function. Metrics and what a
  handler does in the cluster are recorded, log output is not.

  \<^bold>\<open>Interfaces\<close> are locales, interpreted on the model where they are provided. \<open>rounding\<close> and
  \<open>rounding_upto\<close> (\<open>Float64\<close>): what the proofs need of float arithmetic, for \<open>float64\<close> and for exact
  numbers. \<open>limiter\<close> and \<open>metered\<close> (\<open>Limiter\<close>): the results of a limiter, and the potential by which it
  bounds a rate, provided by both limiters. \<open>kv_store\<close> (\<open>Redis_Store\<close>): what is relied on of Redis.
  \<open>pod_lister\<close> (\<open>K8s_Resolver\<close>): what is relied on of label selectors and of the pods of the cluster, for selectors made
  of label values only, as the API documents them.
  \<open>identity_cache\<close> (\<open>Sync_Auth\<close>): the cache the sync worker writes and the authenticator reads. \<open>metrics\<close> (\<open>Metrics\<close>): the metrics
  interface, provided by the Prometheus and the empty implementation.

  \<^bold>\<open>What is shown.\<close>
  \<^item> Across components, in this theory: at any time of any run of the gateway, no client has reached a pod
    whose owner does not list its key, by streams, patches or tunnels; the owner of a listed key does get
    there; the rate limit of the shipped configuration, over runs of the gateway.
  \<^item> The gateway: where each connection is; that the whole refines the accept loop, the tarpit and the
    clients; what \<open>ListenAndServe\<close> returns and when; that it can return exactly when no session is stuck.
  \<^item> One client: that its machine refines the machines of its parts, what the exit status says, that nothing
    of a connection is left when it is over, that it winds down within bounds once its loop is left, and that it
    can end exactly when none of its sessions is stuck.
  \<^item> Rate limiting: the bounds of both limiters in float64 arithmetic and, tighter, on exact numbers; the
    equivalence of the Redis limiter with a token bucket on exact numbers; the buckets of the in-memory
    limiter stay sane, whatever the rate; what a client may be denied after waiting. Clients of one network
    share a key, and others do not, unless their MACs collide.
  \<^item> Tarpit: conservation of connections, capacities, waiting times, draining, and the leak at shutdown.
  \<^item> Authentication: after any number of passes the cache answers as the directory of the last writes,
    until they expire; the codec round trips, and its decoder takes every field of version 1, refuses the
    other versions and gives just the well-formed identities.
  \<^item> Connections and sessions: invariants over all interleavings (goroutines, channels, tunnels, one
    handler per session, answers in order), refinement of an abstract dispatcher, how they come to an
    end, and the requests on which a session panics, blocks, or answers what it does not do.
  \<^item> Cluster: isolation of the resolver and of every stream, gauges that balance, the agent, the
    splitter's round trip, the life cycle of a forward manager and its gauges.
  \<^item> Programs: a configuration that a profile makes is valid and permitted; exit statuses and panics.

  \<^bold>\<open>Bounds and fuel.\<close> The JSON parser recurses on fuel; \<open>json_parse\<close> gives it one more than the length
  of the input, and every call takes a byte, so the round trip is proved for that fuel. The capacities
  are those of the code: 1000 jobs in the tarpit, 10 goroutines for a connection, 8 resize events and
  one command in a session. Rounding errors of times are bounded below \<open>2^62\<close>, that is before the year
  2116 in nanoseconds, and by \<open>2^-53\<close> of a number above 1; overflow to infinity is left out. Go leaves to the
  machine what a float64 out of the range of \<open>int64\<close> becomes as a \<open>time.Duration\<close>; \<open>Mono_Limiter\<close> takes that
  conversion as a parameter, and \<open>time.Time.Sub\<close> saturates as the library's does. A connection whose
  loop has been left moves on a bounded number of times; for the tarpit, which waits for timers, and for
  sessions, whose clients may keep a send waiting, termination is the existence of a run to the end.

  \<^bold>\<open>Granularity.\<close> In \<open>Gateway\<close> a login sees the cache after some number of the single writes of the sync
  worker, at a time not before them. A call of the limiter, the handling of a channel and the look-up with which a Kubernetes
  handler begins are each one step; what the handler then does in the cluster, effect by effect, the channel
  operations of a session, the phases of a \<open>Forward\<close> and the goroutines of the tarpit are interleaved with
  everything else. A login is recorded with the user name, the address and the key that were offered. Each client counts its own part of the two tunnel gauges.

  \<^bold>\<open>Parameters\<close>, for code that is not in the repository: Redis, MongoDB, the Kubernetes API and its SPDY
  connections, the SSH library (handshake, key parsing, unmarshalling; a connection has the
  permissions its callback returned for the key the client holds), the goroutine of client-go that reads the
  terminal sizes of a shell and may outlive it, \<open>errgroup\<close>'s scheduling, SHA-256
  and HMAC, the Prometheus registry, \<open>viper\<close> as a map of settings, the parsers of durations and
  addresses, files and \<open>path.Join\<close>. Their laws, where any are needed, are the locales above, and every
  theorem that uses one is also applied to a concrete instance.

  \<^bold>\<open>Not modelled\<close>: the generated client of the user service (\<open>api/proto\<close>), which no program uses; \<open>build.go\<close>
  and the mocks of \<open>internal/sshd/testutils.go\<close>; the signal handling of the interrupt library;
  interfaces and the constructors that only store their arguments (\<open>NewHasher\<close>, \<open>NewMapAuthenticator\<close>,
  \<open>NewRedisPublicKeyAuthenticator\<close>, \<open>NewConnectorImpl\<close>), and the methods by which \<open>BaseContext\<close> passes on
  its context and channel; the bytes copied through a stream; log output.
\<close>

section \<open>From the user collection to a pod\<close>

text \<open>The instance: one user with one key, one pod.\<close>

lemma ann_synced:
  obtains r w' c' where "periodic_loop plain_crypto ref_set still_env two_passes
      (newPeriodicSyncer (5 * second)) empty_conn = (r, w', c')"
    "\<And>meta. redis_Authenticate plain_crypto (redis_Get ref_get None (rc_store c') 0) meta [7]
      = Inr (Some (no_identity\<lparr>UserID := ''ann-id''\<rparr>))"
proof -
  obtain r w' c' where l: "periodic_loop plain_crypto ref_set still_env two_passes
      (newPeriodicSyncer (5 * second)) empty_conn = (r, w', c')" by (metis surj_pair)
  show thesis by (rule that [OF l]) (simp add: two_passes_answer(2) [OF l])
qed

text \<open>
  What the authenticator may answer at a login at time \<open>t\<close>, over the life of a gateway: the cache is as some
  number of the writes of the sync worker have left it, none of them later than \<open>t\<close>, and Redis may be down.
\<close>

definition cache_answers ::
    "'k crypto \<Rightarrow> ('s \<Rightarrow> int \<Rightarrow> string \<Rightarrow> string option) \<Rightarrow> 's kv_setter \<Rightarrow>
     env \<Rightarrow> sync_event list \<Rightarrow> periodic_syncer \<Rightarrow> 's redis_conn \<Rightarrow> int \<Rightarrow> authenticator set" where
  "cache_answers cr kv_get kv_set env es w c t =
     {redis_Authenticate cr (redis_Get kv_get down (rc_store (cache_after cr kv_set env es w c k)) t) | down k.
        \<forall>i < k. env_now env (rc_writes c + i) \<le> t}"

text \<open>C1. Nobody reaches a pod that is not theirs: at any time of any run of the gateway, with all its
  connections at once and while the sync worker goes on writing, the state has one login of each client that
  is served, and the key the client offered at it is one whose last write that had succeeded by then was for
  a document of the collection that lists this key, and not longer ago than the interval and five seconds;
  the client is served as the user of that document and for the user name it offered; and all that its
  connection has done so far, in whatever order, its shells, commands, file transfers, agents and tunnels,
  those included that still run, is in ready pods of the namespace with the id of that user as owner (ids
  being label values).\<close>

theorem gateway_isolated:
  assumes "kv_store kv_get kv_set" "0 \<le> ps_interval w" "\<And>t k. kv_get (rc_store c) t k = None"
    and "\<forall>docs u. Tick (Inr docs) \<in> set es \<longrightarrow> Inr u \<in> set docs \<longrightarrow> label_value (u_ID u)"
    and "gw_reach rlim (cache_answers cr kv_get kv_set env es w c) cluster_pods ns n l0 g"
    and "(ch, ident, s) \<in> set (gw_clients g)"
  shows "\<exists>t off k docs written u. map_of (gw_logins g) ch = Some (t, off)
    \<and> (\<forall>i < k. env_now env (rc_writes c + i) \<le> t)
    \<and> Tick (Inr docs) \<in> set es \<and> Inr u \<in> set docs \<and> lists_key cr u (ComputeKey cr (of_key off))
    \<and> directory env (rc_writes c) (take k (loop_log cr es)) (ComputeKey cr (of_key off)) = Some (written, u)
    \<and> t < written + expiry_millis (ps_interval w + 5 * second) * nanos_per_milli
    \<and> UserID ident = u_ID u \<and> RequestedHostname ident = of_user off
    \<and> (\<forall>e namespace name. e \<in> set (c_effects s) \<longrightarrow> effect_target e = Some (namespace, name) \<longrightarrow>
         own_pod cluster_pods ns ident namespace name)
    \<and> (\<forall>ch q f. ForwardTask ch (direct_key q) f \<in> set (k_tasks (c_conn s)) \<longrightarrow>
         own_pod cluster_pods ns ident (fm_namespace (c_mgrs s ! f)) (fm_pod (c_mgrs s ! f)))"
proof -
  obtain t off where login: "map_of (gw_logins g) ch = Some (t, off)"
    "logged_in (cache_answers cr kv_get kv_set env es w c t) off ident"
    "client_reach cluster_pods ns ident no_tunnels s" by (rule gateway_login [OF assms(5,6)])
  from login(2) obtain auth x where a: "auth \<in> cache_answers cr kv_get kv_set env es w c t"
    "auth \<lparr>cm_Deployment = of_user off, cm_RemoteAddr = of_addr off\<rparr> (of_key off) = Inr (Some x)"
    "metadata_ok (Metadata x) \<longrightarrow> ident = (identity_valid x)\<lparr>RequestedHostname := of_user off\<rparr>"
    by (auto simp: logged_in_def)
  from a(1) obtain down k where k: "\<forall>i < k. env_now env (rc_writes c + i) \<le> t"
    "auth = redis_Authenticate cr (redis_Get kv_get down (rc_store (cache_after cr kv_set env es w c k)) t)"
    unfolding cache_answers_def by blast
  from authenticated_entry [OF assms(1,2) k(1) [rule_format] assms(3) a(2) [unfolded k(2)]]
  obtain docs written u where u: "Tick (Inr docs) \<in> set es" "Inr u \<in> set docs" "lists_key cr u (ComputeKey cr (of_key off))"
    "directory env (rc_writes c) (take k (loop_log cr es)) (ComputeKey cr (of_key off)) = Some (written, u)"
    "t < written + expiry_millis (ps_interval w + 5 * second) * nanos_per_milli"
    "x = no_identity\<lparr>UserID := to_valid (u_ID u)\<rparr>" by blast
  have valid: "label_value (u_ID u)" using assms(4) u(1,2) by blast
  with a(3) u(6) label_value_valid [OF valid] have "UserID ident = u_ID u" "RequestedHostname ident = of_user off"
    by (simp_all add: no_identity_def metadata_ok_def map_sorted_def identity_valid_def)
  with login(1) k(1) u(1-5) valid client_pods [OF login(3)] show ?thesis by metis
qed

theorem gateway_isolated_witness:
  "\<exists>g s. gw_reach None (cache_answers plain_crypto ref_get ref_set still_env two_passes (newPeriodicSyncer (5 * second))
      empty_conn) (set [web_pod]) ''apps'' 10 () g
    \<and> gw_clients g = [(0, ann_web, s)] \<and> ForwardTask 0 (direct_key web_request) 0 \<in> set (k_tasks (c_conn s))
    \<and> own_pod (set [web_pod]) ''apps'' ann_web (fm_namespace (c_mgrs s ! 0)) (fm_pod (c_mgrs s ! 0))"
proof -
  let ?w = "newPeriodicSyncer (5 * second)"
  let ?A = "cache_answers plain_crypto ref_get ref_set still_env two_passes ?w empty_conn"
  obtain r w' c' where s: "periodic_loop plain_crypto ref_set still_env two_passes ?w empty_conn = (r, w', c')"
    and a: "\<And>meta. redis_Authenticate plain_crypto (redis_Get ref_get None (rc_store c') 0) meta [7]
      = Inr (Some (no_identity\<lparr>UserID := ''ann-id''\<rparr>))"
    using ann_synced by blast
  have now: "env_now still_env i = 0" for i by (simp add: still_env_def)
  have auth: "redis_Authenticate plain_crypto (redis_Get ref_get None (rc_store c') 0) \<in> ?A 0"
    unfolding cache_answers_def mem_Collect_eq
    by (rule exI [of _ None], rule exI [of _ "length (loop_log plain_crypto two_passes)"])
       (simp add: cache_after_all [OF s] now)
  obtain g where g: "gw_reach None ?A (set [web_pod]) ''apps'' 10 () g"
    "gw_clients g = [(0, ann_web, client_start no_tunnels)]" "gw_ctx g = None" "gw_over g = None"
    using ann_gateway [of _ ?A, OF auth a] by metis
  obtain st where st: "client_reach (set [web_pod]) ''apps'' ann_web no_tunnels st"
    "ForwardTask 0 (direct_key web_request) 0 \<in> set (k_tasks (c_conn st))" by (rule web_tunnel)
  obtain g1 where g1: "gw_reach None ?A (set [web_pod]) ''apps'' 10 () g1" "gw_clients g1 = [(0, ann_web, st)]"
    by (rule client_lifts [OF g st(1)])
  have i: "0 \<le> ps_interval ?w" by (simp add: newPeriodicSyncer_def second_def)
  have e: "ref_get (rc_store empty_conn) t k = None" for t k by (simp add: empty_conn_def ref_get_def)
  have ids: "\<forall>docs u. Tick (Inr docs) \<in> set two_passes \<longrightarrow> Inr u \<in> set docs \<longrightarrow> label_value (u_ID u)"
  proof -
    have "label_value (u_ID ann)" by code_simp
    then show ?thesis by (auto simp: two_passes_def)
  qed
  from gateway_isolated [OF ref.kv_store_axioms i e ids g1(1), of 0 ann_web st] g1(2) st(2)
  have "own_pod (set [web_pod]) ''apps'' ann_web (fm_namespace (c_mgrs st ! 0)) (fm_pod (c_mgrs st ! 0))" by auto
  with g1 st(2) show ?thesis by blast
qed

text \<open>C2. And the owner does get there: as long as the last write of a key is fresh, the owner of that
  key, asking for a deployment, is logged in as the user of the document it was written for, bound to that
  deployment, and the resolver answers with the first pod it lists for that owner and name that is running
  and ready.\<close>

theorem owner_gets_there:
  assumes "kv_store kv_get kv_set" "0 \<le> ps_interval w"
    and "\<And>i. i < length (loop_log cr es) \<Longrightarrow> env_now env (rc_writes c + i) \<le> t"
    and "periodic_loop cr kv_set env es w c = (r, w', c')"
    and "directory env (rc_writes c) (loop_log cr es) (ComputeKey cr key) = Some (written, u)"
    and "t < written + expiry_millis (ps_interval w + 5 * second) * nanos_per_milli"
    and "u_ID u \<noteq> []" "to_valid (u_ID u) = u_ID u" "host \<noteq> []"
    and "list_pods ns (''owner-id='' @ u_ID u @ '',app.kubernetes.io/deploy-name='' @ host) = Inr pods"
    and "find (\<lambda>p. pod_Phase p = ''Running'' \<and> pod_ready p) pods = Some p"
    and "\<forall>p \<in> set pods. pod_Containers p \<noteq> []"
  shows "\<exists>perms ident m'.
      publicKeyCallback (Some (redis_Authenticate cr (redis_Get kv_get None (rc_store c') t))) host addr key
        = Ret (Inr perms)
    \<and> login None (Inr (Some perms)) m = (Inr ident, m') \<and> UserID ident = u_ID u \<and> RequestedHostname ident = host
    \<and> label_Resolve list_pods ns ident = Ret (Inr (Some
        \<lparr>t_Pod = pod_Name p, t_Namespace = pod_Namespace p, t_Container = hd (pod_Containers p),
         t_Command = [''/bin/sh'']\<rparr>))"
proof -
  let ?auth = "redis_Authenticate cr (redis_Get kv_get None (rc_store c') t)"
  have a: "?auth meta key = Inr (Some (no_identity\<lparr>UserID := u_ID u\<rparr>))" for meta
    using sync_answer [OF assms(1-4), of meta key] assms(5,6,8) by (simp add: directory_answer_def)
  then obtain perms where p: "publicKeyCallback (Some ?auth) host addr key = Ret (Inr perms)"
    by (simp add: publicKeyCallback_def Let_def)
  let ?ident = "no_identity\<lparr>UserID := u_ID u, RequestedHostname := host\<rparr>"
  obtain m' where l: "login None (Inr (Some perms)) m = (Inr ?ident, m')"
    using login_accepted [OF p a, of m] assms(7-9)
    by (simp add: no_identity_def map_sorted_def metadata_ok_def identity_valid_def)
  have "label_Resolve list_pods ns ?ident = Ret (Inr (Some
      \<lparr>t_Pod = pod_Name p, t_Namespace = pod_Namespace p, t_Container = hd (pod_Containers p),
       t_Command = [''/bin/sh'']\<rparr>))"
    by (rule resolves_to) (use assms(7,9-12) in \<open>simp_all add: label_selector_def\<close>)
  with p l show ?thesis by (intro exI [of _ perms] exI [of _ ?ident] exI [of _ m']) simp
qed

theorem owner_gets_there_witness:
  "\<exists>r w' c' perms ident m'.
      periodic_loop plain_crypto ref_set still_env two_passes (newPeriodicSyncer (5 * second)) empty_conn = (r, w', c')
    \<and> publicKeyCallback (Some (redis_Authenticate plain_crypto (redis_Get ref_get None (rc_store c') 0)))
        ''web'' ''10.0.0.1'' [7] = Ret (Inr perms)
    \<and> login None (Inr (Some perms)) \<lparr>PodshFailedAuth = 0, PodshSuccessfulAuth = 0\<rparr> = (Inr ident, m')
    \<and> UserID ident = ''ann-id''"
proof -
  let ?w = "newPeriodicSyncer (5 * second)"
  obtain r w' c' where s: "periodic_loop plain_crypto ref_set still_env two_passes ?w empty_conn = (r, w', c')"
    by (metis surj_pair)
  have i: "0 \<le> ps_interval ?w" by (simp add: newPeriodicSyncer_def second_def)
  have f: "ref_list [web_pod] ''apps'' (''owner-id='' @ u_ID ann @ '',app.kubernetes.io/deploy-name='' @ ''web'') = Inr [web_pod]"
    by code_simp
  have r: "find (\<lambda>p. pod_Phase p = ''Running'' \<and> pod_ready p) [web_pod] = Some web_pod" by code_simp
  from owner_gets_there [where list_pods = "ref_list [web_pod]" and ns = "''apps''" and host = "''web''" and u = ann
      and p = web_pod and t = 0 and m = "\<lparr>PodshFailedAuth = 0, PodshSuccessfulAuth = 0\<rparr>" and addr = "''10.0.0.1''",
      OF ref.kv_store_axioms i _ s two_passes_answer(1) [OF s] _ _ _ _ f r]
  show ?thesis using s
    by (auto simp: five_second_sync still_env_def nanos_per_milli_def ann_def web_pod_def)
qed

section \<open>The shipped rate limit\<close>

lemma served_count_rev_app: "served_count key (rev xs @ ys) = served_count key xs + served_count key ys"
  by (simp add: served_count_def flip: rev_filter)

text \<open>C3. The gateway as shipped, in production and with no flag but the profile: in the arithmetic of the
  script's doubles, at any time before the year 2115, in any window of any run it serves a client key at most
  12.0001 connections and 1.200001 more for every second of the window, so never more than twelve at once,
  whatever its connections, its tarpit and its logins do meanwhile.\<close>

theorem shipped_rate_bound:
  fixes kv_get :: "'s \<Rightarrow> int \<Rightarrow> string \<Rightarrow> rat option"
  assumes "prod_Config st ctx (viper_of ((''profile'', FlagString ''prod'') # podsh_flags path_join home))
      = Ret (Inr (cfg, pm))"
    and "sc_Limiter (sv_SSHDConfig cfg) = Some (RedisLim rate burst ttl)"
    and "kv_store kv_get kv_set" "\<And>k. kv_get l0 s0 k = None" "0 \<le> s0"
    and "allow = redis_Allow kv_get kv_set f64 (redis_new f64 rate burst ttl) True"
    and "(gw_step (Some allow) auths cluster_pods ns n)\<^sup>*\<^sup>* (gateway_start l0 s0) g"
    and "(gw_step (Some allow) auths cluster_pods ns n)\<^sup>*\<^sup>* g g'"
    and "clock (gw_tarpit g') \<le> 4600000000000000000"
  shows "of_nat (served_count key (gw_fates g')) \<le> of_nat (served_count key (gw_fates g)) + 12 + 1 / 10000
    + 1200001 / 1000000 * (of_int (clock (gw_tarpit g') - clock (gw_tarpit g)) / 1000000000 :: rat)"
proof -
  have "rate = f64 (6 / 5) \<and> burst = 12 \<and> ttl = 30000000000"
    using assms(1,2)
    by (elim prod_Config_Ok)
       (simp add: profile_config_def limiter_setting_def viper_of_def podsh_flags_def DefaultLimitEnabled_def
         DefaultLimitRate_def DefaultLimitBurst_def DefaultLimitTTL_def)
  then have v: "rate = f64 (6 / 5)" "burst = 12" "ttl = 30000000000" by auto
  let ?t0 = "clock (gw_tarpit g)" and ?t1 = "clock (gw_tarpit g')"
  obtain es os r tp s' tp' r' where run:
    "accept_loop (Some allow) (gw_events g) (l0, NewTarpit s0) = (rev (gw_fates g), r, gw_limiter g, tp)"
    "accept_loop (Some allow) es (gw_limiter g, tp) = (os, r', s', tp')" "gw_fates g' = rev os @ gw_fates g"
    "calls_within s0 ?t0 (limiter_calls (gw_events g))" "calls_within ?t0 ?t1 (limiter_calls es)"
    by (rule gw_window [OF assms(7,8)])
  have le: "0 \<le> ?t1 - ?t0" "s0 \<le> ?t1"
    using calls_within_le [OF run(4)] calls_within_le [OF run(5)] by simp_all
  have t1: "(of_int ?t1 :: rat) \<le> 4600000000000000000"
    using assms(9) by (metis of_int_le_iff of_int_numeral)
  let ?I = "gcra_interval f64 (f64 (6 / 5))" and ?w = "of_int (?t1 - ?t0) :: rat"
  note I = shipped_gcra
  have "of_nat (served_count key os) \<le> (10000000512 + ?w) / (?I - 512)"
    using served_bound_float [OF assms(3) _ _ _ _ _ assms(4) _ assms(6) run(4,5,1,2), of key] I le t1 assms(5)
    by (simp add: v dur_millis_def nanos_per_milli_def)
  also have "\<dots> \<le> (10000000512 + ?w) / (833333333 - 512)"
    using I le(1) by (intro divide_left_mono mult_pos_pos add_nonneg_nonneg) simp_all
  also have "\<dots> \<le> 12 + 1 / 10000 + 1200001 / 1000000 * (?w / 1000000000)"
    using le(1) by (simp add: field_simps flip: of_int_diff)
  finally show ?thesis by (simp add: run(3) served_count_rev_app)
qed

theorem shipped_rate_bound_witness:
  "\<exists>cfg pm g. prod_Config calm_startup (Given 0) prod_flags = Ret (Inr (cfg, pm))
    \<and> gw_step (Some (redis_Allow ref_get ref_set f64 (redis_new f64 (f64 (6 / 5)) 12 30000000000) True))
        (\<lambda>_. {}) {} ''apps'' 10 (gateway_start Map.empty 5) g
    \<and> length (gw_fates g) = 1 \<and> served_count ''a'' (gw_fates g) \<le> 12"
proof -
  let ?allow = "redis_Allow ref_get ref_set f64 (redis_new f64 (f64 (6 / 5)) 12 30000000000) True"
  obtain cfg pm where "profile_Config ModeProd calm_startup (Given 0) prod_flags = Ret (Inr (cfg, pm))"
    by (rule prod_starts)
  then have c: "prod_Config calm_startup (Given 0) prod_flags = Ret (Inr (cfg, pm))"
    by (simp add: profile_Config_def)
  then have rl: "sc_Limiter (sv_SSHDConfig cfg) = Some (RedisLim (f64 (6 / 5)) 12 30000000000)"
    by (elim prod_Config_Ok)
       (simp add: profile_config_def limiter_setting_def prod_flags_def viper_of_def podsh_flags_def
         DefaultLimitEnabled_def DefaultLimitRate_def DefaultLimitBurst_def DefaultLimitTTL_def)
  let ?s = "gateway_start Map.empty 5" and ?g = "gw_accept (Some ?allow) (Some ''a'') (gateway_start Map.empty 5)"
  have step: "gw_step (Some ?allow) (\<lambda>_. {}) {} ''apps'' 10 ?s ?g"
    unfolding gw_step_def by (simp add: gw_live_def gw_act.accept)
  then have run: "(gw_step (Some ?allow) (\<lambda>_. {}) {} ''apps'' 10)\<^sup>*\<^sup>* ?s ?g" by (rule r_into_rtranclp)
  have clock: "clock (gw_tarpit ?g) = 5 \<and> length (gw_fates ?g) = 1"
    using gw_accept_fields(2,3) [of "Some ?allow" "Some ''a''" ?s]
    by (cases rule: listen_conn_step [of "Some ?allow" 5 0 "Some ''a''" Map.empty "NewTarpit 5"])
       (simp_all add: gw_accept_fields NewTarpit_def)
  have "of_nat (served_count ''a'' (gw_fates ?g)) \<le> 12 + 1 / (10000 :: rat)"
    using shipped_rate_bound [OF c [unfolded prod_flags_def] rl ref.kv_store_axioms _ _ refl rtranclp.rtrancl_refl
        run, of "''a''"] clock
    by (simp add: ref_get_def NewTarpit_def)
  then have "of_nat (served_count ''a'' (gw_fates ?g)) < (of_nat 13 :: rat)" by simp
  then have "served_count ''a'' (gw_fates ?g) \<le> 12" by (simp only: of_nat_less_iff)
  with c step clock show ?thesis by blast
qed

end
